(* ===== verification/Prelude.thy ===== *)
theory Prelude
  imports Main "HOL-Library.Word" "HOL-Library.Monad_Syntax"
begin

unbundle bit_operations_syntax

section \<open>Shared types, rewrite collections and word lemmas\<close>

text \<open>
  The C++ integer types are the words of their width, so that \<open>+\<close>, \<open>-\<close> and \<open>*\<close> wrap as
  the unsigned types of the source do; \<open>size_t\<close> is 64 bits wide (the x86-64 build).
  A byte buffer or \<open>std::string\<close> is a list of bytes.

  \<open>wnat\<close> collects the rewrite rules that read an unsigned word expression as the
  natural number it denotes; the component proofs move to \<open>nat\<close> with them.
\<close>

type_synonym u8 = "8 word"
type_synonym u16 = "16 word"
type_synonym u32 = "32 word"
type_synonym u64 = "64 word"
type_synonym u128 = "128 word"
type_synonym u256 = "256 word"
type_synonym u512 = "512 word"
type_synonym bytes = "8 word list"

text \<open>Reading and writing a word through \<open>memcpy\<close> on a little-endian machine.\<close>

fun le_word :: "bytes \<Rightarrow> 'a::len word" where
  "le_word [] = 0"
| "le_word (b # bs) = ucast b OR push_bit 8 (le_word bs)"

definition le_bytes :: "nat \<Rightarrow> 'a::len word \<Rightarrow> bytes" where
  "le_bytes n x = map (\<lambda>i. ucast (drop_bit (8 * i) x)) [0..<n]"

fun le_val :: "bytes \<Rightarrow> nat" where
  "le_val [] = 0"
| "le_val (b # bs) = unat b + 256 * le_val bs"

text \<open>A loop over a list that stops at the first failing step.\<close>

fun opt_fold :: "('a \<Rightarrow> 's \<Rightarrow> 's option) \<Rightarrow> 'a list \<Rightarrow> 's \<Rightarrow> 's option" where
  "opt_fold f [] s = Some s"
| "opt_fold f (x # xs) s = Option.bind (f x s) (opt_fold f xs)"

named_theorems wnat \<open>unsigned word expressions as natural numbers\<close>

subsection \<open>Words as natural numbers\<close>

lemma unat_bound: "unat (x :: 'a::len word) < 2 ^ LENGTH('a)"
  by (rule unsigned_less)

lemma word_eq_unatI: "unat x = unat y \<Longrightarrow> x = (y :: 'a::len word)"
  by (simp add: word_eq_iff_unsigned [where 'a = nat])

lemma unat_bound_64: "unat (x :: u64) < 2 ^ 64"
  using unat_bound [of x] by simp

lemma unat_bound_32: "unat (x :: u32) < 2 ^ 32"
  using unat_bound [of x] by simp

lemma unat_bound_8: "unat (x :: u8) < 256"
  using unat_bound [of x] by simp

lemma unat_add_wrap [wnat]: "unat (x + y :: 'a::len word) = (unat x + unat y) mod 2 ^ LENGTH('a)"
  by (simp add: unat_word_ariths)

lemma unat_mult_wrap [wnat]: "unat (x * y :: 'a::len word) = (unat x * unat y) mod 2 ^ LENGTH('a)"
  by (simp add: unat_word_ariths)

lemma unat_drop_bit_div [wnat]: "unat (drop_bit n x :: 'a::len word) = unat x div 2 ^ n"
  by (simp only: unat_drop_bit_eq) (simp only: drop_bit_eq_div)

lemma unat_push_bit_mult [wnat]:
  "unat (push_bit n x :: 'a::len word) = (unat x * 2 ^ n) mod 2 ^ LENGTH('a)"
  by (simp only: unsigned_push_bit_eq) (simp only: push_bit_eq_mult take_bit_eq_mod)

lemma unat_take_bit_mod [wnat]: "unat (take_bit n x :: 'a::len word) = unat x mod 2 ^ n"
  by (simp only: unsigned_take_bit_eq) (simp only: take_bit_eq_mod)

lemma unat_and_mask [wnat]: "unat (x AND mask n :: 'a::len word) = unat x mod 2 ^ n"
  by (simp only: take_bit_eq_mask [symmetric] unat_take_bit_mod)

lemma unat_mask_exp: "n \<le> LENGTH('a) \<Longrightarrow> unat (mask n :: 'a::len word) = 2 ^ n - 1"
proof -
  assume "n \<le> LENGTH('a)"
  then have "mask LENGTH('a) mod 2 ^ n = (mask n :: nat)"
    by (simp add: min_def flip: take_bit_eq_mod)
  then show "unat (mask n :: 'a word) = 2 ^ n - 1"
    using unat_and_mask [of "- 1 :: 'a word" n] by (simp add: unsigned_minus_1_eq_mask mask_eq_exp_minus_1)
qed

lemma unat_div_nat [wnat]: "unat (x div y :: 'a::len word) = unat x div unat y"
  by (rule unat_div_distrib)

lemma unat_mod_nat [wnat]: "unat (x mod y :: 'a::len word) = unat x mod unat y"
  by (rule unat_mod_distrib)

lemma unat_sub_no_borrow [wnat]:
  "y \<le> x \<Longrightarrow> unat (x - y :: 'a::len word) = unat x - unat y"
  by (simp add: unat_sub word_le_nat_alt)

lemma mod_of_wrapped_sum:
  "a < m \<Longrightarrow> b < m \<Longrightarrow> m \<le> a + b \<Longrightarrow> (a + b) mod m = a + b - (m :: nat)"
  by (simp add: le_mod_geq)

text \<open>The carry test the source uses, \<open>x + y < x\<close>, is unsigned overflow.\<close>

lemma add_carry_iff: "x + y < x \<longleftrightarrow> 2 ^ LENGTH('a) \<le> unat x + unat (y :: 'a::len word)"
proof (cases "unat x + unat y < 2 ^ LENGTH('a)")
  case True
  then show ?thesis by (simp add: word_less_nat_alt wnat)
next
  case False
  have "unat x + unat y - 2 ^ LENGTH('a) < unat x"
    using False unat_bound [of y] by linarith
  moreover have "(unat x + unat y) mod 2 ^ LENGTH('a) = unat x + unat y - 2 ^ LENGTH('a)"
    using False by (intro mod_of_wrapped_sum) (simp_all add: unat_bound)
  ultimately show ?thesis using False by (simp add: word_less_nat_alt wnat)
qed

lemma unat_add_carry:
  "unat x + unat (y :: 'a::len word) = unat (x + y) + (if x + y < x then 2 ^ LENGTH('a) else 0)"
proof (cases "unat x + unat y < 2 ^ LENGTH('a)")
  case True
  then show ?thesis by (simp add: add_carry_iff wnat)
next
  case False
  then have "(unat x + unat y) mod 2 ^ LENGTH('a) = unat x + unat y - 2 ^ LENGTH('a)"
    by (intro mod_of_wrapped_sum) (simp_all add: unat_bound)
  then show ?thesis using False by (simp add: add_carry_iff wnat)
qed

lemma unat_ucast_mod: "unat (ucast (x :: 'a::len word) :: 'b::len word) = unat x mod 2 ^ LENGTH('b)"
  by (simp only: unsigned_ucast_eq) (simp only: take_bit_eq_mod)

lemma unat_ucast_up:
  "LENGTH('a) \<le> LENGTH('b) \<Longrightarrow> unat (ucast (x :: 'a::len word) :: 'b::len word) = unat x"
  using less_le_trans [OF unat_bound [of x] power_increasing [of "LENGTH('a)" "LENGTH('b)" "2::nat"]]
  by (simp add: unat_ucast_mod)

lemma or_disjoint_add: "x AND y = 0 \<Longrightarrow> x OR y = x + (y :: 'a::len word)"
  by (simp add: disjunctive_add_eq_or)

lemma unat_or_disjoint:
  assumes "x AND y = 0" and "unat x + unat y < 2 ^ LENGTH('a)"
  shows "unat (x OR y) = unat x + unat (y :: 'a::len word)"
  using assms by (simp add: or_disjoint_add wnat)

subsection \<open>Little-endian memory\<close>

lemma le_bytes_length [simp]: "length (le_bytes n x) = n"
  by (simp add: le_bytes_def)

lemma le_bytes_nth: "i < n \<Longrightarrow> le_bytes n x ! i = ucast (drop_bit (8 * i) x)"
  by (simp add: le_bytes_def)

lemma bit_le_word:
  "bit (le_word bs :: 'a::len word) i \<longleftrightarrow>
    i < LENGTH('a) \<and> i div 8 < length bs \<and> bit (bs ! (i div 8)) (i mod 8)"
proof (induction bs arbitrary: i)
  case Nil
  then show ?case by simp
next
  case (Cons b bs)
  show ?case
  proof (cases "i < 8")
    case True
    then show ?thesis by (auto simp: bit_simps dest: bit_imp_le_length)
  next
    case False
    then have "i div 8 = Suc ((i - 8) div 8)" "i mod 8 = (i - 8) mod 8"
      by (simp_all add: le_div_geq le_mod_geq)
    with False show ?thesis
      by (auto simp: bit_simps Cons.IH dest: bit_imp_le_length)
  qed
qed

lemma le_bytes_le_word:
  assumes "8 * length bs \<le> LENGTH('a)"
  shows "le_bytes (length bs) (le_word bs :: 'a::len word) = bs"
proof (rule nth_equalityI)
  fix i assume "i < length (le_bytes (length bs) (le_word bs :: 'a word))"
  then have i: "i < length bs" by simp
  show "le_bytes (length bs) (le_word bs :: 'a word) ! i = bs ! i"
  proof (rule bit_word_eqI)
    fix n assume "n < LENGTH(8)"
    then have n: "n < 8" by simp
    moreover have "8 * i + n < LENGTH('a)" using assms i n by linarith
    ultimately show "bit (le_bytes (length bs) (le_word bs :: 'a word) ! i) n = bit (bs ! i) n"
      using i by (simp add: le_bytes_nth bit_simps bit_le_word)
  qed
qed simp

lemma le_word_le_bytes:
  assumes "LENGTH('a) = 8 * n"
  shows "le_word (le_bytes n x) = (x :: 'a::len word)"
proof (rule bit_word_eqI)
  fix i assume i: "i < LENGTH('a)"
  then have "i div 8 < n" using assms by (simp add: less_mult_imp_div_less mult.commute)
  with i show "bit (le_word (le_bytes n x) :: 'a word) i = bit x i"
    by (simp add: bit_le_word le_bytes_nth bit_simps)
qed

lemma le_val_bound: "le_val bs < 256 ^ length bs"
proof (induction bs)
  case (Cons b bs)
  then show ?case using unat_bound_8 [of b] by simp
qed simp

lemma unat_le_word [wnat]:
  "8 \<le> LENGTH('a) \<Longrightarrow> unat (le_word bs :: 'a::len word) = le_val bs mod 2 ^ LENGTH('a)"
proof (induction bs)
  case (Cons b bs)
  have "(ucast b :: 'a word) AND push_bit 8 (le_word bs) = 0"
    by (rule bit_word_eqI) (auto simp: bit_simps dest: bit_imp_le_length)
  then have "le_word (b # bs) = (ucast b :: 'a word) + push_bit 8 (le_word bs)"
    by (simp add: or_disjoint_add)
  moreover have "unat (ucast b :: 'a word) = unat b"
    using Cons.prems by (simp add: unat_ucast_up)
  ultimately show ?case using Cons by (simp add: wnat mod_simps mult.commute)
qed simp

lemma le_val_append: "le_val (xs @ ys) = le_val xs + 256 ^ length xs * le_val ys"
  by (induction xs) (simp_all add: algebra_simps)

lemma le_val_zeros: "le_val (replicate n 0) = 0"
  by (induction n) simp_all

lemma le_val_inject: "le_val xs = le_val ys \<Longrightarrow> length xs = length ys \<Longrightarrow> xs = ys"
proof (induction xs arbitrary: ys)
  case (Cons x xs)
  then obtain y zs where ys: "ys = y # zs" by (cases ys) auto
  with Cons.prems have e: "unat x + 256 * le_val xs = unat y + 256 * le_val zs" by simp
  have "unat x = unat y" using arg_cong [OF e, of "\<lambda>n. n mod 256"] unat_bound_8 [of x] unat_bound_8 [of y] by simp
  then show ?case using Cons e ys by (simp add: word_eq_unatI)
qed simp

subsection \<open>Loops that may fail\<close>

lemma opt_fold_append: "opt_fold f (xs @ ys) s = Option.bind (opt_fold f xs s) (opt_fold f ys)"
  by (induction xs arbitrary: s) (simp_all split: Option.bind_splits)

text \<open>An invariant that every step keeps and under which no step fails holds after the loop.\<close>

lemma opt_fold_invariant:
  assumes "I [] s" and "\<And>done x s. I done s \<Longrightarrow> x \<in> set xs \<Longrightarrow> \<exists>s'. f x s = Some s' \<and> I (done @ [x]) s'"
  shows "\<exists>s'. opt_fold f xs s = Some s' \<and> I xs s'"
  using assms(2)
proof (induction xs rule: rev_induct)
  case Nil
  then show ?case using assms(1) by simp
next
  case (snoc x xs)
  then obtain s1 where "opt_fold f xs s = Some s1" "I xs s1" by auto
  with snoc.prems [of xs s1 x] show ?case by (auto simp: opt_fold_append)
qed

subsection \<open>Self-delimiting encodings\<close>

text \<open>
  The contract of an encoding that can be followed by other data: decoding a buffer that
  starts with an encoded value returns that value and the bytes after it.
\<close>

locale prefix_codec =
  fixes enc :: "'v \<Rightarrow> bytes"
    and dec :: "bytes \<Rightarrow> ('v \<times> bytes) option"
  assumes dec_enc: "dec (enc v @ rest) = Some (v, rest)"
begin

lemma enc_append_inject: "enc v @ xs = enc w @ ys \<longleftrightarrow> v = w \<and> xs = ys"
proof
  assume "enc v @ xs = enc w @ ys"
  then have "dec (enc v @ xs) = dec (enc w @ ys)" by (rule arg_cong)
  then show "v = w \<and> xs = ys" by (simp add: dec_enc)
qed simp

lemma enc_inject: "enc v = enc w \<longleftrightarrow> v = w"
  using enc_append_inject [of v "[]" w "[]"] by simp

lemma enc_sequence_inject:
  "concat (map enc vs) = concat (map enc ws) \<Longrightarrow> length vs = length ws \<Longrightarrow> vs = ws"
proof (induction vs arbitrary: ws)
  case (Cons v vs)
  then show ?case by (cases ws) (auto simp: enc_append_inject)
qed simp

end

end
