(* ===== verification/Int_Util.thy ===== *)
theory Int_Util
  imports Prelude
begin

unbundle bit_operations_syntax

section \<open>Wide integer helpers (contrib/epee/include/int-util.h, src/int-util.cpp)\<close>

text \<open>
  Multiplication of two 64-bit values into 128 bits, long division, clamped addition and
  subtraction, rotations and byte swaps. A function with an output pointer returns a
  tuple: the returned value first, then what it writes through its pointers.
  Division by zero (a trap in C, an exception of the multiprecision library) and a failed assertion are \<open>None\<close>.
\<close>

subsection \<open>Definitions\<close>

definition rol32 :: "u32 \<Rightarrow> int \<Rightarrow> u32" where
  "rol32 x r = push_bit (nat (r mod 32)) x OR drop_bit (nat ((- r) mod 32)) x"

definition rol64 :: "u64 \<Rightarrow> int \<Rightarrow> u64" where
  "rol64 x r = push_bit (nat (r mod 64)) x OR drop_bit (nat ((- r) mod 64)) x"

definition hi_dword :: "u64 \<Rightarrow> u64" where
  "hi_dword val = drop_bit 32 val"

definition lo_dword :: "u64 \<Rightarrow> u64" where
  "lo_dword val = val AND 0xFFFFFFFF"

definition mul128 :: "u64 \<Rightarrow> u64 \<Rightarrow> (u64 \<times> u64) option" where
  "mul128 multiplier multiplicand =
    (let a = hi_dword multiplier;
         b = lo_dword multiplier;
         c = hi_dword multiplicand;
         d = lo_dword multiplicand;
         ac = a * c;
         ad = a * d;
         bc = b * c;
         bd = b * d;
         adbc = ad + bc;
         adbc_carry = (if adbc < ad then 1 else 0);
         product_lo = bd + push_bit 32 adbc;
         product_lo_carry = (if product_lo < bd then 1 else 0);
         product_hi = ac + drop_bit 32 adbc + push_bit 32 adbc_carry + product_lo_carry
     in if ac \<le> product_hi then Some (product_lo, product_hi) else None)"

definition div_with_reminder :: "u64 \<Rightarrow> u32 \<Rightarrow> u32 \<Rightarrow> (u64 \<times> u32) option" where
  "div_with_reminder dividend divisor remainder =
    (if divisor = 0 then None
     else let dividend = dividend OR push_bit 32 (ucast remainder)
          in Some (dividend div ucast divisor, ucast (dividend mod ucast divisor)))"

definition div128_32 :: "u64 \<Rightarrow> u64 \<Rightarrow> u32 \<Rightarrow> (u32 \<times> u64 \<times> u64) option" where
  "div128_32 dividend_hi dividend_lo divisor =
    do {
      (q3, r3) \<leftarrow> div_with_reminder (hi_dword dividend_hi) divisor 0;
      (q2, r2) \<leftarrow> div_with_reminder (lo_dword dividend_hi) divisor r3;
      (q1, r1) \<leftarrow> div_with_reminder (hi_dword dividend_lo) divisor r2;
      (q0, r0) \<leftarrow> div_with_reminder (lo_dword dividend_lo) divisor r1;
      Some (r0, push_bit 32 q3 OR q2, push_bit 32 q1 OR q0)
    }"

definition div128_64 :: "u64 \<Rightarrow> u64 \<Rightarrow> u64 \<Rightarrow> (u64 \<times> u64 \<times> u64 \<times> u64) option" where
  "div128_64 dividend_hi dividend_lo divisor =
    (if divisor = 0 then None
     else let dividend = push_bit 64 (ucast dividend_hi :: u128) OR ucast dividend_lo;
              q = dividend div ucast divisor;
              r = dividend mod ucast divisor
          in Some (ucast (drop_bit 64 q AND 0xffffffffffffffff), ucast (q AND 0xffffffffffffffff),
                   ucast (drop_bit 64 r AND 0xffffffffffffffff), ucast (r AND 0xffffffffffffffff)))"

definition add64clamp :: "u64 \<Rightarrow> u64 \<Rightarrow> u64" where
  "add64clamp value add = (if value > (- 1) - add then - 1 else value + add)"

definition sub64clamp :: "u64 \<Rightarrow> u64 \<Rightarrow> u64" where
  "sub64clamp value sub = (if value < sub then 0 else value - sub)"

definition swap16 :: "u16 \<Rightarrow> u16" where
  "swap16 x = push_bit 8 (x AND 0x00ff) OR drop_bit 8 (x AND 0xff00)"

definition swap32 :: "u32 \<Rightarrow> u32" where
  "swap32 x0 =
    (let x = push_bit 8 (x0 AND 0x00ff00ff) OR drop_bit 8 (x0 AND 0xff00ff00)
     in push_bit 16 x OR drop_bit 16 x)"

definition swap64 :: "u64 \<Rightarrow> u64" where
  "swap64 x0 =
    (let x1 = push_bit 8 (x0 AND 0x00ff00ff00ff00ff) OR drop_bit 8 (x0 AND 0xff00ff00ff00ff00);
         x2 = push_bit 16 (x1 AND 0x0000ffff0000ffff) OR drop_bit 16 (x1 AND 0xffff0000ffff0000)
     in push_bit 32 x2 OR drop_bit 32 x2)"

definition SWAP64 :: "u64 \<Rightarrow> u64" where
  "SWAP64 x =
    push_bit 56 (x AND 0x00000000000000ff) OR
    push_bit 40 (x AND 0x000000000000ff00) OR
    push_bit 24 (x AND 0x0000000000ff0000) OR
    push_bit 8 (x AND 0x00000000ff000000) OR
    drop_bit 8 (x AND 0x000000ff00000000) OR
    drop_bit 24 (x AND 0x0000ff0000000000) OR
    drop_bit 40 (x AND 0x00ff000000000000) OR
    drop_bit 56 (x AND 0xff00000000000000)"

subsection \<open>Multiplication\<close>

lemma unat_hi_dword [wnat]: "unat (hi_dword x) = unat x div 2 ^ 32"
  by (simp add: hi_dword_def wnat)

lemma unat_lo_dword [wnat]: "unat (lo_dword x) = unat x mod 2 ^ 32"
proof -
  have "lo_dword x = take_bit 32 x"
    by (simp add: lo_dword_def take_bit_eq_mask mask_eq_exp_minus_1)
  then show ?thesis by (simp add: unat_take_bit_mod)
qed

lemma dword_split: "unat (x :: u64) = unat (hi_dword x) * 2 ^ 32 + unat (lo_dword x)"
  by (simp add: wnat)

lemma hi_dword_bound: "unat (hi_dword x) < 2 ^ 32"
  using unat_bound_64 [of x] by (simp add: wnat less_mult_imp_div_less)

lemma lo_dword_bound: "unat (lo_dword x) < 2 ^ 32"
  by (simp add: wnat)

lemma dword_product_bound:
  assumes "a < 2 ^ 32" and "b < 2 ^ 32" shows "a * b \<le> (2 ^ 32 - 1) * (2 ^ 32 - (1::nat))"
  using assms by (intro mult_le_mono) simp_all

lemma dword_product_no_wrap:
  "unat a < 2 ^ 32 \<Longrightarrow> unat b < 2 ^ 32 \<Longrightarrow> unat (a * b :: u64) = unat a * unat b"
  using dword_product_bound [of "unat a" "unat b"] by (simp add: wnat)

lemma shift_split: "s * 2 ^ 32 = (s div 2 ^ 32) * 2 ^ 64 + (s mod 2 ^ 32) * 2 ^ (32::nat)" for s :: nat
proof -
  define q r where "q = s div 2 ^ 32" and "r = s mod 2 ^ 32"
  have s: "s = q * 2 ^ 32 + r" by (simp add: q_def r_def)
  show ?thesis unfolding q_def [symmetric] r_def [symmetric] by (simp add: s)
qed

text \<open>The schoolbook identity behind the four partial products, over natural numbers.\<close>

lemma schoolbook_product:
  fixes a b c d :: nat
  assumes s: "a * d + b * c = s + k1 * 2 ^ 64"
    and lo: "b * d + (s mod 2 ^ 32) * 2 ^ 32 = p + k2 * 2 ^ 64"
  shows "(a * 2 ^ 32 + b) * (c * 2 ^ 32 + d)
    = (a * c + s div 2 ^ 32 + k1 * 2 ^ 32 + k2) * 2 ^ 64 + p"
proof -
  have "(a * 2 ^ 32 + b) * (c * 2 ^ 32 + d) = a * c * 2 ^ 64 + (a * d + b * c) * 2 ^ 32 + b * d"
    by (simp add: algebra_simps)
  also have "\<dots> = a * c * 2 ^ 64 + s * 2 ^ 32 + k1 * 2 ^ 32 * 2 ^ 64 + b * d"
    by (simp add: s algebra_simps)
  also have "s * 2 ^ 32 = (s div 2 ^ 32) * 2 ^ 64 + (s mod 2 ^ 32) * 2 ^ 32"
    by (rule shift_split)
  finally show ?thesis using lo by (simp add: algebra_simps)
qed


lemma unat_push_bit_32: "unat (push_bit 32 s :: u64) = (unat s mod 2 ^ 32) * 2 ^ 32"
proof -
  have "unat s * 2 ^ 32 mod (2 ^ 32 * 2 ^ 32) = (unat s mod 2 ^ 32) * 2 ^ 32"
    by (rule mult_mod_left [symmetric])
  then show ?thesis by (simp add: unat_push_bit_mult)
qed

lemma mul128_product:
  "\<exists>lo hi. mul128 x y = Some (lo, hi) \<and> unat hi * 2 ^ 64 + unat lo = unat x * unat y"
proof -
  define a b c d where "a = hi_dword x" and "b = lo_dword x" and "c = hi_dword y" and "d = lo_dword y"
  define s where "s = a * d + b * c"
  define k1 :: u64 where "k1 = (if s < a * d then 1 else 0)"
  define p where "p = b * d + push_bit 32 s"
  define k2 :: u64 where "k2 = (if p < b * d then 1 else 0)"
  define hi where "hi = a * c + drop_bit 32 s + push_bit 32 k1 + k2"
  define h where "h = unat a * unat c + unat s div 2 ^ 32 + unat k1 * 2 ^ 32 + unat k2"
  note bounds = hi_dword_bound [of x, folded a_def] lo_dword_bound [of x, folded b_def]
    hi_dword_bound [of y, folded c_def] lo_dword_bound [of y, folded d_def]
  note exact = bounds [THEN dword_product_no_wrap]
  have res: "mul128 x y = (if a * c \<le> hi then Some (p, hi) else None)"
    unfolding mul128_def Let_def hi_def p_def k1_def k2_def s_def a_def b_def c_def d_def ..
  have 1: "unat a * unat d + unat b * unat c = unat s + unat k1 * 2 ^ 64"
    using unat_add_carry [of "a * d" "b * c"] bounds
    by (simp add: exact s_def k1_def split: if_splits)
  have 2: "unat b * unat d + (unat s mod 2 ^ 32) * 2 ^ 32 = unat p + unat k2 * 2 ^ 64"
    using unat_add_carry [of "b * d" "push_bit 32 s"] bounds
    by (simp add: exact unat_push_bit_32 p_def k2_def split: if_splits)
  have prod: "unat x * unat y = h * 2 ^ 64 + unat p"
    unfolding h_def schoolbook_product [OF 1 2, symmetric]
    by (simp only: a_def b_def c_def d_def dword_split [symmetric])
  have "unat x * unat y < 2 ^ 64 * 2 ^ 64"
    by (intro mult_strict_mono unat_bound_64) simp_all
  then have "h < 2 ^ 64" using prod by simp
  moreover have "unat hi = h mod 2 ^ 64"
    unfolding hi_def h_def by (simp add: wnat exact bounds mod_simps k1_def k2_def)
  ultimately have hi: "unat hi = h" by simp
  then have "a * c \<le> hi" using exact bounds by (simp add: word_le_nat_alt h_def)
  then show ?thesis using prod res hi by simp
qed

lemma mul128_exact: "mul128 x y = Some (lo, hi) \<Longrightarrow> unat hi * 2 ^ 64 + unat lo = unat x * unat y"
  using mul128_product [of x y] by auto

text \<open>The assertion of \<open>mul128\<close> never fails.\<close>

lemma mul128_total:
  obtains lo hi where "mul128 x y = Some (lo, hi)"
  using mul128_product [of x y] by blast

subsection \<open>Byte order\<close>

lemma byte_masks:
  "(0xff :: u64) = mask 8" "(0xff00 :: u64) = push_bit 8 (mask 8)"
  "(0xff0000 :: u64) = push_bit 16 (mask 8)" "(0xff000000 :: u64) = push_bit 24 (mask 8)"
  "(0xff00000000 :: u64) = push_bit 32 (mask 8)" "(0xff0000000000 :: u64) = push_bit 40 (mask 8)"
  "(0xff000000000000 :: u64) = push_bit 48 (mask 8)" "(0xff00000000000000 :: u64) = push_bit 56 (mask 8)"
  by (simp_all add: mask_eq_exp_minus_1)

lemmas bit_expand = bit_or_iff bit_push_bit_iff bit_drop_bit_eq bit_and_iff bit_mask_iff
  possible_bit_word comp_def

lemma SWAP64_reverses_bits:
  assumes "r < 8"
  shows "bit (SWAP64 x) r = bit x (56 + r)" "bit (SWAP64 x) (8 + r) = bit x (48 + r)"
    "bit (SWAP64 x) (16 + r) = bit x (40 + r)" "bit (SWAP64 x) (24 + r) = bit x (32 + r)"
    "bit (SWAP64 x) (32 + r) = bit x (24 + r)" "bit (SWAP64 x) (40 + r) = bit x (16 + r)"
    "bit (SWAP64 x) (48 + r) = bit x (8 + r)" "bit (SWAP64 x) (56 + r) = bit x r"
  unfolding SWAP64_def byte_masks bit_expand using assms by simp_all

lemma SWAP64_byte:
  assumes "i < 8"
  shows "(ucast (drop_bit (8 * i) (SWAP64 x)) :: u8) = ucast (drop_bit (8 * (7 - i)) x)"
proof (rule bit_word_eqI)
  fix r assume "r < LENGTH(8)"
  then have r: "r < 8" by simp
  have "i \<in> {0, 1, 2, 3, 4, 5, 6, 7}" using assms by auto
  then have "bit (SWAP64 x) (8 * i + r) = bit x (8 * (7 - i) + r)"
    by (auto simp: SWAP64_reverses_bits [OF r])
  with r show "bit (ucast (drop_bit (8 * i) (SWAP64 x)) :: u8) r = bit (ucast (drop_bit (8 * (7 - i)) x) :: u8) r"
    by (simp add: bit_simps)
qed

lemma le_bytes_SWAP64: "le_bytes 8 (SWAP64 x) = rev (le_bytes 8 x)"
  by (rule nth_equalityI) (simp_all add: rev_nth le_bytes_nth SWAP64_byte)

lemma SWAP64_involution: "SWAP64 (SWAP64 x) = x"
  using le_word_le_bytes [of 8 x] le_word_le_bytes [of 8 "SWAP64 (SWAP64 x)"]
  by (simp add: le_bytes_SWAP64)

lemma swap_masks:
  "(0x00ff00ff00ff00ff :: u64) = mask 8 OR push_bit 16 (mask 8) OR push_bit 32 (mask 8) OR push_bit 48 (mask 8)"
  "(0xff00ff00ff00ff00 :: u64) = push_bit 8 (mask 8) OR push_bit 24 (mask 8) OR push_bit 40 (mask 8) OR push_bit 56 (mask 8)"
  "(0x0000ffff0000ffff :: u64) = mask 16 OR push_bit 32 (mask 16)"
  "(0xffff0000ffff0000 :: u64) = push_bit 16 (mask 16) OR push_bit 48 (mask 16)"
  by (simp_all add: mask_eq_exp_minus_1)

lemma swap64_reverses_bits:
  assumes "r < 8"
  shows "bit (swap64 x) r = bit x (56 + r)" "bit (swap64 x) (8 + r) = bit x (48 + r)"
    "bit (swap64 x) (16 + r) = bit x (40 + r)" "bit (swap64 x) (24 + r) = bit x (32 + r)"
    "bit (swap64 x) (32 + r) = bit x (24 + r)" "bit (swap64 x) (40 + r) = bit x (16 + r)"
    "bit (swap64 x) (48 + r) = bit x (8 + r)" "bit (swap64 x) (56 + r) = bit x r"
  unfolding swap64_def Let_def swap_masks bit_expand using assms by simp_all

lemma less_8_cases: "i < (8::nat) \<Longrightarrow> i \<in> {0, 1, 2, 3, 4, 5, 6, 7}"
  by auto

lemma bit_swap64: "i < 8 \<Longrightarrow> r < 8 \<Longrightarrow> bit (swap64 x) (8 * i + r) = bit x (8 * (7 - i) + r)"
  by (drule less_8_cases) (auto simp: swap64_reverses_bits)

lemma bit_SWAP64: "i < 8 \<Longrightarrow> r < 8 \<Longrightarrow> bit (SWAP64 x) (8 * i + r) = bit x (8 * (7 - i) + r)"
  by (drule less_8_cases) (auto simp: SWAP64_reverses_bits)

lemma swap64_SWAP64: "swap64 x = SWAP64 x"
proof (rule bit_word_eqI)
  fix n assume "n < LENGTH(64)"
  then have "n div 8 < 8" by simp
  then have "bit (swap64 x) (8 * (n div 8) + n mod 8) = bit (SWAP64 x) (8 * (n div 8) + n mod 8)"
    by (simp only: bit_swap64 bit_SWAP64 mod_less_divisor zero_less_numeral)
  then show "bit (swap64 x) n = bit (SWAP64 x) n" by (simp only: mult_div_mod_eq)
qed

lemma rol64_word_rotl: "rol64 x r = word_rotl (nat (r mod 64)) x"
proof -
  define k where "k = nat (r mod 64)"
  have int_k: "r mod 64 = int k" by (simp add: k_def)
  have k: "k < 64" by (simp add: k_def nat_less_iff)
  have "nat ((- r) mod 64) = (if k = 0 then 0 else 64 - k)"
    using zmod_zminus1_eq_if [of r 64] int_k by auto
  then have rol: "rol64 x r = push_bit k x OR drop_bit (if k = 0 then 0 else 64 - k) x"
    by (simp only: rol64_def k_def [symmetric])
  have "bit (rol64 x r) n = bit (word_rotl k x) n" if n: "n < 64" for n
  proof (cases "k \<le> n")
    case True
    then have "n + (64 - k) = n - k + 64" using k by simp
    then have m: "(n + (64 - k)) mod 64 = n - k" using n by (simp only: mod_add_self2 mod_less)
    have z: "\<not> bit x (64 - k + n)" using True n bit_imp_le_length [of x "64 - k + n"] k by auto
    show ?thesis using True k n z m unfolding rol
        bit_or_iff bit_push_bit_iff bit_drop_bit_eq bit_word_rotl_iff comp_def
      by (cases "k = 0") simp_all
  next
    case False
    then have "n + (64 - k) < 64" using k by linarith
    then have m: "(n + (64 - k)) mod 64 = 64 - k + n" by (simp only: mod_less add.commute)
    from False k n m show ?thesis unfolding rol
        bit_or_iff bit_push_bit_iff bit_drop_bit_eq bit_word_rotl_iff comp_def
      by simp
  qed
  then show ?thesis unfolding k_def [symmetric] by (intro bit_word_eqI) simp
qed

subsection \<open>Division\<close>

lemma and_push_mask_disjoint: "take_bit n a AND push_bit n b = (0 :: 'a::len word)"
  by (rule bit_word_eqI) (auto simp: bit_simps)

lemma dword_disjoint: "unat a < 2 ^ 32 \<Longrightarrow> a AND push_bit 32 (b :: u64) = 0"
proof -
  assume "unat a < 2 ^ 32"
  then have "take_bit 32 a = a"
    by (intro word_eq_unatI) (simp add: wnat)
  then show ?thesis
    using and_push_mask_disjoint [of 32 a b] by (simp only:)
qed

lemma unat_dword_join:
  assumes "unat a < 2 ^ 32" and "unat b < 2 ^ 32"
  shows "unat (a OR push_bit 32 b :: u64) = unat b * 2 ^ 32 + unat a"
proof -
  have "unat (push_bit 32 b) = unat b * 2 ^ 32"
    using assms(2) by (simp add: unat_push_bit_32)
  moreover have "unat a + unat b * 2 ^ 32 < 2 ^ 64"
    using assms by simp
  ultimately show ?thesis
    using unat_or_disjoint [OF dword_disjoint [OF assms(1), of b]] by simp
qed

lemma div_with_reminder_exact:
  assumes n: "unat n < 2 ^ 32" and r: "r < d"
  obtains q r' where "div_with_reminder n d r = Some (q, r')" and "r' < d" and "unat q < 2 ^ 32"
    and "unat r * 2 ^ 32 + unat n = unat q * unat d + unat r'"
proof -
  define m :: u64 where "m = n OR push_bit 32 (ucast r)"
  have d: "d \<noteq> 0" "0 < unat d" using r by (auto simp: word_less_nat_alt)
  have up: "unat (ucast d :: u64) = unat d" "unat (ucast r :: u64) = unat r"
    by (simp_all add: unat_ucast_up)
  have m: "unat m = unat r * 2 ^ 32 + unat n"
    using unat_dword_join [OF n, of "ucast r"] unat_bound_32 [of r] by (simp only: up m_def)
  have lt: "unat m mod unat d < unat d" using d(2) by simp
  then have rem: "unat (ucast (m mod ucast d) :: u32) = unat m mod unat d"
    using unat_bound_32 [of d] by (simp add: unat_ucast_mod wnat up)
  have "unat m < (unat r + 1) * 2 ^ 32" using n by (simp add: m)
  also have "\<dots> \<le> unat d * 2 ^ 32" using r by (intro mult_le_mono) (simp_all add: word_less_nat_alt)
  finally have "unat m div unat d < 2 ^ 32" by (simp add: less_mult_imp_div_less mult.commute)
  then have quo: "unat (m div ucast d) < 2 ^ 32" by (simp add: wnat up)
  have "div_with_reminder n d r = Some (m div ucast d, ucast (m mod ucast d))"
    using d(1) by (simp add: div_with_reminder_def m_def Let_def)
  moreover have "ucast (m mod ucast d) < d" by (simp only: word_less_nat_alt rem lt)
  moreover have "unat r * 2 ^ 32 + unat n
      = unat (m div ucast d) * unat d + unat (ucast (m mod ucast d) :: u32)"
    by (simp only: rem m [symmetric] wnat up div_mult_mod_eq)
  ultimately show thesis using quo that by blast
qed

text \<open>One digit of long division in base \<open>b\<close>.\<close>

lemma long_division_digit:
  fixes N :: nat
  assumes "N = Q * d + r" and "r * b + n = q * d + r'"
  shows "N * b + n = (Q * b + q) * d + r'"
proof -
  have "N * b + n = Q * d * b + (r * b + n)" by (simp only: assms(1) add_mult_distrib add.assoc)
  also have "\<dots> = Q * d * b + (q * d + r')" by (simp only: assms(2))
  also have "\<dots> = (Q * b + q) * d + r'" by (simp add: algebra_simps)
  finally show ?thesis .
qed

lemma div128_32_exact:
  assumes "d \<noteq> 0"
  shows "\<exists>r qh ql. div128_32 hi lo d = Some (r, qh, ql) \<and>
    unat qh * 2 ^ 64 + unat ql = (unat hi * 2 ^ 64 + unat lo) div unat d \<and>
    unat r = (unat hi * 2 ^ 64 + unat lo) mod unat d"
proof -
  have d: "0 < d" using assms by (simp add: word_neq_0_conv)
  obtain q3 r3 where 3: "div_with_reminder (hi_dword hi) d 0 = Some (q3, r3)" "r3 < d" "unat q3 < 2 ^ 32"
      "unat (0::u32) * 2 ^ 32 + unat (hi_dword hi) = unat q3 * unat d + unat r3"
    using div_with_reminder_exact [OF hi_dword_bound d] .
  obtain q2 r2 where 2: "div_with_reminder (lo_dword hi) d r3 = Some (q2, r2)" "r2 < d" "unat q2 < 2 ^ 32"
      "unat r3 * 2 ^ 32 + unat (lo_dword hi) = unat q2 * unat d + unat r2"
    using div_with_reminder_exact [OF lo_dword_bound 3(2)] .
  obtain q1 r1 where 1: "div_with_reminder (hi_dword lo) d r2 = Some (q1, r1)" "r1 < d" "unat q1 < 2 ^ 32"
      "unat r2 * 2 ^ 32 + unat (hi_dword lo) = unat q1 * unat d + unat r1"
    using div_with_reminder_exact [OF hi_dword_bound 2(2)] .
  obtain q0 r0 where 0: "div_with_reminder (lo_dword lo) d r1 = Some (q0, r0)" "r0 < d" "unat q0 < 2 ^ 32"
      "unat r1 * 2 ^ 32 + unat (lo_dword lo) = unat q0 * unat d + unat r0"
    using div_with_reminder_exact [OF lo_dword_bound 1(2)] .
  define n where "n = unat hi * 2 ^ 64 + unat lo"
  define q where "q = (((unat q3 * 2 ^ 32) + unat q2) * 2 ^ 32 + unat q1) * 2 ^ 32 + unat q0"
  have "unat (hi_dword hi) = unat q3 * unat d + unat r3" using 3(4) by simp
  from long_division_digit [OF long_division_digit [OF long_division_digit [OF this 2(4)] 1(4)] 0(4)]
  have "((unat (hi_dword hi) * 2 ^ 32 + unat (lo_dword hi)) * 2 ^ 32 + unat (hi_dword lo)) * 2 ^ 32
    + unat (lo_dword lo) = q * unat d + unat r0" by (simp only: q_def)
  then have n: "n = q * unat d + unat r0"
    using dword_split [of hi] dword_split [of lo] by (simp add: n_def)
  have quo: "n div unat d = q" and rem: "n mod unat d = unat r0"
    using 0(2) by (simp_all add: n word_less_nat_alt)
  have hi: "unat (push_bit 32 q3 OR q2) = unat q3 * 2 ^ 32 + unat q2"
    using unat_dword_join [OF 2(3) 3(3)] by (simp only: or.commute)
  have lo: "unat (push_bit 32 q1 OR q0) = unat q1 * 2 ^ 32 + unat q0"
    using unat_dword_join [OF 0(3) 1(3)] by (simp only: or.commute)
  have "div128_32 hi lo d = Some (r0, push_bit 32 q3 OR q2, push_bit 32 q1 OR q0)"
    by (simp add: div128_32_def 3(1) 2(1) 1(1) 0(1))
  then show ?thesis
    unfolding n_def [symmetric] quo rem by (simp add: hi lo q_def)
qed

lemma qword_disjoint: "(ucast (a :: u64) :: u128) AND push_bit 64 b = 0"
proof -
  have "take_bit 64 (ucast a :: u128) = ucast a"
    by (intro word_eq_unatI) (simp add: wnat unat_ucast_up unat_bound_64 [simplified])
  then show ?thesis using and_push_mask_disjoint [of 64 "ucast a :: u128" b] by (simp only:)
qed

lemma unat_qword_join:
  "unat (push_bit 64 (ucast (h :: u64)) OR ucast (l :: u64) :: u128) = unat h * 2 ^ 64 + unat l"
proof -
  have up: "unat (ucast h :: u128) = unat h" "unat (ucast l :: u128) = unat l"
    by (simp_all add: unat_ucast_up)
  have push: "unat (push_bit 64 (ucast h) :: u128) = unat h * 2 ^ 64"
    using unat_bound_64 [of h] by (simp add: unat_push_bit_mult up)
  have "unat (ucast l :: u128) + unat (push_bit 64 (ucast h) :: u128) < 2 ^ LENGTH(128)"
    using unat_bound_64 [of h] unat_bound_64 [of l] by (simp add: push up)
  from unat_or_disjoint [OF qword_disjoint this]
  show ?thesis by (simp only: push up or.commute add.commute)
qed

lemma unat_low_qword:
  "unat (ucast (x AND 0xffffffffffffffff :: u128) :: u64) = unat x mod 2 ^ 64"
proof -
  have "x AND 0xffffffffffffffff = take_bit 64 x"
    by (simp add: take_bit_eq_mask mask_eq_exp_minus_1)
  then show ?thesis by (simp add: unat_ucast_mod wnat)
qed

lemma div128_64_exact:
  assumes "d \<noteq> 0" 
  shows "\<exists>qh ql rh rl. div128_64 hi lo d = Some (qh, ql, rh, rl) \<and>
    unat qh * 2 ^ 64 + unat ql = (unat hi * 2 ^ 64 + unat lo) div unat d \<and>
    rh = 0 \<and> unat rl = (unat hi * 2 ^ 64 + unat lo) mod unat d"
proof -
  define n where "n = unat hi * 2 ^ 64 + unat lo"
  define w :: u128 where "w = push_bit 64 (ucast hi) OR ucast lo"
  have w: "unat w = n" by (simp only: w_def n_def unat_qword_join)
  have d: "unat (ucast d :: u128) = unat d" by (simp add: unat_ucast_up)
  have d0: "0 < unat d" using assms by (simp add: word_neq_0_conv word_less_nat_alt)
  have "n div unat d < 2 ^ 128"
    using unat_bound [of w] w by (simp add: le_less_trans [OF div_le_dividend])
  then have q: "n div unat d div 2 ^ 64 mod 2 ^ 64 = n div unat d div 2 ^ 64"
    by (simp add: less_mult_imp_div_less)
  have "n mod unat d < 2 ^ 64"
    using mod_less_divisor [OF d0, of n] unat_bound_64 [of d] by (rule less_trans)
  then have r: "n mod unat d div 2 ^ 64 mod 2 ^ 64 = 0" "n mod unat d mod 2 ^ 64 = n mod unat d"
    by simp_all
  define qh where "qh = (ucast (drop_bit 64 (w div ucast d) AND 0xffffffffffffffff) :: u64)"
  define ql where "ql = (ucast ((w div ucast d) AND 0xffffffffffffffff) :: u64)"
  define rh where "rh = (ucast (drop_bit 64 (w mod ucast d) AND 0xffffffffffffffff) :: u64)"
  define rl where "rl = (ucast ((w mod ucast d) AND 0xffffffffffffffff) :: u64)"
  have "div128_64 hi lo d = Some (qh, ql, rh, rl)"
    using assms by (simp only: div128_64_def Let_def w_def qh_def ql_def rh_def rl_def if_False)
  moreover have "unat qh = n div unat d div 2 ^ 64"
    by (simp only: qh_def unat_low_qword wnat w d q)
  moreover have "unat ql = n div unat d mod 2 ^ 64"
    by (simp only: ql_def unat_low_qword wnat w d)
  moreover have "unat rh = unat (0 :: u64)"
    by (simp only: rh_def unat_low_qword wnat w d r unat_0)
  then have "rh = 0" by (rule word_eq_unatI)
  moreover have "unat rl = n mod unat d"
    by (simp only: rl_def unat_low_qword wnat w d r)
  ultimately have "div128_64 hi lo d = Some (qh, ql, 0, rl)"
    and "unat qh * 2 ^ 64 + unat ql = n div unat d" and "unat rl = n mod unat d"
    by (simp_all only: div_mult_mod_eq)
  then show ?thesis unfolding n_def [symmetric] by blast
qed

subsection \<open>Clamped arithmetic\<close>

lemma unat_max_64: "unat (- 1 :: u64) = 2 ^ 64 - 1"
  by (simp add: unsigned_minus_1_eq_mask mask_eq_exp_minus_1)

lemma unat_add64clamp: "unat (add64clamp v a) = min (2 ^ 64 - 1) (unat v + unat a)"
proof -
  have m: "unat (- 1 - a) = 2 ^ 64 - 1 - unat a"
    using unat_sub [of a "- 1"] unat_max_64 by (simp only: word_order.extremum)
  show ?thesis
  proof (cases "unat v + unat a < 2 ^ 64")
    case True
    then have "\<not> - 1 - a < v" by (simp add: word_less_nat_alt m)
    then show ?thesis using True by (simp add: add64clamp_def wnat)
  next
    case False
    then have "- 1 - a < v" using unat_bound_64 [of a] by (simp add: word_less_nat_alt m)
    then show ?thesis using False by (simp add: add64clamp_def unat_max_64)
  qed
qed

lemma unat_sub64clamp: "unat (sub64clamp v a) = unat v - unat a"
  by (simp add: sub64clamp_def word_less_nat_alt wnat word_le_nat_alt not_less)

end
