(* ===== verification/Varint.thy ===== *)
theory Varint
  imports Int_Util
begin

unbundle bit_operations_syntax

section \<open>Variable-length integers (src/common/varint.h)\<close>

text \<open>
  The varint writer and reader, generic in the unsigned type \<open>T\<close> as the templates are: a
  word type of at least eight bits. The reader returns the number of bytes it consumed, the
  value it built and the rest of the input, or one of the two error codes. Running out of
  input inside a varint is not an error of the source: it returns what was read so far.
\<close>

subsection \<open>Definitions\<close>

text \<open>
  \<open>write_varint\<close>: the loop on \<open>i\<close>, which is shifted right by seven while at least \<open>0x80\<close>.
  \<open>static_cast<char>(i) & 0x7f\<close> takes the low seven bits.
\<close>

function write_varint :: "'a::len word \<Rightarrow> bytes" where
  "write_varint i =
    (if 0x80 \<le> unat i
     then ((ucast i AND 0x7f) OR 0x80) # write_varint (drop_bit 7 i)
     else [ucast i])"
  by pat_completeness auto
termination
  by (relation "measure unat") (auto simp: wnat)

declare write_varint.simps [simp del]

definition get_varint_data :: "'a::len word \<Rightarrow> bytes" where
  "get_varint_data v = write_varint v"

datatype varint_error = EVARINT_OVERFLOW | EVARINT_REPRESENT

fun read_varint_loop :: "nat \<Rightarrow> nat \<Rightarrow> nat \<Rightarrow> 'a::len word \<Rightarrow> bytes \<Rightarrow> varint_error + (nat \<times> 'a word \<times> bytes)" where
  "read_varint_loop bits shift read write [] = Inr (read, write, [])"
| "read_varint_loop bits shift read write (byte # rest) =
    (if bits \<le> shift + 7 \<and> 2 ^ (bits - shift) \<le> unat byte then Inl EVARINT_OVERFLOW
     else if byte = 0 \<and> shift \<noteq> 0 then Inl EVARINT_REPRESENT
     else let write = write OR push_bit shift (ucast (byte AND 0x7f))
          in if byte AND 0x80 = 0 then Inr (Suc read, write, rest)
             else read_varint_loop bits (shift + 7) (Suc read) write rest)"

definition read_varint :: "bytes \<Rightarrow> varint_error + (nat \<times> 'a::len word \<times> bytes)" where
  "read_varint bs = read_varint_loop LENGTH('a) 0 0 0 bs"

function get_varint_byte_size :: "'a::len word \<Rightarrow> nat" where
  "get_varint_byte_size val =
    (if drop_bit 7 val = 0 then 1 else Suc (get_varint_byte_size (drop_bit 7 val)))"
  by pat_completeness auto
termination
proof (relation "measure unat")
  fix val :: "'a word" assume "drop_bit 7 val \<noteq> 0"
  then have "unat val \<noteq> 0" by (metis drop_bit_of_0 unat_0 word_eq_unatI)
  then show "(drop_bit 7 val, val) \<in> measure unat" by (simp add: wnat)
qed simp

declare get_varint_byte_size.simps [simp del]



text \<open>The reader as a decoder of a value followed by other data.\<close>

definition varint64_dec :: "bytes \<Rightarrow> (u64 \<times> bytes) option" where
  "varint64_dec bs = (case read_varint bs of Inl e \<Rightarrow> None | Inr (n, v, rest) \<Rightarrow> Some (v, rest))"

subsection \<open>Bytes as numbers\<close>

lemma unat_and_7f: "unat (b AND 0x7f :: u8) = unat b mod 128"
proof -
  have "b AND 0x7f = take_bit 7 b" by (simp add: take_bit_eq_mask mask_eq_exp_minus_1)
  then show ?thesis by (simp add: wnat)
qed

lemma bit_80: "(0x80 :: u8) = push_bit 7 1"
  by simp

lemma and_80_eq_0: "(b AND 0x80 :: u8) = 0 \<longleftrightarrow> unat b < 128"
proof -
  have "b AND 0x80 = push_bit 7 (drop_bit 7 b)"
  proof (rule bit_word_eqI)
    fix n assume "n < LENGTH(8)"
    then have "7 \<le> n \<longleftrightarrow> n = 7" by auto
    then show "bit (b AND 0x80) n = bit (push_bit 7 (drop_bit 7 b)) n"
      unfolding bit_80 bit_and_iff bit_push_bit_iff bit_drop_bit_eq bit_1_iff by auto
  qed
  then have "unat (b AND 0x80) = (unat b div 128) * 128"
    using unat_bound_8 [of b] by (simp add: wnat)
  then show ?thesis by (auto simp: unat_eq_zero dest: arg_cong [of _ _ unat])
qed

lemma unat_or_80:
  assumes "unat b < 128" shows "unat (b OR 0x80 :: u8) = unat b + 128"
proof -
  have "b AND 0x80 = 0" using assms by (simp add: and_80_eq_0)
  then show ?thesis using assms by (subst unat_or_disjoint) simp_all
qed

lemma unat_or_push:
  assumes "unat acc < 2 ^ s" and "unat v * 2 ^ s < 2 ^ LENGTH('a)"
  shows "unat (acc OR push_bit s v :: 'a::len word) = unat acc + unat v * 2 ^ s"
proof -
  have "take_bit s acc = acc"
    using assms(1) by (intro word_eq_unatI) (simp add: wnat)
  then have "acc AND push_bit s v = 0"
    using and_push_mask_disjoint [of s acc v] by simp
  moreover have push: "unat (push_bit s v) = unat v * 2 ^ s"
    using assms(2) by (simp add: wnat)
  moreover have "unat acc + unat v * 2 ^ s < 2 ^ LENGTH('a)"
  proof (cases "unat v = 0")
    case True
    then show ?thesis using unat_bound [of acc] by simp
  next
    case False
    then have "2 ^ s \<le> unat v * 2 ^ s" by simp
    then have "(2::nat) ^ s < 2 ^ LENGTH('a)" using assms(2) by linarith
    then have "s < LENGTH('a)" by (simp add: power_strict_increasing_iff)
    then have L: "(2::nat) ^ LENGTH('a) = 2 ^ (LENGTH('a) - s) * 2 ^ s"
      by (simp flip: power_add)
    with assms(2) have "Suc (unat v) \<le> 2 ^ (LENGTH('a) - s)" by simp
    then have "Suc (unat v) * 2 ^ s \<le> 2 ^ LENGTH('a)" unfolding L by (rule mult_le_mono1)
    then show ?thesis using assms(1) by simp
  qed
  ultimately show ?thesis using unat_or_disjoint [of acc "push_bit s v"] by simp
qed

subsection \<open>Reading back what was written\<close>

text \<open>The two byte shapes \<open>write_varint\<close> produces, as numbers.\<close>

lemma varint_byte_unat:
  assumes "8 \<le> LENGTH('a)"
  shows "unat ((ucast (i :: 'a::len word) AND 0x7f) OR 0x80 :: u8) = unat i mod 128 + 128"
    and "unat i < 128 \<Longrightarrow> unat (ucast i :: u8) = unat i"
proof -
  have "unat (ucast i AND 0x7f :: u8) = unat i mod 128"
    by (simp add: unat_and_7f unat_ucast_mod mod_mod_cancel)
  then show "unat ((ucast i AND 0x7f) OR 0x80 :: u8) = unat i mod 128 + 128"
    by (subst unat_or_80) simp_all
qed (simp add: unat_ucast_mod)

lemma varint_accumulate:
  assumes "8 \<le> LENGTH('a)" and "unat acc < 2 ^ s" and "(unat b mod 128) * 2 ^ s < 2 ^ LENGTH('a)"
  shows "unat (acc OR push_bit s (ucast (b AND 0x7f :: u8)) :: 'a::len word)
    = unat acc + (unat b mod 128) * 2 ^ s"
proof -
  have "unat (ucast (b AND 0x7f) :: 'a word) = unat b mod 128"
    using assms(1) by (simp add: unat_ucast_up unat_and_7f)
  then show ?thesis using assms by (simp add: unat_or_push)
qed

lemma varint_digit_split: "n * 2 ^ s = (n mod 128) * 2 ^ s + (n div 128) * 2 ^ (s + 7)" for n :: nat
proof -
  define q r where "q = n div 128" and "r = n mod 128"
  have "n = r + q * 128" by (simp add: q_def r_def)
  then show ?thesis unfolding q_def [symmetric] r_def [symmetric]
    by (simp add: power_add algebra_simps)
qed

lemma shift_room:
  assumes "128 * 2 ^ s \<le> i * 2 ^ s" and "i * 2 ^ s < (2::nat) ^ L"
  shows "s + 7 < L"
proof -
  have "(2::nat) ^ (s + 7) = 128 * 2 ^ s" by (simp add: power_add)
  then have "(2::nat) ^ (s + 7) < 2 ^ L" using assms by linarith
  then show ?thesis by (simp add: power_strict_increasing_iff)
qed

lemma final_room:
  assumes "i * 2 ^ s < (2::nat) ^ L" and "s = 0 \<or> i \<noteq> 0"
  shows "i < 2 ^ (L - s)"
proof (cases "s = 0")
  case False
  then have "2 ^ s \<le> i * 2 ^ s" using assms(2) by simp
  then have "(2::nat) ^ s < 2 ^ L" using assms(1) by linarith
  then have "s < L" by (simp add: power_strict_increasing_iff)
  then have "(2::nat) ^ L = 2 ^ (L - s) * 2 ^ s" by (simp flip: power_add)
  then show ?thesis using assms(1) by simp
qed (use assms in simp)

lemma read_varint_loop_write:
  fixes i acc :: "'a::len word"
  assumes L: "8 \<le> LENGTH('a)" 
  shows "unat acc < 2 ^ s \<Longrightarrow> unat i * 2 ^ s < 2 ^ LENGTH('a) \<Longrightarrow> s = 0 \<or> i \<noteq> 0 \<Longrightarrow>
    \<exists>v. read_varint_loop LENGTH('a) s r acc (write_varint i @ rest) = Inr (r + length (write_varint i), v, rest)
      \<and> unat v = unat acc + unat i * 2 ^ s"
proof (induction i arbitrary: acc s r rule: write_varint.induct)
  case (1 i)
  show ?case
  proof (cases "128 \<le> unat i")
    case True
    define b :: u8 where "b = (ucast i AND 0x7f) OR 0x80"
    define acc' :: "'a word" where "acc' = acc OR push_bit s (ucast (b AND 0x7f))"
    have w: "write_varint i = b # write_varint (drop_bit 7 i)"
      using True by (simp add: write_varint.simps [of i] b_def)
    have b: "unat b = unat i mod 128 + 128" using varint_byte_unat(1) [OF L] by (simp add: b_def)
    have room: "s + 7 < LENGTH('a)" using shift_room [OF mult_le_mono1 [OF True] "1.prems"(2)] .
    have "(unat b mod 128) * 2 ^ s \<le> unat i * 2 ^ s" by (simp add: b)
    then have "(unat b mod 128) * 2 ^ s < 2 ^ LENGTH('a)" using "1.prems"(2) by (rule le_less_trans)
    then have acc': "unat acc' = unat acc + (unat i mod 128) * 2 ^ s"
      using varint_accumulate [OF L "1.prems"(1)] by (simp add: acc'_def b)
    have split: "unat i * 2 ^ s = (unat i mod 128) * 2 ^ s + unat (drop_bit 7 i) * 2 ^ (s + 7)"
      using varint_digit_split [of "unat i" s] by (simp add: wnat)
    have "(unat i mod 128) * 2 ^ s \<le> 127 * 2 ^ s" by (intro mult_le_mono1) simp
    moreover have "(2::nat) ^ (s + 7) = 128 * 2 ^ s" by (simp add: power_add)
    ultimately have p1: "unat acc' < 2 ^ (s + 7)" using "1.prems"(1) acc' by linarith
    have p2: "unat (drop_bit 7 i) * 2 ^ (s + 7) < 2 ^ LENGTH('a)" using "1.prems"(2) split by linarith
    have p3: "s + 7 = 0 \<or> drop_bit 7 i \<noteq> 0"
      using True by (auto simp: wnat dest!: arg_cong [of _ 0 unat])
    obtain v where v: "read_varint_loop LENGTH('a) (s + 7) (Suc r) acc' (write_varint (drop_bit 7 i) @ rest)
        = Inr (Suc r + length (write_varint (drop_bit 7 i)), v, rest)"
        "unat v = unat acc' + unat (drop_bit 7 i) * 2 ^ (s + 7)"
      using "1.IH" [OF True p1 p2 p3, of "Suc r"] by blast
    have "b \<noteq> 0" "b AND 0x80 \<noteq> 0" using b by (auto simp: and_80_eq_0)
    then have "read_varint_loop LENGTH('a) s r acc (write_varint i @ rest)
        = Inr (r + length (write_varint i), v, rest)"
      using room v(1) by (simp add: w acc'_def Let_def)
    then show ?thesis using v(2) acc' split by (intro exI [of _ v]) simp
  next
    case False
    define b :: u8 where "b = ucast i"
    have w: "write_varint i = [b]" using False by (simp add: write_varint.simps [of i] b_def)
    have b: "unat b = unat i" using varint_byte_unat(2) [OF L] False by (simp add: b_def)
    have "\<not> (LENGTH('a) \<le> s + 7 \<and> 2 ^ (LENGTH('a) - s) \<le> unat b)"
      using final_room [OF "1.prems"(2)] "1.prems"(3) b by (auto simp: unat_eq_zero not_le)
    moreover have "\<not> (b = 0 \<and> s \<noteq> 0)"
      using "1.prems"(3) b by (auto simp: unat_eq_zero)
    moreover have "b AND 0x80 = 0" using False b by (simp add: and_80_eq_0)
    moreover have "unat (acc OR push_bit s (ucast (b AND 0x7f)) :: 'a word) = unat acc + unat i * 2 ^ s"
      using varint_accumulate [OF L "1.prems"(1), of b] "1.prems"(2) False by (simp add: b)
    ultimately show ?thesis by (simp add: w)
  qed
qed

subsection \<open>Only canonical encodings are read\<close>

lemma varint_byte_fits:
  assumes "s \<le> L" and "\<not> (L \<le> s + 7 \<and> 2 ^ (L - s) \<le> n)"
  shows "(n mod 128) * 2 ^ s < (2::nat) ^ L"
proof (cases "L \<le> s + 7")
  case True
  then have "n < 2 ^ (L - s)" using assms(2) by simp
  then have "n mod 128 < 2 ^ (L - s)" by (rule le_less_trans [OF mod_less_eq_dividend])
  then have "(n mod 128) * 2 ^ s < 2 ^ (L - s) * 2 ^ s" by simp
  also have "\<dots> = 2 ^ L" using assms(1) by (simp flip: power_add)
  finally show ?thesis .
next
  case False
  have "(n mod 128) * 2 ^ s < 128 * 2 ^ s" by simp
  also have "\<dots> = (2::nat) ^ (s + 7)" by (simp add: power_add)
  also have "\<dots> \<le> 2 ^ L" using False by (intro power_increasing) simp_all
  finally show ?thesis .
qed

lemma continuation_room:
  assumes "\<not> (L \<le> s + 7 \<and> 2 ^ (L - s) \<le> n)" and "128 \<le> (n::nat)"
  shows "s + 7 \<le> L"
proof (rule ccontr)
  assume "\<not> s + 7 \<le> L"
  then have "L - s \<le> 7" by simp
  then have "(2::nat) ^ (L - s) \<le> 2 ^ 7" by (rule power_increasing) simp
  then show False using assms \<open>\<not> s + 7 \<le> L\<close> by simp
qed

lemma write_varint_step:
  fixes i i' :: "'a::len word"
  assumes "8 \<le> LENGTH('a)" and "unat i = unat b mod 128 + 128 * unat i'" and "128 \<le> unat b" and "i' \<noteq> 0"
  shows "write_varint i = b # write_varint i'"
proof -
  have "unat i' \<noteq> 0" using assms(4) by (auto simp: unat_eq_zero)
  then have i: "128 \<le> unat i" using assms(2) by simp
  have "unat (drop_bit 7 i) = unat i'" by (simp add: wnat assms(2))
  then have "drop_bit 7 i = i'" by (rule word_eq_unatI)
  moreover have "(ucast i AND 0x7f) OR 0x80 = b"
  proof (rule word_eq_unatI)
    have "unat b mod 128 + 128 = unat b"
      using unat_bound_8 [of b] assms(3) by (simp add: le_mod_geq)
    then show "unat ((ucast i AND 0x7f) OR 0x80 :: u8) = unat b"
      by (simp add: varint_byte_unat(1) [OF assms(1)] assms(2) mod_simps)
  qed
  ultimately show ?thesis using i by (simp add: write_varint.simps [of i])
qed

lemma read_varint_loop_canonical:
  fixes acc v :: "'a::len word"
  assumes L: "8 \<le> LENGTH('a)" 
  shows "read_varint_loop LENGTH('a) s r acc bs = Inr (n, v, rest) \<Longrightarrow> unat acc < 2 ^ s \<Longrightarrow> s \<le> LENGTH('a) \<Longrightarrow>
    r < n \<Longrightarrow> unat (bs ! (n - r - 1)) < 128 \<Longrightarrow>
    \<exists>i. bs = write_varint (i :: 'a word) @ rest \<and> n = r + length (write_varint i) \<and>
      unat v = unat acc + unat i * 2 ^ s \<and> (s = 0 \<or> i \<noteq> 0)"
proof (induction bs arbitrary: s r acc)
  case Nil
  then show ?case by simp
next
  case (Cons b bs)
  define acc' :: "'a word" where "acc' = acc OR push_bit s (ucast (b AND 0x7f))"
  have ok: "\<not> (LENGTH('a) \<le> s + 7 \<and> 2 ^ (LENGTH('a) - s) \<le> unat b)" "\<not> (b = 0 \<and> s \<noteq> 0)"
    using Cons.prems(1) by (auto split: if_splits)
  have acc': "unat acc' = unat acc + (unat b mod 128) * 2 ^ s"
    unfolding acc'_def
    by (rule varint_accumulate [OF L Cons.prems(2) varint_byte_fits [OF Cons.prems(3) ok(1)]])
  show ?case
  proof (cases "unat b < 128")
    case True
    then have "Inr (n, v, rest) = (Inr (Suc r, acc', bs) :: varint_error + _)"
      using Cons.prems(1) ok by (auto simp: acc'_def and_80_eq_0 Let_def split: if_splits)
    moreover have "unat (ucast b :: 'a word) = unat b" using L by (simp add: unat_ucast_up)
    moreover have "write_varint (ucast b :: 'a word) = [b]"
      using L True by (simp add: write_varint.simps unat_ucast_up ucast_up_ucast_id is_up)
    ultimately show ?thesis using True acc' ok(2)
      by (intro exI [of _ "ucast b"]) (auto simp: unat_eq_zero)
  next
    case False
    have rec: "read_varint_loop LENGTH('a) (s + 7) (Suc r) acc' bs = Inr (n, v, rest)"
      using Cons.prems(1) ok False by (auto simp: acc'_def and_80_eq_0 Let_def split: if_splits)
    have room: "s + 7 \<le> LENGTH('a)" using continuation_room [OF ok(1)] False by simp
    have "(unat b mod 128) * 2 ^ s \<le> 127 * 2 ^ s" by (intro mult_le_mono1) simp
    moreover have "(2::nat) ^ (s + 7) = 128 * 2 ^ s" by (simp add: power_add)
    ultimately have p1: "unat acc' < 2 ^ (s + 7)" using Cons.prems(2) acc' by linarith
    have p2: "Suc r < n" and p3: "unat (bs ! (n - Suc r - 1)) < 128"
      using Cons.prems(4,5) False by (auto simp: nth_Cons' split: if_splits)
    obtain i' :: "'a word" where i': "bs = write_varint i' @ rest" "n = Suc r + length (write_varint i')"
        "unat v = unat acc' + unat i' * 2 ^ (s + 7)" "i' \<noteq> 0"
      using Cons.IH [OF rec p1 room p2 p3] by auto
    define m where "m = unat b mod 128 + 128 * unat i'"
    have v: "unat v = unat acc + m * 2 ^ s"
      by (simp add: i'(3) acc' m_def power_add algebra_simps)
    have "m \<le> m * 2 ^ s" by simp
    then have "m < 2 ^ LENGTH('a)" using v unat_bound [of v] by linarith
    then have i: "unat (of_nat m :: 'a word) = m" by (simp add: unat_of_nat)
    have w: "write_varint (of_nat m :: 'a word) = b # write_varint i'"
      using False i unfolding m_def by (intro write_varint_step [OF L _ _ i'(4)]) simp_all
    have "(of_nat m :: 'a word) \<noteq> 0"
      using i i'(4) by (auto simp: m_def unat_eq_zero)
    then show ?thesis using w i v i'(1,2) by (intro exI [of _ "of_nat m"]) simp
  qed
qed

subsection \<open>Properties\<close>

lemma read_write_varint:
  assumes "8 \<le> LENGTH('a)"
  shows "read_varint (write_varint v @ rest) = Inr (length (write_varint v), v :: 'a::len word, rest)"
proof -
  obtain w :: "'a word" where "read_varint_loop LENGTH('a) 0 0 0 (write_varint v @ rest)
      = Inr (0 + length (write_varint v), w, rest)" and "unat w = unat (0 :: 'a word) + unat v * 2 ^ 0"
    using read_varint_loop_write [OF assms, of 0 0 v 0 rest] unat_bound [of v] by auto
  moreover from this(2) have "w = v" by (intro word_eq_unatI) simp
  ultimately show ?thesis by (simp add: read_varint_def)
qed

interpretation varint64: prefix_codec "get_varint_data :: u64 \<Rightarrow> bytes" varint64_dec
  by unfold_locales (simp add: varint64_dec_def get_varint_data_def read_write_varint)

lemma drop_bit_7_eq_0: "drop_bit 7 v = 0 \<longleftrightarrow> unat v < 128" for v :: "'a::len word"
proof -
  have "drop_bit 7 v = 0 \<longleftrightarrow> unat (drop_bit 7 v) = 0" by (simp add: unat_eq_zero)
  then show ?thesis by (simp add: wnat div_eq_0_iff)
qed

lemma get_varint_byte_size_length: "get_varint_byte_size v = length (write_varint v)"
proof (induction v rule: write_varint.induct)
  case (1 i)
  then show ?case
    by (simp add: get_varint_byte_size.simps [of i] write_varint.simps [of i] drop_bit_7_eq_0)
qed

lemma write_varint_length: "unat v < 2 ^ k \<Longrightarrow> 0 < k \<Longrightarrow> length (write_varint v) \<le> (k + 6) div 7"
proof (induction v arbitrary: k rule: write_varint.induct)
  case (1 i)
  show ?case
  proof (cases "128 \<le> unat i")
    case True
    then have "(2::nat) ^ 7 < 2 ^ k" using "1.prems"(1) by simp
    then have k: "7 < k" by (rule power_less_imp_less_exp [rotated]) simp
    then have "(2::nat) ^ k = 2 ^ (k - 7) * 2 ^ 7" by (simp only: power_add [symmetric] le_add_diff_inverse2 less_imp_le_nat)
    then have "unat (drop_bit 7 i) < 2 ^ (k - 7)"
      using "1.prems"(1) by (simp add: wnat less_mult_imp_div_less)
    from "1.IH" [OF True this] k show ?thesis
      using True by (simp add: write_varint.simps [of i])
  next
    case False
    then show ?thesis using "1.prems"(2) by (simp add: write_varint.simps [of i])
  qed
qed

text \<open>C16: a varint written for any 64-bit value is read back as that value, consuming exactly
  the bytes written and leaving what follows untouched.\<close>

theorem varint_roundtrip:
  "read_varint (get_varint_data v @ rest) = Inr (length (get_varint_data v), v :: u64, rest)"
  by (simp add: get_varint_data_def read_write_varint)

text \<open>C17: the reader accepts only canonical encodings: if it returns a value after a final byte
  (one without the continuation bit), the bytes consumed are exactly the varint the writer
  produces for that value.  The bytes \<open>0xff02\<close> and \<open>0x8002\<close>, the two examples of the comment at the head of the
  source, stand for \<open>0x17f\<close> and \<open>0x100\<close>; the comment names the values \<open>0x027f\<close> and \<open>0x200\<close>.\<close>

theorem varint_canonical:
  assumes "read_varint bs = Inr (n, v :: u64, rest)" and "0 < n" and "unat (bs ! (n - 1)) < 128"
  shows "bs = get_varint_data v @ rest \<and> n = length (get_varint_data v)"
proof -
  obtain i :: u64 where "bs = write_varint i @ rest" "n = length (write_varint i)" "unat v = unat i"
    using read_varint_loop_canonical [of 0 0 0 bs n v rest] assms by (auto simp: read_varint_def)
  then show ?thesis by (simp add: get_varint_data_def word_eq_unatI [of v i])
qed

theorem varint_canonical_witness:
  "read_varint [0xff, 0x02, 0x55] = Inr (2, 0x17f :: u64, [0x55]) \<and>
   [0xff, 0x02, 0x55] = get_varint_data (0x17f :: u64) @ [0x55] \<and>
   read_varint [0x80, 0x02] = Inr (2, 0x100 :: u64, []) \<and> [0x80, 0x02] = get_varint_data (0x100 :: u64)"
proof -
  have r: "read_varint [0xff, 0x02, 0x55] = Inr (2, 0x17f :: u64, [0x55])" "read_varint [0x80, 0x02] = Inr (2, 0x100 :: u64, [])"
    by (simp_all add: read_varint_def Let_def)
  show ?thesis using varint_canonical [OF r(1)] varint_canonical [OF r(2)] r by simp
qed

text \<open>\<open>get_varint_byte_size\<close> is the length of the encoding, and a 64-bit value takes
  between one and ten bytes.\<close>

theorem varint_size:
  "get_varint_byte_size (v :: u64) = length (get_varint_data v) \<and>
   1 \<le> length (get_varint_data v) \<and> length (get_varint_data v) \<le> 10"
proof -
  have "write_varint v \<noteq> []" by (subst write_varint.simps) simp
  then show ?thesis
    using write_varint_length [of v 64] unat_bound_64 [of v]
    by (simp add: get_varint_data_def get_varint_byte_size_length Suc_le_eq)
qed
end
