(* ===== verification/Keccak.thy ===== *)
theory Keccak
  imports Varint
begin

text \<open>
  Keccak as in \<open>src/crypto/keccak.c\<close> and the fast hash of \<open>src/crypto/hash.c\<close>: the permutation
  \<open>keccakf\<close> with its unrolled theta, rho/pi, chi and iota steps, the one-shot sponge \<open>keccak\<close>, the
  incremental interface \<open>keccak_init\<close>, \<open>keccak_update\<close>, \<open>keccak_finish\<close> on its context record,
  and \<open>cn_fast_hash\<close>.  The state is a list of 25 64-bit words and buffers are byte lists; the
  \<open>local_abort\<close> branches are \<open>None\<close>.  The lemmas show that the permutation keeps 25 words, that the
  incremental context always stands for the bytes absorbed so far, and that every way of cutting a
  message into chunks gives the one-shot hash.
\<close>

unbundle bit_operations_syntax

subsection \<open>The permutation\<close>

definition keccakf_rndc :: "u64 list" where
  "keccakf_rndc = [
    0x0000000000000001, 0x0000000000008082, 0x800000000000808a,
    0x8000000080008000, 0x000000000000808b, 0x0000000080000001,
    0x8000000080008081, 0x8000000000008009, 0x000000000000008a,
    0x0000000000000088, 0x0000000080008009, 0x000000008000000a,
    0x000000008000808b, 0x800000000000008b, 0x8000000000008089,
    0x8000000000008003, 0x8000000000008002, 0x8000000000000080,
    0x000000000000800a, 0x800000008000000a, 0x8000000080008081,
    0x8000000000008080, 0x0000000080000001, 0x8000000080008008]"

definition ROTL64 :: "u64 \<Rightarrow> nat \<Rightarrow> u64" where
  "ROTL64 x y = push_bit y x OR drop_bit (64 - y) x"

definition keccak_THETA :: "u64 list \<Rightarrow> nat \<Rightarrow> u64 list \<Rightarrow> u64 list" where
  "keccak_THETA bc i st =
    (let t = bc ! ((i + 4) mod 5) XOR ROTL64 (bc ! ((i + 1) mod 5)) 1;
         st = st[i := st ! i XOR t];
         st = st[i + 5 := st ! (i + 5) XOR t];
         st = st[i + 10 := st ! (i + 10) XOR t];
         st = st[i + 15 := st ! (i + 15) XOR t]
     in st[i + 20 := st ! (i + 20) XOR t])"

definition keccak_CHI :: "nat \<Rightarrow> u64 list \<Rightarrow> u64 list" where
  "keccak_CHI j st =
    (let st0 = st ! j; st1 = st ! (j + 1); st2 = st ! (j + 2); st3 = st ! (j + 3); st4 = st ! (j + 4);
         st = st[j := st ! j XOR (NOT st1 AND st2)];
         st = st[j + 1 := st ! (j + 1) XOR (NOT st2 AND st3)];
         st = st[j + 2 := st ! (j + 2) XOR (NOT st3 AND st4)];
         st = st[j + 3 := st ! (j + 3) XOR (NOT st4 AND st0)]
     in st[j + 4 := st ! (j + 4) XOR (NOT st0 AND st1)])"

definition keccakf_rho_pi :: "(nat \<times> nat \<times> nat) list" where
  "keccakf_rho_pi = [(1, 6, 44), (6, 9, 20), (9, 22, 61), (22, 14, 39), (14, 20, 18), (20, 2, 62),
    (2, 12, 43), (12, 13, 25), (13, 19, 8), (19, 23, 56), (23, 15, 41), (15, 4, 27), (4, 24, 14),
    (24, 21, 2), (21, 8, 55), (8, 16, 45), (16, 5, 36), (5, 3, 28), (3, 18, 21), (18, 17, 15),
    (17, 11, 10), (11, 7, 6), (7, 10, 3)]"

definition keccakf_round :: "nat \<Rightarrow> u64 list \<Rightarrow> u64 list" where
  "keccakf_round round st =
    (let bc = [st ! 0 XOR st ! 5 XOR st ! 10 XOR st ! 15 XOR st ! 20,
               st ! 1 XOR st ! 6 XOR st ! 11 XOR st ! 16 XOR st ! 21,
               st ! 2 XOR st ! 7 XOR st ! 12 XOR st ! 17 XOR st ! 22,
               st ! 3 XOR st ! 8 XOR st ! 13 XOR st ! 18 XOR st ! 23,
               st ! 4 XOR st ! 9 XOR st ! 14 XOR st ! 19 XOR st ! 24];
         st = fold (keccak_THETA bc) [0, 1, 2, 3, 4] st;
         t = st ! 1;
         st = fold (\<lambda>(dst, src, rot) st. st[dst := ROTL64 (st ! src) rot]) keccakf_rho_pi st;
         st = st[10 := ROTL64 t 1];
         st = fold keccak_CHI [0, 5, 10, 15, 20] st
     in st[0 := st ! 0 XOR keccakf_rndc ! round])"

definition keccakf :: "u64 list \<Rightarrow> nat \<Rightarrow> u64 list" where
  "keccakf st rounds = fold keccakf_round [0..<rounds] st"

subsection \<open>The sponge\<close>

text \<open>A word of a buffer, and a buffer's first \<open>n\<close> words exclusive-ored into the state
  (\<open>SWAP64LE\<close> is the identity on the little-endian machine).\<close>

definition buf_word :: "bytes \<Rightarrow> nat \<Rightarrow> u64" where
  "buf_word buf i = le_word (take 8 (drop (8 * i) buf))"

definition xor_words :: "nat \<Rightarrow> bytes \<Rightarrow> u64 list \<Rightarrow> u64 list" where
  "xor_words n buf st = fold (\<lambda>i st. st[i := st ! i XOR buf_word buf i]) [0..<n] st"

abbreviation KECCAK_ROUNDS :: nat where "KECCAK_ROUNDS \<equiv> 24"
abbreviation HASH_DATA_AREA :: nat where "HASH_DATA_AREA \<equiv> 136"

text \<open>The block loop of \<open>keccak\<close>: returns the state and the unread end of the input.\<close>

function keccak_blocks :: "nat \<Rightarrow> bytes \<Rightarrow> u64 list \<Rightarrow> u64 list \<times> bytes" where
  "keccak_blocks rsiz inp st =
    (if rsiz = 0 \<or> length inp < rsiz then (st, inp)
     else keccak_blocks rsiz (drop rsiz inp)
            (keccakf (xor_words (rsiz div 8) (take rsiz inp) st) KECCAK_ROUNDS))"
  by pat_completeness auto
termination by (relation "measure (\<lambda>(r, i, s). length i)") auto

declare keccak_blocks.simps [simp del]

definition keccak_pad :: "nat \<Rightarrow> bytes \<Rightarrow> bytes" where
  "keccak_pad rsiz inp =
    (let temp = inp @ replicate (144 - length inp) 0;
         temp = temp[length inp := 1]
     in temp[rsiz - 1 := temp ! (rsiz - 1) OR 0x80])"

definition keccak :: "bytes \<Rightarrow> int \<Rightarrow> bytes option" where
  "keccak inp mdlen =
    (if mdlen \<le> 0 \<or> (mdlen \<ge> 100 \<and> mdlen \<noteq> 200) \<or> mdlen mod 8 \<noteq> 0 then None
     else let rsiz = (if mdlen = 200 then HASH_DATA_AREA else nat (200 - 2 * mdlen));
              rsizw = rsiz div 8
          in if rsiz = 0 \<or> rsiz > 144 \<or> rsizw * 8 > 144 then None
             else let (st, inp) = keccak_blocks rsiz inp (replicate 25 0)
                  in if length inp \<ge> rsiz then None
                     else let st = keccakf (xor_words rsizw (keccak_pad rsiz inp) st) KECCAK_ROUNDS
                          in Some (concat (map (le_bytes 8) (take (nat mdlen div 8) st))))"

definition keccak1600 :: "bytes \<Rightarrow> bytes option" where
  "keccak1600 inp = keccak inp 200"

definition hash_process :: "bytes \<Rightarrow> bytes option" where
  "hash_process buf = keccak1600 buf"

text \<open>The abort branch of \<open>keccak\<close> ends the process; \<open>cn_fast_hash\<close> never takes it
  (\<open>cn_fast_hash_keccak\<close> below), so the hash is written as a total function.\<close>

definition cn_fast_hash :: "bytes \<Rightarrow> bytes" where
  "cn_fast_hash data = (case hash_process data of None \<Rightarrow> [] | Some state \<Rightarrow> take 32 state)"

subsection \<open>Incremental hashing\<close>

record keccak_ctx =
  ctx_hash :: "u64 list"
  ctx_message :: bytes
  ctx_rest :: u64

abbreviation KECCAK_BLOCKLEN :: nat where "KECCAK_BLOCKLEN \<equiv> 136"
abbreviation KECCAK_WORDS :: nat where "KECCAK_WORDS \<equiv> 17"
abbreviation KECCAK_FINALIZED :: u64 where "KECCAK_FINALIZED \<equiv> 0x80000000"

definition keccak_init :: keccak_ctx where
  "keccak_init = \<lparr>ctx_hash = replicate 25 0, ctx_message = replicate KECCAK_BLOCKLEN 0, ctx_rest = 0\<rparr>"

definition KECCAK_PROCESS_BLOCK :: "u64 list \<Rightarrow> bytes \<Rightarrow> u64 list" where
  "KECCAK_PROCESS_BLOCK st block = keccakf (xor_words KECCAK_WORDS block st) KECCAK_ROUNDS"

text \<open>\<open>memcpy\<close> of a source into a buffer at an offset, within the buffer.\<close>

definition copy_at :: "bytes \<Rightarrow> nat \<Rightarrow> bytes \<Rightarrow> bytes" where
  "copy_at buf off src = take off buf @ src @ drop (off + length src) buf"

function keccak_update_blocks :: "bytes \<Rightarrow> keccak_ctx \<Rightarrow> keccak_ctx" where
  "keccak_update_blocks inp ctx =
    (if KECCAK_BLOCKLEN \<le> length inp
     then let ctx = ctx\<lparr>ctx_message := copy_at (ctx_message ctx) 0 (take KECCAK_BLOCKLEN inp)\<rparr>;
              ctx = ctx\<lparr>ctx_hash := KECCAK_PROCESS_BLOCK (ctx_hash ctx) (ctx_message ctx)\<rparr>
          in keccak_update_blocks (drop KECCAK_BLOCKLEN inp) ctx
     else if inp \<noteq> [] then ctx\<lparr>ctx_message := copy_at (ctx_message ctx) 0 inp\<rparr>
     else ctx)"
  by pat_completeness auto
termination by (relation "measure (\<lambda>(i, c). length i)") auto

declare keccak_update_blocks.simps [simp del]

definition keccak_update :: "keccak_ctx \<Rightarrow> bytes \<Rightarrow> keccak_ctx option" where
  "keccak_update ctx inp =
    (if ctx_rest ctx AND KECCAK_FINALIZED \<noteq> 0 then None
     else let idx = unat (ctx_rest ctx);
              ctx = ctx\<lparr>ctx_rest := (ctx_rest ctx + of_nat (length inp)) mod 136\<rparr>
          in if idx \<noteq> 0
             then let left = KECCAK_BLOCKLEN - idx;
                      ctx = ctx\<lparr>ctx_message := copy_at (ctx_message ctx) idx
                        (take (if length inp < left then length inp else left) inp)\<rparr>
                  in if length inp < left then Some ctx
                     else let ctx = ctx\<lparr>ctx_hash := KECCAK_PROCESS_BLOCK (ctx_hash ctx) (ctx_message ctx)\<rparr>
                          in Some (keccak_update_blocks (drop left inp) ctx)
             else Some (keccak_update_blocks inp ctx))"

definition keccak_finish :: "keccak_ctx \<Rightarrow> keccak_ctx \<times> bytes" where
  "keccak_finish ctx =
    (let ctx =
      (if ctx_rest ctx AND KECCAK_FINALIZED = 0
       then let rest = unat (ctx_rest ctx);
                msg = copy_at (ctx_message ctx) rest (replicate (KECCAK_BLOCKLEN - rest) 0);
                msg = msg[rest := msg ! rest OR 0x01];
                msg = msg[KECCAK_BLOCKLEN - 1 := msg ! (KECCAK_BLOCKLEN - 1) OR 0x80]
            in \<lparr>ctx_hash = KECCAK_PROCESS_BLOCK (ctx_hash ctx) msg, ctx_message = msg, ctx_rest = KECCAK_FINALIZED\<rparr>
       else ctx)
     in (ctx, concat (map (le_bytes 8) (take 4 (ctx_hash ctx)))))"

text \<open>The calls a client makes to hash a message piece by piece.\<close>

definition keccak_chunks :: "bytes list \<Rightarrow> bytes option" where
  "keccak_chunks chunks =
    do { ctx \<leftarrow> opt_fold (\<lambda>c ctx. keccak_update ctx c) chunks keccak_init;
         Some (snd (keccak_finish ctx)) }"

subsection \<open>The block loop\<close>

lemma keccak_blocks_short: "length inp < r \<Longrightarrow> keccak_blocks r inp st = (st, inp)"
  by (subst keccak_blocks.simps) simp

lemma keccak_blocks_block:
  "length blk = 136 \<Longrightarrow> keccak_blocks 136 (blk @ inp) st = keccak_blocks 136 inp (KECCAK_PROCESS_BLOCK st blk)"
  by (subst keccak_blocks.simps) (simp add: KECCAK_PROCESS_BLOCK_def)

lemma keccak_blocks_step:
  "136 \<le> length inp \<Longrightarrow>
    keccak_blocks 136 inp st = keccak_blocks 136 (drop 136 inp) (KECCAK_PROCESS_BLOCK st (take 136 inp))"
  using keccak_blocks_block [of "take 136 inp" "drop 136 inp" st] by simp

lemma keccak_blocks_rest: "snd (keccak_blocks 136 inp st) = drop (136 * (length inp div 136)) inp"
proof (induction inp arbitrary: st rule: length_induct)
  case (1 inp)
  show ?case
  proof (cases "length inp < 136")
    case True
    then show ?thesis by (simp add: keccak_blocks_short)
  next
    case False
    then have "snd (keccak_blocks 136 (drop 136 inp) st') = drop (136 * (length (drop 136 inp) div 136)) (drop 136 inp)" for st'
      using 1 by (auto simp del: drop_drop)
    moreover have "length inp div 136 = Suc ((length inp - 136) div 136)"
      using False by (simp add: le_div_geq)
    ultimately show ?thesis using False by (simp add: keccak_blocks_step add.commute)
  qed
qed

text \<open>Only the first words of a buffer enter the state.\<close>

lemma xor_words_cong: "take (8 * n) buf = take (8 * n) buf' \<Longrightarrow> xor_words n buf st = xor_words n buf' st"
proof -
  assume eq: "take (8 * n) buf = take (8 * n) buf'"
  have "buf_word buf i = buf_word buf' i" if "i < n" for i
  proof -
    have "take 8 (drop (8 * i) (take (8 * n) b)) = take 8 (drop (8 * i) b)" for b :: bytes
      using that by (simp add: drop_take min_def)
    then show ?thesis using eq unfolding buf_word_def by metis
  qed
  then show ?thesis unfolding xor_words_def by (intro fold_cong) auto
qed

lemma KECCAK_PROCESS_BLOCK_cong:
  "take 136 blk = take 136 blk' \<Longrightarrow> KECCAK_PROCESS_BLOCK st blk = KECCAK_PROCESS_BLOCK st blk'"
  unfolding KECCAK_PROCESS_BLOCK_def by (simp add: xor_words_cong [of 17 blk blk'])

subsection \<open>The incremental context\<close>

lemma copy_at_0: "length src = length buf \<Longrightarrow> copy_at buf 0 src = src"
  by (simp add: copy_at_def)

lemma length_copy_at: "off + length src \<le> length buf \<Longrightarrow> length (copy_at buf off src) = length buf"
  by (simp add: copy_at_def)

lemma take_copy_at: "off + length src \<le> length buf \<Longrightarrow> take (off + length src) (copy_at buf off src) = take off buf @ src"
  by (simp add: copy_at_def)

lemma keccak_update_blocks_spec:
  "length (ctx_message ctx) = 136 \<Longrightarrow>
    (let ctx' = keccak_update_blocks inp ctx
     in ctx_hash ctx' = fst (keccak_blocks 136 inp (ctx_hash ctx)) \<and> ctx_rest ctx' = ctx_rest ctx \<and>
        length (ctx_message ctx') = 136 \<and>
        take (length inp mod 136) (ctx_message ctx') = drop (136 * (length inp div 136)) inp)"
proof (induction inp ctx rule: keccak_update_blocks.induct)
  case (1 inp ctx)
  show ?case
  proof (cases "136 \<le> length inp")
    case True
    define msg where "msg = take 136 inp"
    define c where "c = ctx\<lparr>ctx_message := msg, ctx_hash := KECCAK_PROCESS_BLOCK (ctx_hash ctx) msg\<rparr>"
    have msg: "copy_at (ctx_message ctx) 0 msg = msg" "length msg = 136"
      using True "1.prems" by (simp_all add: copy_at_0 msg_def)
    have step: "keccak_update_blocks inp ctx = keccak_update_blocks (drop 136 inp) c"
      using True by (subst keccak_update_blocks.simps) (simp add: msg c_def msg_def [symmetric])
    have d: "length inp div 136 = Suc ((length inp - 136) div 136)" "length inp mod 136 = (length inp - 136) mod 136"
      using True by (simp_all add: le_div_geq le_mod_geq)
    show ?thesis
      using "1.IH" [OF True refl refl] True
      by (simp add: step msg c_def d keccak_blocks_step [OF True] Let_def msg_def [symmetric] add.commute)
  next
    case False
    then have "keccak_update_blocks inp ctx = (if inp \<noteq> [] then ctx\<lparr>ctx_message := copy_at (ctx_message ctx) 0 inp\<rparr> else ctx)"
      by (subst keccak_update_blocks.simps) simp
    then show ?thesis using False "1.prems"
      by (simp add: keccak_blocks_short length_copy_at copy_at_def)
  qed
qed

lemma keccak_blocks_cont:
  "keccak_blocks 136 m st = (h, t) \<Longrightarrow> keccak_blocks 136 (m @ inp) st = keccak_blocks 136 (t @ inp) h"
proof (induction m arbitrary: st rule: length_induct)
  case (1 m)
  show ?case
  proof (cases "length m < 136")
    case True
    then show ?thesis using "1.prems" by (simp add: keccak_blocks_short)
  next
    case False
    then have l: "length (drop 136 m) < length m" by simp
    have "keccak_blocks 136 (drop 136 m) (KECCAK_PROCESS_BLOCK st (take 136 m)) = (h, t)"
      using False "1.prems" by (simp add: keccak_blocks_step)
    from "1.IH" [rule_format, OF l this] False show ?thesis
      by (simp add: keccak_blocks_step)
  qed
qed

lemma keccak_blocks_rest_length: "keccak_blocks 136 m st = (h, t) \<Longrightarrow> length t = length m mod 136"
  using keccak_blocks_rest [of m st] by (simp add: minus_mult_div_eq_mod)

lemma update_blocks_absorb:
  assumes "length (ctx_message ctx) = 136" "keccak_blocks 136 inp (ctx_hash ctx) = (h, t)"
  shows "ctx_hash (keccak_update_blocks inp ctx) = h"
    "ctx_rest (keccak_update_blocks inp ctx) = ctx_rest ctx"
    "length (ctx_message (keccak_update_blocks inp ctx)) = 136"
    "take (length t) (ctx_message (keccak_update_blocks inp ctx)) = t"
proof -
  have t: "t = drop (136 * (length inp div 136)) inp" "length t = length inp mod 136"
    using assms(2) keccak_blocks_rest [of inp "ctx_hash ctx"] keccak_blocks_rest_length [OF assms(2)] by simp_all
  note s = keccak_update_blocks_spec [OF assms(1), of inp, unfolded Let_def assms(2) fst_conv]
  show "ctx_hash (keccak_update_blocks inp ctx) = h" using s by blast
  show "ctx_rest (keccak_update_blocks inp ctx) = ctx_rest ctx" using s by blast
  show "length (ctx_message (keccak_update_blocks inp ctx)) = 136" using s by blast
  show "take (length t) (ctx_message (keccak_update_blocks inp ctx)) = t"
    using s unfolding t(2) by (simp add: t(1))
qed

text \<open>The context after hashing \<open>m\<close>: the state has absorbed the full blocks, and the front of the
  message buffer holds the bytes that do not fill a block yet.\<close>

definition keccak_ctx_inv :: "bytes \<Rightarrow> keccak_ctx \<Rightarrow> bool" where
  "keccak_ctx_inv m ctx \<longleftrightarrow>
    length (ctx_message ctx) = 136 \<and> unat (ctx_rest ctx) < 136 \<and>
    keccak_blocks 136 m (replicate 25 0) = (ctx_hash ctx, take (unat (ctx_rest ctx)) (ctx_message ctx))"

lemma small_not_finalized:
  assumes "unat x < 136" shows "x AND KECCAK_FINALIZED = 0"
proof -
  have fin: "KECCAK_FINALIZED = push_bit 31 1" by simp
  have "take_bit 31 x = x"
    using assms by (intro word_eq_unatI) (simp add: wnat)
  then show ?thesis unfolding fin using and_push_mask_disjoint [of 31 x 1] by (simp only:)
qed

lemma keccak_init_inv: "keccak_ctx_inv [] keccak_init"
  by (simp add: keccak_ctx_inv_def keccak_init_def keccak_blocks_short)

lemma rest_update:
  assumes "unat r < 136" and "k < 2 ^ 63"
  shows "unat ((r + of_nat k) mod 136 :: u64) = (unat r + k) mod 136"
proof -
  have "unat r + k < 2 ^ 64" using assms by simp
  then have "unat (r + of_nat k) = unat r + k" using assms by (simp add: wnat unat_of_nat)
  then show ?thesis by (simp add: wnat)
qed

lemma keccak_update_step:
  assumes msg: "length (ctx_message ctx) = 136" and rest: "unat (ctx_rest ctx) < 136"
    and len: "length inp < 2 ^ 63"
    and abs: "keccak_blocks 136 (take (unat (ctx_rest ctx)) (ctx_message ctx) @ inp) (ctx_hash ctx) = (h, t)"
  shows "\<exists>ctx'. keccak_update ctx inp = Some ctx' \<and> length (ctx_message ctx') = 136 \<and>
    ctx_hash ctx' = h \<and> unat (ctx_rest ctx') = length t \<and> take (length t) (ctx_message ctx') = t"
proof -
  define idx where "idx = unat (ctx_rest ctx)"
  define tl where "tl = take idx (ctx_message ctx)"
  define left where "left = 136 - idx"
  define r where "r = (ctx_rest ctx + of_nat (length inp)) mod 136"
  note fin = small_not_finalized [OF rest]
  have tl: "length tl = idx" using msg rest by (simp add: tl_def idx_def)
  have r: "unat r = length t"
    using rest_update [OF rest len] keccak_blocks_rest_length [OF abs] msg rest by (simp add: r_def)
  consider (aligned) "idx = 0" | (short) "idx \<noteq> 0" "length inp < left" | (fill) "idx \<noteq> 0" "left \<le> length inp"
    by linarith
  then show ?thesis
  proof cases
    case aligned
    define c where "c = ctx\<lparr>ctx_rest := r\<rparr>"
    have "length (ctx_message c) = 136" "keccak_blocks 136 inp (ctx_hash c) = (h, t)"
      using aligned abs msg by (simp_all add: c_def idx_def)
    from update_blocks_absorb [OF this] aligned fin r show ?thesis
      by (simp add: keccak_update_def c_def r_def idx_def Let_def)
  next
    case short
    have "copy_at (ctx_message ctx) idx inp = tl @ inp @ drop (idx + length inp) (ctx_message ctx)"
      by (simp add: copy_at_def tl_def)
    moreover have "h = ctx_hash ctx" "t = tl @ inp"
      using abs short tl by (simp_all add: keccak_blocks_short tl_def idx_def left_def)
    ultimately show ?thesis using short fin r msg tl
      by (simp add: keccak_update_def r_def idx_def left_def Let_def)
  next
    case fill
    define blk where "blk = tl @ take left inp"
    have blk: "length blk = 136" "copy_at (ctx_message ctx) idx (take left inp) = blk"
      using fill tl msg rest by (simp_all add: blk_def left_def copy_at_def tl_def idx_def)
    define c where "c = ctx\<lparr>ctx_rest := r, ctx_message := blk, ctx_hash := KECCAK_PROCESS_BLOCK (ctx_hash ctx) blk\<rparr>"
    have "tl @ inp = blk @ drop left inp" by (simp add: blk_def)
    then have "keccak_blocks 136 (drop left inp) (ctx_hash c) = (h, t)"
      using abs keccak_blocks_block [OF blk(1)] by (simp add: c_def tl_def idx_def)
    moreover have "length (ctx_message c) = 136" using blk by (simp add: c_def)
    moreover have "keccak_update ctx inp = Some (keccak_update_blocks (drop left inp) c)"
      using fill fin blk(2) by (simp add: keccak_update_def c_def r_def idx_def left_def Let_def)
    ultimately show ?thesis using update_blocks_absorb [of c "drop left inp" h t] r
      by (simp add: c_def)
  qed
qed

lemma keccak_update_inv:
  assumes inv: "keccak_ctx_inv m ctx" and len: "length inp < 2 ^ 63"
  shows "\<exists>ctx'. keccak_update ctx inp = Some ctx' \<and> keccak_ctx_inv (m @ inp) ctx'"
proof -
  obtain h t where ht: "keccak_blocks 136 (m @ inp) (replicate 25 0) = (h, t)" by fastforce
  have "keccak_blocks 136 (take (unat (ctx_rest ctx)) (ctx_message ctx) @ inp) (ctx_hash ctx) = (h, t)"
    using inv ht keccak_blocks_cont [of m "replicate 25 0" _ _ inp] by (simp add: keccak_ctx_inv_def)
  from keccak_update_step [OF _ _ len this] inv ht keccak_blocks_rest_length [OF ht] show ?thesis
    by (fastforce simp: keccak_ctx_inv_def)
qed

text \<open>Both ways of padding the last block agree on the block that is absorbed.\<close>

definition keccak_last_block :: "bytes \<Rightarrow> bytes" where
  "keccak_last_block t = (let b = t @ [1] @ replicate (135 - length t) 0 in b[135 := b ! 135 OR 0x80])"

lemma take_keccak_pad: "length t < 136 \<Longrightarrow> take 136 (keccak_pad 136 t) = keccak_last_block t"
proof -
  assume t: "length t < 136"
  have r: "replicate (144 - length t) 0 = (0::u8) # replicate (135 - length t) 0 @ replicate 8 0"
    using t by (simp add: replicate_add [symmetric] flip: replicate_Suc)
  define a where "a = t @ [1::u8] @ replicate (135 - length t) 0"
  have a: "length a = 136" using t by (simp add: a_def)
  have "(t @ replicate (144 - length t) 0)[length t := 1] = a @ replicate 8 0"
    unfolding r by (simp add: a_def)
  moreover have "keccak_last_block t = a[135 := a ! 135 OR 0x80]"
    unfolding keccak_last_block_def Let_def a_def ..
  ultimately show ?thesis
    using a by (simp add: keccak_pad_def Let_def nth_append take_update_swap)
qed

lemma keccak_digest32:
  assumes "keccak_blocks 136 m (replicate 25 0) = (h, t)"
  shows "keccak m 32 = Some (concat (map (le_bytes 8) (take 4 (KECCAK_PROCESS_BLOCK h (keccak_last_block t)))))"
    and "keccak m 200 = Some (concat (map (le_bytes 8) (take 25 (KECCAK_PROCESS_BLOCK h (keccak_last_block t)))))"
proof -
  have t: "length t < 136" using keccak_blocks_rest_length [OF assms] by simp
  have "length (keccak_last_block t) = 136" using t by (simp add: keccak_last_block_def Let_def)
  then have p: "KECCAK_PROCESS_BLOCK h (keccak_pad 136 t) = KECCAK_PROCESS_BLOCK h (keccak_last_block t)"
    using t by (intro KECCAK_PROCESS_BLOCK_cong) (simp add: take_keccak_pad)
  show "keccak m 32 = Some (concat (map (le_bytes 8) (take 4 (KECCAK_PROCESS_BLOCK h (keccak_last_block t)))))"
    using assms t p by (simp add: keccak_def Let_def KECCAK_PROCESS_BLOCK_def)
  show "keccak m 200 = Some (concat (map (le_bytes 8) (take 25 (KECCAK_PROCESS_BLOCK h (keccak_last_block t)))))"
    using assms t p by (simp add: keccak_def Let_def KECCAK_PROCESS_BLOCK_def)
qed

lemma keccak_finish_digest:
  assumes "keccak_ctx_inv m ctx"
  shows "Some (snd (keccak_finish ctx)) = keccak m 32"
proof -
  define t where "t = take (unat (ctx_rest ctx)) (ctx_message ctx)"
  have k: "length (ctx_message ctx) = 136" "unat (ctx_rest ctx) < 136"
    "keccak_blocks 136 m (replicate 25 0) = (ctx_hash ctx, t)"
    using assms by (simp_all add: keccak_ctx_inv_def t_def)
  have t: "length t = unat (ctx_rest ctx)" using k by (simp add: t_def)
  define z where "z = copy_at (ctx_message ctx) (length t) (replicate (136 - length t) 0)"
  have z: "z = t @ 0 # replicate (135 - length t) 0"
    using k t by (simp add: z_def copy_at_def t_def flip: replicate_Suc)
  have "(let msg = z[length t := z ! length t OR 1] in msg[135 := msg ! 135 OR 0x80]) = keccak_last_block t"
    by (simp add: z keccak_last_block_def Let_def)
  then show ?thesis
    using keccak_digest32(1) [OF k(3)] small_not_finalized [OF k(2)]
    by (simp add: keccak_finish_def Let_def z_def t)
qed

lemma length_keccakf_round: "length (keccakf_round r st) = length st"
proof -
  have th: "length (fold (keccak_THETA bc) xs s) = length s" for bc xs s
    by (induction xs arbitrary: s) (simp_all add: keccak_THETA_def Let_def)
  have rp: "length (fold (\<lambda>(dst, src, rot) st. st[dst := ROTL64 (st ! src) rot]) xs s) = length s" for xs s
    by (induction xs arbitrary: s) (auto split: prod.splits)
  have ch: "length (fold keccak_CHI xs s) = length s" for xs s
    by (induction xs arbitrary: s) (simp_all add: keccak_CHI_def Let_def)
  show ?thesis unfolding keccakf_round_def Let_def by (simp only: length_list_update ch rp th)
qed

lemma length_keccakf: "length (keccakf st n) = length st"
proof -
  have "length (fold keccakf_round xs s) = length s" for xs s
    by (induction xs arbitrary: s) (simp_all add: length_keccakf_round)
  then show ?thesis by (simp add: keccakf_def)
qed

lemma length_xor_words: "length (xor_words n buf st) = length st"
proof -
  have "length (fold (\<lambda>i st. st[i := st ! i XOR buf_word buf i]) xs s) = length s" for xs s
    by (induction xs arbitrary: s) simp_all
  then show ?thesis by (simp add: xor_words_def)
qed

lemma length_PROCESS_BLOCK: "length (KECCAK_PROCESS_BLOCK st b) = length st"
  by (simp add: KECCAK_PROCESS_BLOCK_def length_keccakf length_xor_words)

lemma length_keccak_blocks: "keccak_blocks 136 m st = (h, t) \<Longrightarrow> length h = length st"
proof (induction m arbitrary: st rule: length_induct)
  case (1 m)
  show ?case
  proof (cases "length m < 136")
    case True
    then show ?thesis using "1.prems" by (simp add: keccak_blocks_short)
  next
    case False
    then have l: "length (drop 136 m) < length m" by simp
    have "keccak_blocks 136 (drop 136 m) (KECCAK_PROCESS_BLOCK st (take 136 m)) = (h, t)"
      using False "1.prems" by (simp add: keccak_blocks_step)
    from "1.IH" [rule_format, OF l this] show ?thesis by (simp add: length_PROCESS_BLOCK)
  qed
qed

lemma take_concat_le_bytes: "take (8 * n) (concat (map (le_bytes 8) ws)) = concat (map (le_bytes 8) (take n ws))"
proof (induction ws arbitrary: n)
  case (Cons w ws)
  then show ?case by (cases n) simp_all
qed simp

lemma length_concat_le_bytes: "length (concat (map (le_bytes 8) ws)) = 8 * length ws"
  by (induction ws) simp_all

lemma cn_fast_hash_keccak32: "keccak m 32 = Some (cn_fast_hash m) \<and> length (cn_fast_hash m) = 32"
proof -
  obtain h t where ht: "keccak_blocks 136 m (replicate 25 0) = (h, t)" by fastforce
  define st where "st = KECCAK_PROCESS_BLOCK h (keccak_last_block t)"
  have l: "length st = 25" using length_keccak_blocks [OF ht] by (simp add: st_def length_PROCESS_BLOCK)
  have c: "cn_fast_hash m = concat (map (le_bytes 8) (take 4 st))"
    using keccak_digest32(2) [OF ht] l take_concat_le_bytes [of 4 st]
    by (simp add: cn_fast_hash_def hash_process_def keccak1600_def flip: st_def)
  show ?thesis
    using keccak_digest32(1) [OF ht] l length_concat_le_bytes [of "take 4 st"] unfolding c st_def [symmetric] by simp
qed

lemma keccak_chunks_inv:
  assumes "\<forall>c \<in> set chunks. length c < 2 ^ 63"
  shows "\<exists>ctx. opt_fold (\<lambda>c ctx. keccak_update ctx c) chunks keccak_init = Some ctx \<and>
           keccak_ctx_inv (concat chunks) ctx"
  by (rule opt_fold_invariant [where I = "\<lambda>done. keccak_ctx_inv (concat done)"])
    (use keccak_init_inv keccak_update_inv assms in auto)

text \<open>C18: a message hashed piece by piece, by \<open>keccak_init\<close>, one \<open>keccak_update\<close> for each chunk and
  \<open>keccak_finish\<close>, gives the hash \<open>cn_fast_hash\<close> computes of the whole message, however the message
  is cut into chunks (each chunk shorter than 2^63 bytes); in particular no update fails.\<close>

theorem keccak_incremental:
  assumes "\<forall>c \<in> set chunks. length c < 2 ^ 63"
  shows "keccak_chunks chunks = Some (cn_fast_hash (concat chunks))"
proof -
  obtain ctx where "opt_fold (\<lambda>c ctx. keccak_update ctx c) chunks keccak_init = Some ctx"
    "keccak_ctx_inv (concat chunks) ctx"
    using keccak_chunks_inv [OF assms] by blast
  then show ?thesis using keccak_finish_digest [of "concat chunks" ctx] cn_fast_hash_keccak32 [of "concat chunks"]
    by (simp add: keccak_chunks_def)
qed

theorem keccak_incremental_witness: "keccak_chunks [[97], [98, 99]] = Some (cn_fast_hash [97, 98, 99])"
  using keccak_incremental [of "[[97], [98, 99]]"] by simp

text \<open>C19: the fast hash is the 32-byte Keccak digest and is always 32 bytes long: taking the first 32
  bytes of the 200-byte state \<open>keccak1600\<close> extracts is the same as asking \<open>keccak\<close> for 32 bytes, and
  none of the abort branches of \<open>keccak\<close> is reached.\<close>

theorem cn_fast_hash_digest: "keccak m 32 = Some (cn_fast_hash m) \<and> length (cn_fast_hash m) = 32"
  by (rule cn_fast_hash_keccak32)

text \<open>a finished context stays finished: \<open>keccak_update\<close> refuses it, and finishing it again returns
  the same digest and the same context.\<close>

theorem keccak_finish_final:
  "keccak_update (fst (keccak_finish ctx)) inp = None \<and> keccak_finish (fst (keccak_finish ctx)) = keccak_finish ctx"
  by (auto simp: keccak_finish_def keccak_update_def Let_def)

lemma keccak_blocks_rest_short: "0 < r \<Longrightarrow> keccak_blocks r inp st = (h, t) \<Longrightarrow> length t < r"
proof (induction r inp st rule: keccak_blocks.induct)
  case (1 r inp st)
  then show ?case by (subst (asm) keccak_blocks.simps) (auto simp: not_less split: if_splits)
qed

lemma multiple_of_8_below_32: "0 < m \<Longrightarrow> m < 32 \<Longrightarrow> m mod 8 = 0 \<Longrightarrow> 144 < 200 - 2 * (m :: int)"
  by presburger

text \<open>C20: \<open>keccak\<close> returns exactly on the output lengths 200 and the multiples of 8 from 32 to 96, and
  aborts on all others; the check after the block loop never fires.\<close>

theorem keccak_aborts_iff:
  "keccak inp mdlen = None \<longleftrightarrow> \<not> (mdlen = 200 \<or> (32 \<le> mdlen \<and> mdlen < 100 \<and> mdlen mod 8 = 0))"
proof -
  define h t where "h = (\<lambda>r. fst (keccak_blocks r inp (replicate 25 0)))"
    and "t = (\<lambda>r. snd (keccak_blocks r inp (replicate 25 0)))"
  have ht: "keccak_blocks r inp (replicate 25 0) = (h r, t r)" for r by (simp add: h_def t_def)
  have short: "\<not> r \<le> length (t r)" if "0 < r" for r
    using keccak_blocks_rest_short [OF that ht] by simp
  consider (state) "mdlen = 200" | (digest) "32 \<le> mdlen" "mdlen < 100" "mdlen mod 8 = 0"
    | (bad) "\<not> (mdlen = 200 \<or> (32 \<le> mdlen \<and> mdlen < 100 \<and> mdlen mod 8 = 0))"
    by blast
  then show ?thesis
  proof cases
    case state
    then show ?thesis using short [of 136] by (simp add: keccak_def Let_def ht)
  next
    case digest
    then have "0 < nat (200 - 2 * mdlen)" "nat (200 - 2 * mdlen) \<le> 144" by simp_all
    then show ?thesis using digest short [of "nat (200 - 2 * mdlen)"] by (simp add: keccak_def Let_def ht)
  next
    case bad
    then show ?thesis
      using multiple_of_8_below_32 [of mdlen] by (auto simp: keccak_def Let_def simp del: mod_0_imp_dvd)
  qed
qed

subsection \<open>The interface of a 32-byte hash\<close>

text \<open>What the callers of the fast hash rely on: its digests have 32 bytes.\<close>

locale hash_function =
  fixes H :: "bytes \<Rightarrow> bytes"
  assumes length_H: "length (H m) = 32"
begin

text \<open>A message followed by its checksum can be taken apart again.\<close>

lemma checksum_length: "k \<le> 32 \<Longrightarrow> length (m @ take k (H m)) = length m + k"
  by (simp add: length_H)

lemma checksum_split:
  assumes "k \<le> 32"
  shows "take (length (m @ take k (H m)) - k) (m @ take k (H m)) = m"
    and "drop (length (m @ take k (H m)) - k) (m @ take k (H m)) = take k (H m)"
  using assms by (simp_all add: length_H)

end

interpretation cn_hash: hash_function cn_fast_hash
  by unfold_locales (simp add: cn_fast_hash_keccak32)

end
