(* ===== verification/Base58.thy ===== *)
theory Base58
  imports Keccak
begin

text \<open>
  The block-wise Base58 of \<open>src/common/base58.cpp\<close> and the checksummed address strings built on it.
  The lookup tables are computed as their constructors compute them.  \<open>encode_block\<close> writes through an
  index that counts down into the result string, so it returns \<open>None\<close> when the index leaves the string;
  that this never happens is part of the theorems.  \<open>decode\<close> and \<open>decode_addr\<close> return \<open>None\<close> where the
  source returns false.  String lengths are natural numbers.
\<close>

unbundle bit_operations_syntax

subsection \<open>Tables\<close>

definition alphabet :: bytes where
  "alphabet = map of_char ''123456789ABCDEFGHJKLMNPQRSTUVWXYZabcdefghijkmnopqrstuvwxyz''"

abbreviation alphabet_size :: nat where "alphabet_size \<equiv> 58"

definition encoded_block_sizes :: "nat list" where
  "encoded_block_sizes = [0, 2, 3, 5, 6, 7, 9, 10, 11]"

abbreviation full_block_size :: nat where "full_block_size \<equiv> 8"
abbreviation full_encoded_block_size :: nat where "full_encoded_block_size \<equiv> 11"
abbreviation addr_checksum_size :: nat where "addr_checksum_size \<equiv> 4"

text \<open>\<open>char\<close> is signed, so a letter above 127 gives an index that wraps to a huge \<open>size_t\<close>.\<close>

definition letter_index :: "u8 \<Rightarrow> u64" where
  "letter_index letter = of_int (sint letter - sint (alphabet ! 0))"

definition reverse_alphabet_data :: "int list" where
  "reverse_alphabet_data =
    fold (\<lambda>i m_data. m_data[unat (letter_index (alphabet ! i)) := int i]) [0..<alphabet_size]
      (replicate (nat (sint (alphabet ! (alphabet_size - 1)) - sint (alphabet ! 0) + 1)) (- 1))"

definition reverse_alphabet :: "u8 \<Rightarrow> int" where
  "reverse_alphabet letter =
    (let idx = letter_index letter
     in if idx < of_nat (length reverse_alphabet_data) then reverse_alphabet_data ! unat idx else - 1)"

definition decoded_block_sizes_data :: "int list" where
  "decoded_block_sizes_data =
    fold (\<lambda>i m_data. m_data[encoded_block_sizes ! i := int i]) [0..<full_block_size + 1]
      (replicate (encoded_block_sizes ! full_block_size + 1) (- 1))"

definition decoded_block_sizes :: "nat \<Rightarrow> int" where
  "decoded_block_sizes encoded_block_size = decoded_block_sizes_data ! encoded_block_size"

subsection \<open>Blocks\<close>

definition uint_8be_to_64 :: "bytes \<Rightarrow> u64" where
  "uint_8be_to_64 data = SWAP64 (le_word (replicate (8 - length data) 0 @ data))"

definition uint_64_to_8be :: "u64 \<Rightarrow> nat \<Rightarrow> bytes" where
  "uint_64_to_8be num sz = take sz (drop (8 - sz) (le_bytes 8 (SWAP64 num)))"

text \<open>The loop of \<open>encode_block\<close>; \<open>res\<close> is the whole result string and \<open>off\<close> where the block starts.\<close>

function encode_block_loop :: "u64 \<Rightarrow> int \<Rightarrow> nat \<Rightarrow> bytes \<Rightarrow> bytes option" where
  "encode_block_loop num i off res =
    (if 0 < num
     then let remainder = num mod 58;
              num = num div 58;
              p = int off + i
          in if p < 0 \<or> int (length res) \<le> p then None
             else encode_block_loop num (i - 1) off (res[nat p := alphabet ! unat remainder])
     else Some res)"
  by pat_completeness auto
termination
  by (relation "measure (\<lambda>(num, i, off, res). unat num)") (auto simp: wnat word_less_nat_alt)

declare encode_block_loop.simps [simp del]

definition encode_block :: "bytes \<Rightarrow> nat \<Rightarrow> bytes \<Rightarrow> bytes option" where
  "encode_block block off res =
    encode_block_loop (uint_8be_to_64 block) (int (encoded_block_sizes ! length block) - 1) off res"

text \<open>The loop of \<open>decode_block\<close>, over the letters from the last to the first.\<close>

fun decode_block_loop :: "bytes \<Rightarrow> u64 \<Rightarrow> u64 \<Rightarrow> u64 option" where
  "decode_block_loop [] res_num order = Some res_num"
| "decode_block_loop (letter # letters) res_num order =
    (let digit = reverse_alphabet letter
     in if digit < 0 then None
        else do {
          (product_lo, product_hi) \<leftarrow> mul128 order (of_int digit);
          let tmp = res_num + product_lo;
          if tmp < res_num \<or> 0 \<noteq> product_hi then None
          else decode_block_loop letters tmp (order * 58) })"

definition decode_block :: "bytes \<Rightarrow> bytes option" where
  "decode_block block =
    (let res_size = decoded_block_sizes (length block)
     in if res_size \<le> 0 then None
        else do {
          res_num \<leftarrow> decode_block_loop (rev block) 0 1;
          if nat res_size < full_block_size \<and> push_bit (8 * nat res_size) (1 :: u64) \<le> res_num then None
          else Some (uint_64_to_8be res_num (nat res_size))
        })"

subsection \<open>Strings\<close>

definition encode :: "bytes \<Rightarrow> bytes option" where
  "encode data =
    (if data = [] then Some []
     else let full_block_count = length data div full_block_size;
              last_block_size = length data mod full_block_size;
              res_size = full_block_count * full_encoded_block_size + encoded_block_sizes ! last_block_size;
              res = replicate res_size (alphabet ! 0)
          in do {
            res \<leftarrow> opt_fold (\<lambda>i res. encode_block (take full_block_size (drop (i * full_block_size) data))
                             (i * full_encoded_block_size) res) [0..<full_block_count] res;
            if 0 < last_block_size
            then encode_block (take last_block_size (drop (full_block_count * full_block_size) data))
                   (full_block_count * full_encoded_block_size) res
            else Some res
          })"

definition decode :: "bytes \<Rightarrow> bytes option" where
  "decode enc =
    (if enc = [] then Some []
     else let full_block_count = length enc div full_encoded_block_size;
              last_block_size = length enc mod full_encoded_block_size;
              last_block_decoded_size = decoded_block_sizes last_block_size
          in if last_block_decoded_size < 0 then None
             else let data_size = full_block_count * full_block_size + nat last_block_decoded_size;
                      data = replicate data_size 0
                  in do {
                    data \<leftarrow> opt_fold (\<lambda>i data. do {
                        b \<leftarrow> decode_block (take full_encoded_block_size (drop (i * full_encoded_block_size) enc));
                        Some (copy_at data (i * full_block_size) b) }) [0..<full_block_count] data;
                    if 0 < last_block_size
                    then do {
                      b \<leftarrow> decode_block (take last_block_size (drop (full_block_count * full_encoded_block_size) enc));
                      Some (copy_at data (full_block_count * full_block_size) b) }
                    else Some data
                  })"

definition encode_addr :: "u64 \<Rightarrow> bytes \<Rightarrow> bytes option" where
  "encode_addr tag data =
    (let buf = get_varint_data tag @ data;
         hash = cn_fast_hash buf
     in encode (buf @ take addr_checksum_size hash))"

definition decode_addr :: "bytes \<Rightarrow> (u64 \<times> bytes) option" where
  "decode_addr addr = do {
     addr_data \<leftarrow> decode addr;
     if length addr_data \<le> addr_checksum_size then None
     else let checksum = drop (length addr_data - addr_checksum_size) addr_data;
              addr_data = take (length addr_data - addr_checksum_size) addr_data;
              expected_checksum = take addr_checksum_size (cn_fast_hash addr_data)
          in if expected_checksum \<noteq> checksum then None
             else case read_varint addr_data of
                 Inl _ \<Rightarrow> None
               | Inr (rd, tag, _) \<Rightarrow> if rd = 0 then None else Some (tag, drop rd addr_data)
   }"

subsection \<open>The tables\<close>

lemma alphabet_bytes:
  "alphabet = [49, 50, 51, 52, 53, 54, 55, 56, 57, 65, 66, 67, 68, 69, 70, 71, 72, 74, 75, 76, 77, 78,
    80, 81, 82, 83, 84, 85, 86, 87, 88, 89, 90, 97, 98, 99, 100, 101, 102, 103, 104, 105, 106,
    107, 109, 110, 111, 112, 113, 114, 115, 116, 117, 118, 119, 120, 121, 122]"
  by (simp add: alphabet_def)

lemma alphabet_0: "alphabet ! 0 = 49" and length_alphabet: "length alphabet = 58"
  by (simp_all add: alphabet_def)

lemma reverse_alphabet_table:
  "reverse_alphabet_data = [0, 1, 2, 3, 4, 5, 6, 7, 8, - 1, - 1, - 1, - 1, - 1, - 1, - 1, 9, 10, 11, 12, 13, 14, 15,
    16, - 1, 17, 18, 19, 20, 21, - 1, 22, 23, 24, 25, 26, 27, 28, 29, 30, 31, 32, - 1, - 1, -
    1, - 1, - 1, - 1, 33, 34, 35, 36, 37, 38, 39, 40, 41, 42, 43, - 1, 44, 45, 46, 47, 48, 49,
    50, 51, 52, 53, 54, 55, 56, 57]"
  by code_simp

lemma letter_index_alphabet: "map letter_index alphabet = map (\<lambda>c. ucast c - 49) alphabet"
  unfolding alphabet_bytes letter_index_def by simp

lemma alphabet_indexed: "map (\<lambda>c. reverse_alphabet_data ! unat (ucast c - 49 :: u64)) alphabet = map int [0..<58]"
  unfolding alphabet_bytes reverse_alphabet_table by (simp add: upt_rec)

lemma reverse_alphabet_table_inv:
  "list_all (\<lambda>k. reverse_alphabet_data ! k = - 1 \<or>
     0 \<le> reverse_alphabet_data ! k \<and> reverse_alphabet_data ! k < 58 \<and>
     alphabet ! nat (reverse_alphabet_data ! k) = of_nat k + 49) [0..<74]"
  unfolding alphabet_bytes reverse_alphabet_table by (simp add: upt_rec)

lemma reverse_alphabet_letter: "d < 58 \<Longrightarrow> reverse_alphabet (alphabet ! d) = int d"
proof -
  assume d: "d < 58"
  have "list_all (\<lambda>c. ucast c - 49 < (74 :: u64)) alphabet" unfolding alphabet_bytes by simp
  then have "ucast (alphabet ! d) - 49 < (74 :: u64)" using d by (simp add: list_all_length length_alphabet)
  moreover have "letter_index (alphabet ! d) = ucast (alphabet ! d) - 49"
    using arg_cong [OF letter_index_alphabet, of "\<lambda>xs. xs ! d"] d by (simp add: length_alphabet)
  moreover have "reverse_alphabet_data ! unat (ucast (alphabet ! d) - 49 :: u64) = int d"
    using arg_cong [OF alphabet_indexed, of "\<lambda>xs. xs ! d"] d by (simp add: length_alphabet)
  ultimately show ?thesis
    unfolding reverse_alphabet_def Let_def by (simp add: reverse_alphabet_table)
qed

lemma letter_of_index: "(ucast (letter_index c) :: u8) + 49 = c"
proof -
  have "(ucast (of_int y :: u64) :: u8) = of_int y" for y
    by (rule bit_word_eqI) (simp add: bit_simps)
  then have "(ucast (letter_index c) :: u8) = of_int (sint c - sint (alphabet ! 0))"
    by (simp only: letter_index_def)
  then show ?thesis by (simp add: alphabet_0)
qed

lemma reverse_alphabet_digit:
  assumes "0 \<le> reverse_alphabet c"
  shows "reverse_alphabet c < 58 \<and> alphabet ! nat (reverse_alphabet c) = c"
proof -
  define idx where "idx = letter_index c"
  have len: "length reverse_alphabet_data = 74" by (simp add: reverse_alphabet_table)
  have idx: "idx < 74" and r: "reverse_alphabet c = reverse_alphabet_data ! unat idx"
    using assms by (auto simp: reverse_alphabet_def len Let_def idx_def split: if_splits)
  have "unat idx < 74" using idx by (simp add: word_less_nat_alt)
  then show ?thesis
    using reverse_alphabet_table_inv assms letter_of_index [of c] unfolding r
    by (auto simp add: list_all_length idx_def)
qed

subsection \<open>Big-endian numbers and digits in base 58\<close>

lemma unat_8be: "length data \<le> 8 \<Longrightarrow> unat (uint_8be_to_64 data) = le_val (rev data)"
proof -
  assume l: "length data \<le> 8"
  define pad where "pad = replicate (8 - length data) 0 @ data"
  have p: "length pad = 8" using l by (simp add: pad_def)
  have "uint_8be_to_64 data = le_word (le_bytes 8 (SWAP64 (le_word pad)))"
    by (simp add: uint_8be_to_64_def pad_def le_word_le_bytes)
  also have "\<dots> = le_word (rev pad)"
    using le_bytes_le_word [of pad, where 'a = 64] p by (simp add: le_bytes_SWAP64)
  finally have "unat (uint_8be_to_64 data) = le_val (rev pad) mod 2 ^ 64" by (simp add: wnat)
  also have "le_val (rev pad) = le_val (rev data)" by (simp add: pad_def le_val_append le_val_zeros)
  also have "le_val (rev data) mod 2 ^ 64 = le_val (rev data)"
  proof (rule mod_less)
    have "le_val (rev data) < 256 ^ length data" using le_val_bound [of "rev data"] by simp
    also have "\<dots> \<le> 256 ^ 8" using l by (rule power_increasing) simp
    finally show "le_val (rev data) < 2 ^ 64" by simp
  qed
  finally show ?thesis .
qed

lemma le_val_le_bytes: "8 * n \<le> 64 \<Longrightarrow> unat (x :: u64) < 256 ^ n \<Longrightarrow> le_val (le_bytes n x) = unat x"
proof -
  assume n: "8 * n \<le> 64" and x: "unat x < 256 ^ n"
  have "le_word (le_bytes n x) = x"
  proof (rule bit_word_eqI)
    fix i assume i: "i < LENGTH(64)"
    have "take_bit (8 * n) x = x" using x by (intro word_eq_unatI) (simp add: wnat power_mult)
    then have "bit x i \<Longrightarrow> i < 8 * n" by (metis bit_take_bit_iff)
    then show "bit (le_word (le_bytes n x) :: u64) i = bit x i"
      using i by (auto simp: bit_le_word le_bytes_nth bit_simps less_mult_imp_div_less mult.commute)
  qed
  moreover have "le_val (le_bytes n x) < 2 ^ 64"
  proof -
    have "le_val (le_bytes n x) < 256 ^ n" using le_val_bound [of "le_bytes n x"] by simp
    also have "\<dots> = 2 ^ (8 * n)" by (simp add: power_mult)
    also have "\<dots> \<le> 2 ^ 64" using n by (rule power_increasing) simp
    finally show ?thesis .
  qed
  ultimately show ?thesis using unat_le_word [of "le_bytes n x", where 'a = 64] by simp
qed

lemma uint_64_to_8be_rev: "n \<le> 8 \<Longrightarrow> uint_64_to_8be x n = rev (le_bytes n x)"
proof -
  assume n: "n \<le> 8"
  have "take n (le_bytes 8 x) = le_bytes n x" using n by (intro nth_equalityI) (auto simp: le_bytes_nth)
  then show ?thesis using n
    by (simp add: uint_64_to_8be_def le_bytes_SWAP64 drop_rev)
qed

lemma uint_8be_roundtrip: "length b \<le> 8 \<Longrightarrow> uint_64_to_8be (uint_8be_to_64 b) (length b) = b"
proof -
  assume l: "length b \<le> 8"
  have "le_val (le_bytes (length b) (uint_8be_to_64 b)) = le_val (rev b)"
    using l le_val_bound [of "rev b"] by (subst le_val_le_bytes) (simp_all add: unat_8be)
  then have "le_bytes (length b) (uint_8be_to_64 b) = rev b" by (rule le_val_inject) simp
  then show ?thesis using l by (simp add: uint_64_to_8be_rev)
qed

text \<open>The digits of a number, most significant first, and the number digits stand for.\<close>

fun digits58 :: "nat \<Rightarrow> nat \<Rightarrow> nat list" where
  "digits58 0 n = []"
| "digits58 (Suc k) n = digits58 k (n div 58) @ [n mod 58]"

fun val58 :: "nat list \<Rightarrow> nat" where
  "val58 [] = 0"
| "val58 (d # ds) = d + 58 * val58 ds"

lemma length_digits58 [simp]: "length (digits58 k n) = k"
  by (induction k arbitrary: n) simp_all

lemma digits58_0: "digits58 k 0 = replicate k 0"
  by (induction k) (simp_all add: replicate_append_same)

lemma digits58_less: "d \<in> set (digits58 k n) \<Longrightarrow> d < 58"
  by (induction k arbitrary: n) auto

lemma val58_digits58: "n < 58 ^ k \<Longrightarrow> val58 (rev (digits58 k n)) = n"
  by (induction k arbitrary: n) (simp_all add: less_mult_imp_div_less mult.commute)

lemma digits58_val58: "\<forall>d \<in> set ds. d < 58 \<Longrightarrow> digits58 (length ds) (val58 (rev ds)) = ds"
  by (induction ds rule: rev_induct) auto

lemma val58_bound: "\<forall>d \<in> set ds. d < 58 \<Longrightarrow> val58 ds < 58 ^ length ds"
proof (induction ds)
  case (Cons d ds)
  then have "d < 58" "val58 ds + 1 \<le> 58 ^ length ds" by simp_all
  then show ?case by simp
qed simp

subsection \<open>Encoding a block\<close>

definition letters58 :: "nat list \<Rightarrow> bytes" where
  "letters58 ds = map (\<lambda>d. alphabet ! d) ds"

lemma length_letters58: "length (letters58 ds) = length ds"
  by (simp add: letters58_def)

lemma encode_block_loop_digits:
  assumes "unat num < 58 ^ k" and "off + k \<le> length res"
    and "\<forall>j < k. res ! (off + j) = alphabet ! 0"
  shows "encode_block_loop num (int k - 1) off res = Some (copy_at res off (letters58 (digits58 k (unat num))))"
  using assms
proof (induction k arbitrary: num res)
  case 0
  then have "num = 0" by (simp add: unat_eq_zero)
  then show ?case by (simp add: encode_block_loop.simps [of 0] copy_at_def letters58_def)
next
  case (Suc k)
  show ?case
  proof (cases "num = 0")
    case True
    have "map (\<lambda>j. res ! (off + j)) [0..<Suc k] = replicate (Suc k) (alphabet ! 0)"
      using Suc.prems(3) by (intro replicate_eqI) auto
    moreover have "map (\<lambda>j. res ! (off + j)) [0..<Suc k] = take (Suc k) (drop off res)"
      using Suc.prems(2) by (intro nth_equalityI) (auto simp del: upt_Suc)
    ultimately have m: "take (Suc k) (drop off res) = replicate (Suc k) (alphabet ! 0)" by simp
    have "res = take off res @ take (Suc k) (drop off res) @ drop (off + Suc k) res"
      by (metis append_take_drop_id drop_drop add.commute)
    with m True show ?thesis
      by (simp add: encode_block_loop.simps [of 0] copy_at_def letters58_def digits58_0 del: digits58.simps)
  next
    case False
    define r where "r = res[off + k := alphabet ! unat (num mod 58)]"
    have "unat (num div 58) < 58 ^ k" using Suc.prems(1) by (simp add: wnat less_mult_imp_div_less mult.commute)
    moreover have "off + k \<le> length r" "\<forall>j < k. r ! (off + j) = alphabet ! 0"
      using Suc.prems(2,3) by (simp_all add: r_def)
    ultimately have IH: "encode_block_loop (num div 58) (int k - 1) off r
        = Some (copy_at r off (letters58 (digits58 k (unat (num div 58)))))" by (rule Suc.IH)
    have "encode_block_loop num (int (Suc k) - 1) off res = encode_block_loop (num div 58) (int k - 1) off r"
      using False Suc.prems(2) by (simp add: encode_block_loop.simps [of num] Let_def r_def word_neq_0_conv nat_add_distrib)
    moreover have "drop (off + k) r = (alphabet ! unat (num mod 58)) # drop (off + Suc k) res"
      using Suc.prems(2) Cons_nth_drop_Suc [of "off + k" r] by (simp add: r_def)
    ultimately show ?thesis using IH
      by (simp add: copy_at_def letters58_def r_def wnat)
  qed
qed

lemma encoded_block_sizes_cases:
  "n \<in> {1..8} \<Longrightarrow> 256 ^ n \<le> (58::nat) ^ (encoded_block_sizes ! n) \<and> encoded_block_sizes ! n \<in> {1..11} \<and>
     decoded_block_sizes (encoded_block_sizes ! n) = int n"
proof -
  have "\<forall>n \<in> set [1,2,3,4,5,6,7,8]. 256 ^ n \<le> (58::nat) ^ (encoded_block_sizes ! n) \<and> encoded_block_sizes ! n \<in> {1..11} \<and>
     decoded_block_sizes (encoded_block_sizes ! n) = int n"
    unfolding decoded_block_sizes_def decoded_block_sizes_data_def encoded_block_sizes_def
    by (simp add: upt_rec)
  moreover assume "n \<in> {1..8}"
  then have "n \<in> set [1,2,3,4,5,6,7,8]" by auto
  ultimately show ?thesis by blast
qed

lemma decoded_block_sizes_table: "decoded_block_sizes_data = [0, - 1, 1, 2, - 1, 3, 4, 5, - 1, 6, 7, 8]"
  by code_simp

lemma decoded_block_sizes_cases:
  "n < 12 \<Longrightarrow> 0 < decoded_block_sizes n \<Longrightarrow> nat (decoded_block_sizes n) \<in> {1..8} \<and>
     encoded_block_sizes ! nat (decoded_block_sizes n) = n"
proof -
  have "[0..<12] = [0, 1, 2, 3, 4, 5, 6, 7, 8, 9, 10, 11 :: nat]" by code_simp
  moreover assume "n < 12" "0 < decoded_block_sizes n"
  moreover from this have "n \<in> set [0..<12]" by simp
  ultimately show ?thesis
    unfolding decoded_block_sizes_def decoded_block_sizes_table encoded_block_sizes_def by auto
qed

text \<open>What encoding a block writes.\<close>

definition block58 :: "bytes \<Rightarrow> bytes" where
  "block58 b = letters58 (digits58 (encoded_block_sizes ! length b) (le_val (rev b)))"

lemma length_block58 [simp]: "length (block58 b) = encoded_block_sizes ! length b"
  by (simp add: block58_def letters58_def)

lemma encode_block_eq:
  assumes "length b \<in> {1..8}" and "off + encoded_block_sizes ! length b \<le> length res"
    and "\<forall>j < encoded_block_sizes ! length b. res ! (off + j) = alphabet ! 0"
  shows "encode_block b off res = Some (copy_at res off (block58 b))"
proof -
  have u: "unat (uint_8be_to_64 b) = le_val (rev b)" using assms(1) by (intro unat_8be) simp
  have "le_val (rev b) < 256 ^ length b" using le_val_bound [of "rev b"] by simp
  also have "\<dots> \<le> 58 ^ (encoded_block_sizes ! length b)" using encoded_block_sizes_cases [OF assms(1)] by simp
  finally show ?thesis
    using encode_block_loop_digits [OF _ assms(2,3), of "uint_8be_to_64 b"]
    by (simp add: encode_block_def u block58_def)
qed

subsection \<open>Decoding a block\<close>

definition digit58 :: "u8 \<Rightarrow> nat" where
  "digit58 c = nat (reverse_alphabet c)"

lemma digit58_less: "0 \<le> reverse_alphabet c \<Longrightarrow> digit58 c < 58"
  using reverse_alphabet_digit [of c] by (auto simp: digit58_def)

lemma decode_block_loop_val:
  assumes "length cs + j \<le> 11" and "unat ord = 58 ^ j mod 2 ^ 64"
  shows "decode_block_loop cs acc ord =
    (if (\<forall>c \<in> set cs. 0 \<le> reverse_alphabet c) \<and> unat acc + 58 ^ j * val58 (map digit58 cs) < 2 ^ 64
     then Some (of_nat (unat acc + 58 ^ j * val58 (map digit58 cs))) else None)"
  using assms
proof (induction cs arbitrary: j acc ord)
  case Nil
  then show ?case using unat_bound_64 [of acc] by simp
next
  case (Cons c cs)
  show ?case
  proof (cases "0 \<le> reverse_alphabet c")
    case False
    then show ?thesis by (simp add: Let_def)
  next
    case True
    define d where "d = digit58 c"
    have d: "d < 58" "reverse_alphabet c = int d" using True digit58_less [of c] by (simp_all add: d_def digit58_def)
    have "(58::nat) ^ j \<le> 58 ^ 10" using Cons.prems(1) by (intro power_increasing) simp_all
    then have o: "unat ord = 58 ^ j" using Cons.prems(2) by simp
    obtain lo hi where m: "mul128 ord (of_nat d) = Some (lo, hi)" by (rule mul128_total)
    have "unat (of_nat d :: u64) = d" using d by (simp add: unat_of_nat)
    then have mv: "unat hi * 2 ^ 64 + unat lo = 58 ^ j * d" using mul128_exact [OF m] o by simp
    define rest where "rest = 58 ^ Suc j * val58 (map digit58 cs)"
    have tot: "58 ^ j * val58 (map digit58 (c # cs)) = 58 ^ j * d + rest"
      by (simp add: rest_def d_def algebra_simps)
    have o': "unat (ord * 58) = 58 ^ Suc j mod 2 ^ 64" using o by (simp add: wnat mult.commute)
    show ?thesis
    proof (cases "hi = 0 \<and> \<not> acc + lo < acc")
      case ok: True
      have lo: "unat lo = 58 ^ j * d" using mv ok by simp
      have s: "unat (acc + lo) = unat acc + 58 ^ j * d" using ok lo by (simp add: add_carry_iff wnat)
      have "decode_block_loop (c # cs) acc ord = decode_block_loop cs (acc + lo) (ord * 58)"
        using d m ok by (simp add: Let_def)
      also have "\<dots> = (if (\<forall>c \<in> set cs. 0 \<le> reverse_alphabet c) \<and> unat (acc + lo) + rest < 2 ^ 64
         then Some (of_nat (unat (acc + lo) + rest)) else None)"
        unfolding rest_def using Cons.prems(1) o' by (intro Cons.IH) simp_all
      finally show ?thesis using True unfolding tot s by (simp add: add.assoc)
    next
      case bad: False
      have "2 ^ 64 \<le> unat acc + 58 ^ j * d"
      proof (cases "hi = 0")
        case True
        then show ?thesis using bad mv by (simp add: add_carry_iff)
      next
        case False
        then have "1 \<le> unat hi" by (simp add: Suc_le_eq unat_gt_0)
        then have "2 ^ 64 \<le> unat hi * 2 ^ 64" by simp
        then show ?thesis using mv by linarith
      qed
      moreover have "decode_block_loop (c # cs) acc ord = None"
        using d m bad by (auto simp: Let_def)
      ultimately show ?thesis unfolding tot by simp
    qed
  qed
qed

lemma block_limit:
  assumes "n < 8" shows "push_bit (8 * n) (1 :: u64) \<le> v \<longleftrightarrow> 256 ^ n \<le> unat v"
proof -
  have "(2::nat) ^ (8 * n) < 2 ^ 64" using assms by (intro power_strict_increasing) simp_all
  then have "unat (push_bit (8 * n) (1 :: u64)) = 2 ^ (8 * n)"
    using unat_push_bit_mult [of "8 * n" "1 :: u64"] by simp
  then show ?thesis by (simp only: word_le_nat_alt) (simp add: power_mult)
qed

lemma power_256_le: "n \<le> 8 \<Longrightarrow> (256::nat) ^ n \<le> 2 ^ 64"
  using power_increasing [of n 8 "256 :: nat"] by simp

lemma digit58_letters58: "\<forall>d \<in> set ds. d < 58 \<Longrightarrow> map digit58 (letters58 ds) = ds"
  by (induction ds) (simp_all add: letters58_def digit58_def reverse_alphabet_letter)

lemma letters58_digit58: "\<forall>c \<in> set s. 0 \<le> reverse_alphabet c \<Longrightarrow> letters58 (map digit58 s) = s"
  by (induction s) (simp_all add: letters58_def digit58_def reverse_alphabet_digit)

lemma letters58_valid: "\<forall>d \<in> set ds. d < 58 \<Longrightarrow> c \<in> set (letters58 ds) \<Longrightarrow> 0 \<le> reverse_alphabet c"
  by (auto simp: letters58_def reverse_alphabet_letter)

lemma decode_block_loop_start:
  "length s \<le> 11 \<Longrightarrow> decode_block_loop (rev s) 0 1 =
    (if (\<forall>c \<in> set s. 0 \<le> reverse_alphabet c) \<and> val58 (rev (map digit58 s)) < 2 ^ 64
     then Some (of_nat (val58 (rev (map digit58 s)))) else None)"
  using decode_block_loop_val [of "rev s" 0 1 0] by (simp add: rev_map)

lemma decode_block_block58:
  assumes n: "length b \<in> {1..8}" shows "decode_block (block58 b) = Some b"
proof -
  define v where "v = le_val (rev b)"
  define k where "k = encoded_block_sizes ! length b"
  note tab = encoded_block_sizes_cases [OF n, folded k_def]
  have v: "v < 256 ^ length b" using le_val_bound [of "rev b"] by (simp add: v_def)
  then have v64: "v < 2 ^ 64" using power_256_le [of "length b"] n by simp
  have s: "block58 b = letters58 (digits58 k v)" by (simp add: block58_def v_def k_def)
  have "\<forall>d \<in> set (digits58 k v). d < 58" by (auto dest: digits58_less)
  then have "decode_block_loop (rev (block58 b)) 0 1 = Some (of_nat v)"
    using tab v v64 decode_block_loop_start [of "block58 b"] letters58_valid [of "digits58 k v"]
    by (simp add: s digit58_letters58 val58_digits58 length_letters58)
  moreover have "(of_nat v :: u64) = uint_8be_to_64 b"
    using n v64 by (intro word_eq_unatI) (simp add: unat_8be unat_of_nat v_def)
  moreover have "\<not> (length b < 8 \<and> push_bit (8 * length b) (1 :: u64) \<le> of_nat v)"
    using v v64 block_limit [of "length b" "of_nat v"] by (auto simp: unat_of_nat)
  moreover have "b \<noteq> []" using n by auto
  ultimately show ?thesis using n tab by (simp add: decode_block_def Let_def uint_8be_roundtrip k_def)
qed

lemma decode_block_canonical:
  assumes s: "length s \<le> 11" and d: "decode_block s = Some b"
  shows "length b \<in> {1..8} \<and> block58 b = s"
proof -
  define n where "n = nat (decoded_block_sizes (length s))"
  define v where "v = val58 (rev (map digit58 s))"
  have pos: "0 < decoded_block_sizes (length s)" using d by (auto simp: decode_block_def Let_def split: if_splits)
  have n: "n \<in> {1..8}" "encoded_block_sizes ! n = length s"
    using decoded_block_sizes_cases [OF _ pos] s by (simp_all add: n_def)
  have valid: "\<forall>c \<in> set s. 0 \<le> reverse_alphabet c" and v: "v < 2 ^ 64"
    and lim: "\<not> (n < 8 \<and> push_bit (8 * n) (1 :: u64) \<le> of_nat v)"
    and b: "b = uint_64_to_8be (of_nat v) n"
    using d pos decode_block_loop_start [OF s]
    by (auto simp: decode_block_def Let_def v_def n_def split: if_splits)
  have u: "unat (of_nat v :: u64) = v" using v by (simp add: unat_of_nat)
  have vn: "v < 256 ^ n"
  proof (cases "n < 8")
    case True
    then show ?thesis using lim u block_limit [of n "of_nat v"] by simp
  next
    case False
    then have "n = 8" using n by simp
    then show ?thesis using v by simp
  qed
  have rb: "rev b = le_bytes n (of_nat v :: u64)" using n b by (simp add: uint_64_to_8be_rev)
  have len: "length b = n" using arg_cong [OF rb, of length] by simp
  have "le_val (rev b) = v" unfolding rb using n vn u by (subst le_val_le_bytes) simp_all
  then have "block58 b = letters58 (digits58 (length (map digit58 s)) v)"
    using len n by (simp add: block58_def)
  also have "digits58 (length (map digit58 s)) v = map digit58 s"
    unfolding v_def using valid by (intro digits58_val58) (auto intro: digit58_less)
  finally show ?thesis using len n valid by (simp add: letters58_digit58)
qed

subsection \<open>Encoding and decoding strings\<close>

text \<open>The full blocks of a string, encoded one after the other, and decoded one after the other.\<close>

fun blocks58 :: "nat \<Rightarrow> bytes \<Rightarrow> bytes" where
  "blocks58 0 d = []"
| "blocks58 (Suc k) d = block58 (take 8 d) @ blocks58 k (drop 8 d)"

fun unblocks58 :: "nat \<Rightarrow> bytes \<Rightarrow> bytes option" where
  "unblocks58 0 s = Some []"
| "unblocks58 (Suc k) s = do { a \<leftarrow> decode_block (take 11 s); b \<leftarrow> unblocks58 k (drop 11 s); Some (a @ b) }"

lemma ebs_8 [simp]: "encoded_block_sizes ! 8 = 11" and ebs_0 [simp]: "encoded_block_sizes ! 0 = 0"
  by (simp_all add: encoded_block_sizes_def)

lemma length_blocks58: "8 * k \<le> length d \<Longrightarrow> length (blocks58 k d) = 11 * k"
  by (induction k arbitrary: d) simp_all

lemma blocks58_snoc: "blocks58 (Suc n) d = blocks58 n d @ block58 (take 8 (drop (8 * n) d))"
proof (induction n arbitrary: d)
  case (Suc n)
  have "blocks58 (Suc (Suc n)) d = block58 (take 8 d) @ blocks58 (Suc n) (drop 8 d)"
    by (rule blocks58.simps(2))
  also have "\<dots> = blocks58 (Suc n) d @ block58 (take 8 (drop (8 * Suc n) d))"
    unfolding Suc [of "drop 8 d"] by (simp add: add.commute)
  finally show ?case .
qed simp

lemma unblocks_blocks: "8 * k \<le> length d \<Longrightarrow> unblocks58 k (blocks58 k d @ t) = Some (take (8 * k) d)"
proof (induction k arbitrary: d)
  case (Suc k)
  then have "unblocks58 k (blocks58 k (drop 8 d) @ t) = Some (take (8 * k) (drop 8 d))" by simp
  moreover have "take 8 d @ take (8 * k) (drop 8 d) = take (8 * Suc k) d"
    by (simp add: take_add [symmetric])
  ultimately show ?case using Suc.prems decode_block_block58 [of "take 8 d"] by simp
qed simp

lemma blocks_unblocks:
  "11 * k \<le> length s \<Longrightarrow> unblocks58 k s = Some a \<Longrightarrow> length a = 8 * k \<and> blocks58 k (a @ t) = take (11 * k) s"
proof (induction k arbitrary: s a)
  case (Suc k)
  then obtain b c where bc: "decode_block (take 11 s) = Some b" "unblocks58 k (drop 11 s) = Some c" "a = b @ c"
    by (auto split: Option.bind_splits)
  have b: "length b \<in> {1..8} \<and> block58 b = take 11 s" using decode_block_canonical [OF _ bc(1)] by simp
  then have "encoded_block_sizes ! length b = 11" using Suc.prems length_block58 [of b] by simp
  moreover have "decoded_block_sizes (encoded_block_sizes ! length b) = int (length b)"
    using b encoded_block_sizes_cases by blast
  moreover have "decoded_block_sizes 11 = 8" by (simp add: decoded_block_sizes_def decoded_block_sizes_table)
  ultimately have l: "length b = 8" by simp
  have "length c = 8 * k \<and> blocks58 k (c @ t) = take (11 * k) (drop 11 s)"
    using Suc.IH [OF _ bc(2)] Suc.prems by simp
  then show ?case using b l bc(3) by (simp add: take_add [symmetric])
qed simp

lemma copy_at_copy_at: "off \<le> length d \<Longrightarrow> copy_at (copy_at d off a) (off + length a) b = copy_at d off (a @ b)"
  by (simp add: copy_at_def ac_simps)

lemma copy_at_all: "length a = length d \<Longrightarrow> copy_at d 0 a = a"
  by (simp add: copy_at_def)

lemma encode_loop:
  assumes "8 * n \<le> length d" and "11 * n \<le> m"
  shows "opt_fold (\<lambda>i res. encode_block (take 8 (drop (i * 8) d)) (i * 11) res) [0..<n] (replicate m (alphabet ! 0))
    = Some (blocks58 n d @ replicate (m - 11 * n) (alphabet ! 0))"
  using assms
proof (induction n)
  case (Suc n)
  define res where "res = blocks58 n d @ replicate (m - 11 * n) (alphabet ! 0)"
  have l: "length (blocks58 n d) = 11 * n" using Suc.prems by (intro length_blocks58) simp
  define blk where "blk = take 8 (drop (n * 8) d)"
  have blk: "length blk = 8" using Suc.prems by (simp add: blk_def)
  have "encode_block blk (n * 11) res = Some (copy_at res (n * 11) (block58 blk))"
    using Suc.prems blk l by (intro encode_block_eq) (simp_all add: res_def nth_append)
  also have "copy_at res (n * 11) (block58 blk) = blocks58 n d @ block58 blk @ replicate (m - 11 * Suc n) (alphabet ! 0)"
    using l blk Suc.prems by (simp add: copy_at_def res_def)
  also have "\<dots> = blocks58 (Suc n) d @ replicate (m - 11 * Suc n) (alphabet ! 0)"
    using blocks58_snoc [of n d] by (simp add: blk_def mult.commute)
  finally show ?case using Suc by (simp add: opt_fold_append blk_def res_def)
qed simp

lemma encode_eq:
  "encode d = Some (blocks58 (length d div 8) d @
     (if length d mod 8 = 0 then [] else block58 (drop (8 * (length d div 8)) d)))"
proof (cases "d = []")
  case False
  define n l where "n = length d div 8" and "l = length d mod 8"
  define last where "last = drop (8 * n) d"
  define ones where "ones = replicate (encoded_block_sizes ! l) (alphabet ! 0)"
  have len: "length d = 8 * n + l" "l < 8" by (simp_all add: n_def l_def)
  then have last: "take l (drop (n * 8) d) = last" "length last = l" by (simp_all add: last_def mult.commute)
  have "opt_fold (\<lambda>i res. encode_block (take 8 (drop (i * 8) d)) (i * 11) res) [0..<n]
      (replicate (n * 11 + encoded_block_sizes ! l) (alphabet ! 0)) = Some (blocks58 n d @ ones)"
    using encode_loop [of n d "n * 11 + encoded_block_sizes ! l"] len by (simp add: ones_def mult.commute)
  moreover have "encode_block last (n * 11) (blocks58 n d @ ones) = Some (blocks58 n d @ block58 last)" if "0 < l"
  proof -
    have b: "length (blocks58 n d) = 11 * n" using len by (intro length_blocks58) simp
    have "encode_block last (n * 11) (blocks58 n d @ ones) = Some (copy_at (blocks58 n d @ ones) (n * 11) (block58 last))"
      using that len last b by (intro encode_block_eq) (auto simp: ones_def nth_append)
    then show ?thesis using b last by (simp add: copy_at_def ones_def)
  qed
  ultimately show ?thesis
    using False last unfolding encode_def Let_def n_def [symmetric] l_def [symmetric] last_def [symmetric]
    by (auto simp: ones_def)
qed (simp add: encode_def)

lemma length_decode_block: "length s \<le> 11 \<Longrightarrow> decode_block s = Some b \<Longrightarrow> int (length b) = decoded_block_sizes (length s)"
  using decode_block_canonical [of s b] encoded_block_sizes_cases [of "length b"] by (metis length_block58)

lemma unblocks58_snoc:
  "unblocks58 (Suc n) s = do { a \<leftarrow> unblocks58 n s; b \<leftarrow> decode_block (take 11 (drop (11 * n) s)); Some (a @ b) }"
proof (induction n arbitrary: s)
  case 0
  then show ?case by (simp split: Option.bind_splits)
next
  case (Suc n)
  have "unblocks58 (Suc (Suc n)) s = do { a \<leftarrow> decode_block (take 11 s); b \<leftarrow> unblocks58 (Suc n) (drop 11 s); Some (a @ b) }"
    by (rule unblocks58.simps(2))
  also have "\<dots> = do { a \<leftarrow> unblocks58 (Suc n) s; b \<leftarrow> decode_block (take 11 (drop (11 * Suc n) s)); Some (a @ b) }"
    unfolding Suc [of "drop 11 s"] by (simp add: add.commute split: Option.bind_splits)
  finally show ?case .
qed

lemma decode_loop:
  assumes "11 * n \<le> length s" and "8 * n \<le> m"
  shows "opt_fold (\<lambda>i data. do { b \<leftarrow> decode_block (take 11 (drop (i * 11) s)); Some (copy_at data (i * 8) b) })
      [0..<n] (replicate m 0) = map_option (\<lambda>a. a @ replicate (m - 8 * n) 0) (unblocks58 n s)"
  using assms
proof (induction n)
  case (Suc n)
  show ?case
  proof (cases "unblocks58 n s")
    case None
    then show ?thesis using Suc unblocks58_snoc [of n s] by (simp add: opt_fold_append)
  next
    case (Some a)
    then have a: "length a = 8 * n" using blocks_unblocks [OF _ Some, of "[]"] Suc.prems by simp
    show ?thesis
    proof (cases "decode_block (take 11 (drop (11 * n) s))")
      case None
      then show ?thesis using Some Suc unblocks58_snoc [of n s]
        by (simp add: opt_fold_append mult.commute)
    next
      case b: (Some b)
      then have "length b = 8"
        using length_decode_block [OF _ b] Suc.prems
        by (simp add: decoded_block_sizes_def decoded_block_sizes_table)
      then have "copy_at (a @ replicate (m - 8 * n) 0) (n * 8) b = (a @ b) @ replicate (m - 8 * Suc n) 0"
        using a by (simp add: copy_at_def)
      then show ?thesis using Some b Suc unblocks58_snoc [of n s]
        by (simp add: opt_fold_append mult.commute)
    qed
  qed
qed simp

lemma decode_eq:
  "decode s = do { a \<leftarrow> unblocks58 (length s div 11) s;
     b \<leftarrow> (if length s mod 11 = 0 then Some [] else decode_block (drop (11 * (length s div 11)) s));
     Some (a @ b) }"
proof (cases "s = []")
  case False
  define n l where "n = length s div 11" and "l = length s mod 11"
  define last where "last = drop (11 * n) s"
  define dl where "dl = decoded_block_sizes l"
  have len: "length s = 11 * n + l" "l < 11" by (simp_all add: n_def l_def)
  then have last: "take l (drop (n * 11) s) = last" "length last = l" by (simp_all add: last_def mult.commute)
  have loop: "opt_fold (\<lambda>i data. do { b \<leftarrow> decode_block (take 11 (drop (i * 11) s)); Some (copy_at data (i * 8) b) })
      [0..<n] (replicate (n * 8 + nat dl) 0) = map_option (\<lambda>a. a @ replicate (nat dl) 0) (unblocks58 n s)"
    using decode_loop [of n s "n * 8 + nat dl"] len by (simp add: mult.commute)
  have bad: "decode_block last = None" if "dl < 0"
    using that last by (simp add: decode_block_def dl_def)
  have dl0: "dl = 0" if "l = 0" using that by (simp add: dl_def decoded_block_sizes_def decoded_block_sizes_table)
  have len_b: "length b = nat dl" if "decode_block last = Some b" for b
    using length_decode_block [OF _ that] last len by (simp add: dl_def)
  have len_a: "length a = n * 8" if "unblocks58 n s = Some a" for a
    using blocks_unblocks [OF _ that, of "[]"] len by simp
  have dec: "decode s = (if dl < 0 then None
      else do { a \<leftarrow> unblocks58 n s;
        if 0 < l then do { b \<leftarrow> decode_block last; Some (copy_at (a @ replicate (nat dl) 0) (n * 8) b) }
        else Some (a @ replicate (nat dl) 0) })"
    using False unfolding decode_def Let_def n_def [symmetric] l_def [symmetric] dl_def [symmetric] last loop
    by (simp add: bind_map_option comp_def)
  show ?thesis
    unfolding dec n_def [symmetric] l_def [symmetric] last_def [symmetric]
    using bad dl0 by (auto simp: copy_at_def len_a len_b split: Option.bind_splits)
qed (simp add: decode_def)

lemma encode_decode_blocks: "decode s = Some d \<longleftrightarrow> encode d = Some s"
proof
  assume "decode s = Some d"
  define n l where "n = length s div 11" and "l = length s mod 11"
  define last where "last = drop (11 * n) s"
  have len: "length s = 11 * n + l" "l < 11" by (simp_all add: n_def l_def)
  obtain a b where ab: "unblocks58 n s = Some a" "d = a @ b"
      "(if l = 0 then Some [] else decode_block last) = Some b"
    using \<open>decode s = Some d\<close> unfolding decode_eq n_def l_def last_def by (auto split: Option.bind_splits)
  have a: "length a = 8 * n \<and> blocks58 n (a @ b) = take (11 * n) s"
    using blocks_unblocks [OF _ ab(1)] len by simp
  have b: "length b < 8 \<and> (if length b = 0 then [] else block58 b) = last"
  proof (cases "l = 0")
    case True
    then show ?thesis using ab(3) len by (simp add: last_def)
  next
    case False
    have ll: "length last = l" using len by (simp add: last_def)
    then have *: "length b \<in> {1..8} \<and> block58 b = last"
      using decode_block_canonical [of last b] ab(3) False len by simp
    then have "length b \<noteq> 8" using ll len length_block58 [of b] by auto
    then show ?thesis using * by auto
  qed
  have "length d div 8 = n" "length d mod 8 = length b" "drop (8 * n) d = b" using a b ab(2) by auto
  moreover have "take (11 * n) s @ last = s" by (simp add: last_def)
  ultimately show "encode d = Some s" using a ab(2) conjunct2 [OF b] by (simp only: encode_eq)
next
  assume enc: "encode d = Some s"
  define n l where "n = length d div 8" and "l = length d mod 8"
  define last where "last = drop (8 * n) d"
  have len: "length d = 8 * n + l" "l < 8" by (simp_all add: n_def l_def)
  have ll: "length last = l" using len by (simp add: last_def)
  have s: "s = blocks58 n d @ (if l = 0 then [] else block58 last)"
    using enc unfolding encode_eq n_def l_def last_def by simp
  have b: "length (blocks58 n d) = 11 * n" using len by (intro length_blocks58) simp
  have e: "l \<noteq> 0 \<Longrightarrow> 0 < encoded_block_sizes ! l \<and> encoded_block_sizes ! l < 11"
    using len less_8_cases [of l] by (auto simp: encoded_block_sizes_def)
  have "unblocks58 n s = Some (take (8 * n) d)"
    unfolding s using len by (intro unblocks_blocks) simp
  moreover have "l \<noteq> 0 \<Longrightarrow> decode_block (block58 last) = Some last"
    using ll len by (intro decode_block_block58) simp
  moreover have "take (8 * n) d @ last = d" by (simp add: last_def)
  moreover have "length s div 11 = n" "length s mod 11 = (if l = 0 then 0 else encoded_block_sizes ! l)"
      "drop (11 * n) s = (if l = 0 then [] else block58 last)"
    using b e ll by (auto simp: s)
  ultimately show "decode s = Some d" using e ll len by (auto simp: decode_eq)
qed

subsection \<open>Addresses\<close>

lemma read_varint_loop_rest:
  "read_varint_loop L sh r acc bs = Inr (n, v, rest) \<Longrightarrow>
    r \<le> n \<and> rest = drop (n - r) bs \<and> (rest \<noteq> [] \<longrightarrow> r < n \<and> unat (bs ! (n - r - 1)) < 128)"
proof (induction bs arbitrary: sh r acc)
  case (Cons b bs)
  show ?case
  proof (cases "b AND 0x80 = 0")
    case True
    then show ?thesis using Cons.prems by (auto simp: Let_def and_80_eq_0 split: if_splits)
  next
    case False
    then have *: "Suc r \<le> n \<and> rest = drop (n - Suc r) bs \<and> (rest \<noteq> [] \<longrightarrow> Suc r < n \<and> unat (bs ! (n - Suc r - 1)) < 128)"
      using Cons.prems by (intro Cons.IH) (auto simp: Let_def split: if_splits)
    then have "n - r = Suc (n - Suc r)" "rest \<noteq> [] \<Longrightarrow> n - r - 1 = Suc (n - Suc r - 1)" by auto
    with * show ?thesis by auto
  qed
qed simp

lemma read_varint_canonical:
  assumes "read_varint bs = Inr (n, v :: u64, rest)" and "rest \<noteq> []"
  shows "bs = get_varint_data v @ rest \<and> n = length (get_varint_data v)"
proof -
  have n: "0 < n" "unat (bs ! (n - 1)) < 128"
    using read_varint_loop_rest [of 64 0 0 0 bs n v rest] assms by (auto simp: read_varint_def)
  obtain i :: u64 where "bs = write_varint i @ rest" "n = length (write_varint i)" "unat v = unat i"
    using read_varint_loop_canonical [of 0 0 0 bs n v rest] assms n by (auto simp: read_varint_def)
  then show ?thesis by (simp add: get_varint_data_def word_eq_unatI [of v i])
qed

lemma decode_addr_of_payload:
  assumes "encode (p @ take 4 (cn_fast_hash p)) = Some s" and "p \<noteq> []"
  shows "decode_addr s = (case read_varint p of Inl _ \<Rightarrow> None
     | Inr (rd, tag, _) \<Rightarrow> if rd = 0 then None else Some (tag, drop rd p))"
proof -
  define buf where "buf = p @ take 4 (cn_fast_hash p)"
  have "decode s = Some buf" using assms(1) by (simp add: encode_decode_blocks buf_def)
  moreover have "length buf = length p + 4" unfolding buf_def by (rule cn_hash.checksum_length) simp
  moreover have "take (length buf - 4) buf = p" "drop (length buf - 4) buf = take 4 (cn_fast_hash p)"
    using cn_hash.checksum_split [of 4 p] by (simp_all add: buf_def)
  ultimately show ?thesis using assms(2) by (simp add: decode_addr_def)
qed

lemma write_varint_nonempty: "write_varint v \<noteq> []"
  by (subst write_varint.simps) simp

subsection \<open>Properties\<close>

text \<open>C21: decoding and encoding are exact inverses: \<open>decode\<close> accepts a string precisely when it is what
  \<open>encode\<close> produces for the bytes returned, so every byte string round-trips and no two strings
  decode to the same bytes.\<close>

theorem base58_inverse: "decode s = Some d \<longleftrightarrow> encode d = Some s"
  by (rule encode_decode_blocks)

text \<open>C22: encoding never writes outside its result string, and the result has 11 characters for each full
  block of 8 bytes plus the tabulated size of the last block.\<close>

theorem base58_encode_total:
  "\<exists>s. encode d = Some s \<and> length s = 11 * (length d div 8) + encoded_block_sizes ! (length d mod 8)"
proof -
  have "length (blocks58 (length d div 8) d) = 11 * (length d div 8)" by (intro length_blocks58) simp
  then show ?thesis by (auto simp: encode_eq minus_mult_div_eq_mod)
qed

text \<open>C23: an address string encodes its tag and data reversibly: \<open>encode_addr\<close> always produces a string, and
  \<open>decode_addr\<close> returns exactly the tag and the data it was made from.\<close>

theorem addr_roundtrip: "\<exists>s. encode_addr tag data = Some s \<and> decode_addr s = Some (tag, data)"
proof -
  define p where "p = get_varint_data tag @ data"
  obtain s where s: "encode (p @ take 4 (cn_fast_hash p)) = Some s" by (auto simp: encode_eq)
  moreover have "read_varint p = Inr (length (get_varint_data tag), tag, data)"
    by (simp add: p_def get_varint_data_def read_write_varint)
  moreover have "p \<noteq> []" "length (get_varint_data tag) \<noteq> 0"
    by (simp_all add: p_def get_varint_data_def write_varint_nonempty)
  ultimately show ?thesis
    using decode_addr_of_payload [OF s] by (simp add: encode_addr_def p_def Let_def)
qed

text \<open>C24: an address is accepted only in its canonical form: when \<open>decode_addr\<close> returns a tag and some
  data, the string is the one \<open>encode_addr\<close> makes of them, checksum included.\<close>

theorem addr_canonical:
  assumes "decode_addr s = Some (tag, data)" and "data \<noteq> []"
  shows "encode_addr tag data = Some s"
proof -
  obtain buf where buf: "decode s = Some buf" "4 < length buf"
    using assms(1) by (auto simp: decode_addr_def split: Option.bind_splits if_splits)
  define p where "p = take (length buf - 4) buf"
  obtain rd rest where r: "drop (length buf - 4) buf = take 4 (cn_fast_hash p)" "read_varint p = Inr (rd, tag, rest)"
      "data = drop rd p"
    using assms(1) buf by (auto simp: decode_addr_def p_def Let_def split: if_splits sum.splits)
  have "rest = drop rd p" using read_varint_loop_rest r(2) by (fastforce simp: read_varint_def)
  then have "rest = data" using r(3) by simp
  then have "p = get_varint_data tag @ data" using read_varint_canonical [OF r(2)] assms(2) by blast
  moreover have "p @ take 4 (cn_fast_hash p) = buf" unfolding r(1) [symmetric] by (simp add: p_def)
  ultimately show ?thesis using buf by (simp add: encode_addr_def Let_def flip: encode_decode_blocks)
qed

theorem addr_canonical_witness:
  "\<exists>s. decode_addr s = Some (18, [7]) \<and> encode_addr 18 [7] = Some s"
proof -
  define p :: bytes where "p = [18, 7]"
  obtain s where s: "encode (p @ take 4 (cn_fast_hash p)) = Some s" by (auto simp: encode_eq)
  have "decode_addr s = Some (18, [7])"
    using decode_addr_of_payload [OF s] by (simp add: p_def read_varint_def)
  then show ?thesis using addr_canonical [of s 18 "[7]"] by blast
qed

text \<open>the tag of an address may be cut short: a payload that is a varint without its last byte is
  accepted as a tag with empty data, although no call of \<open>encode_addr\<close> produces it.\<close>

theorem addr_truncated_tag:
  "\<exists>s. decode_addr s = Some (0, []) \<and> encode_addr 0 [] \<noteq> Some s"
proof -
  obtain s where s: "encode ([0x80] @ take 4 (cn_fast_hash [0x80])) = Some s" by (auto simp: encode_eq)
  have "decode_addr s = Some (0, [])"
    using decode_addr_of_payload [OF s] by (simp add: read_varint_def)
  moreover have "decode s \<noteq> Some ([0] @ take 4 (cn_fast_hash [0]))"
    using s by (simp flip: encode_decode_blocks)
  then have "encode_addr 0 [] \<noteq> Some s"
    by (simp add: encode_addr_def Let_def encode_decode_blocks get_varint_data_def write_varint.simps)
  ultimately show ?thesis by blast
qed

end
