(* ===== verification/Difficulty.thy ===== *)
theory Difficulty
  imports Int_Util "HOL-Library.Multiset"
begin

text \<open>
  Proof-of-work difficulty, \<open>src/cryptonote_basic/difficulty.cpp\<close>: the test of a hash against a
  difficulty with 64-bit limbs (\<open>check_hash_64\<close>) and with 512-bit arithmetic (\<open>check_hash_128\<close>), the
  difficulty of the next block from a window of timestamps and cumulative difficulties in both widths,
  and the hexadecimal printer.  A hash is its 32 bytes; \<open>difficulty_type\<close> is a 128-bit word whose
  arithmetic wraps as the unchecked multiprecision type does.  A failed \<open>assert\<close> is \<open>None\<close>.  The lemmas show
  that both tests decide \<open>hash * difficulty < 2^256\<close> over the natural numbers, that the retargeting is
  the rounded-up quotient of work times target by time span with its overflow branch, and that both
  widths agree.
\<close>

unbundle bit_operations_syntax

subsection \<open>Products and carries\<close>

text \<open>The build for x86-64 uses \<open>mul128\<close>; the portable multiplication serves the other targets.\<close>

definition mul :: "u64 \<Rightarrow> u64 \<Rightarrow> (u64 \<times> u64) option" where
  "mul a b = mul128 a b"

definition mul_portable :: "u64 \<Rightarrow> u64 \<Rightarrow> u64 \<times> u64" where
  "mul_portable a b =
    (let aLow = a AND 0xFFFFFFFF; aHigh = drop_bit 32 a;
         bLow = b AND 0xFFFFFFFF; bHigh = drop_bit 32 b;
         res = aLow * bLow; lowRes1 = res AND 0xFFFFFFFF; carry = drop_bit 32 res;
         res = aHigh * bLow + carry; highResHigh1 = drop_bit 32 res; highResLow1 = res AND 0xFFFFFFFF;
         res = aLow * bHigh; lowRes2 = res AND 0xFFFFFFFF; carry = drop_bit 32 res;
         res = aHigh * bHigh + carry; highResHigh2 = drop_bit 32 res; highResLow2 = res AND 0xFFFFFFFF;
         r = highResLow1 + lowRes2; carry = drop_bit 32 r; low = push_bit 32 r OR lowRes1;
         r = highResHigh1 + highResLow2 + carry; d3 = r AND 0xFFFFFFFF; carry = drop_bit 32 r;
         r = highResHigh2 + carry; high = d3 OR push_bit 32 r
     in (low, high))"

definition cadd :: "u64 \<Rightarrow> u64 \<Rightarrow> bool" where
  "cadd a b \<longleftrightarrow> a + b < a"

definition cadc :: "u64 \<Rightarrow> u64 \<Rightarrow> bool \<Rightarrow> bool" where
  "cadc a b c \<longleftrightarrow> a + b < a \<or> (c \<and> a + b = - 1)"

definition load_u64_from_hash :: "bytes \<Rightarrow> nat \<Rightarrow> u64 option" where
  "load_u64_from_hash hash index = (if index < 32 div 8 then Some (le_word (take 8 (drop (index * 8) hash))) else None)"

subsection \<open>Testing a hash\<close>

definition check_hash_64 :: "bytes \<Rightarrow> u64 \<Rightarrow> bool option" where
  "check_hash_64 hash difficulty = do {
    word \<leftarrow> load_u64_from_hash hash 3;
    (top, high) \<leftarrow> mul word difficulty;
    if high \<noteq> 0 then Some False
    else do {
      word \<leftarrow> load_u64_from_hash hash 0;
      (low, cur) \<leftarrow> mul word difficulty;
      word \<leftarrow> load_u64_from_hash hash 1;
      (low, high) \<leftarrow> mul word difficulty;
      let carry = cadd cur low;
      let cur = high;
      word \<leftarrow> load_u64_from_hash hash 2;
      (low, high) \<leftarrow> mul word difficulty;
      let carry = cadc cur low carry;
      let carry = cadc high top carry;
      Some (\<not> carry) } }"

definition max64bit :: u128 where "max64bit = 0xffffffffffffffff"
definition max128bit :: u256 where "max128bit = mask 128"
definition max256bit :: u512 where "max256bit = mask 256"

definition check_hash_128 :: "bytes \<Rightarrow> u128 \<Rightarrow> bool option" where
  "check_hash_128 hash difficulty = do {
    hashVal \<leftarrow> opt_fold (\<lambda>i hashVal. do {
      word \<leftarrow> load_u64_from_hash hash (3 - i);
      Some (push_bit 64 hashVal OR ucast word) }) [0..<4] (0 :: u512);
    Some (hashVal * ucast difficulty \<le> max256bit) }"

definition check_hash :: "bytes \<Rightarrow> u128 \<Rightarrow> bool option" where
  "check_hash hash difficulty =
    (if difficulty \<le> max64bit then check_hash_64 hash (ucast difficulty) else check_hash_128 hash difficulty)"

subsection \<open>The next difficulty\<close>

abbreviation DIFFICULTY_WINDOW :: nat where "DIFFICULTY_WINDOW \<equiv> 720"
abbreviation DIFFICULTY_CUT :: nat where "DIFFICULTY_CUT \<equiv> 60"

text \<open>\<open>vector::resize\<close>, which cuts the end or pads it with value-initialised elements.\<close>

definition resize :: "nat \<Rightarrow> 'a \<Rightarrow> 'a list \<Rightarrow> 'a list" where
  "resize n x xs = take n xs @ replicate (n - length xs) x"

text \<open>The bounds of the window left after cutting the outliers, as both versions compute them.\<close>

definition difficulty_cut :: "nat \<Rightarrow> nat \<times> nat" where
  "difficulty_cut len =
    (if len \<le> DIFFICULTY_WINDOW - 2 * DIFFICULTY_CUT then (0, len)
     else let cut_begin = (len - (DIFFICULTY_WINDOW - 2 * DIFFICULTY_CUT) + 1) div 2
          in (cut_begin, cut_begin + (DIFFICULTY_WINDOW - 2 * DIFFICULTY_CUT)))"

definition next_difficulty_64 :: "u64 list \<Rightarrow> u64 list \<Rightarrow> u64 \<Rightarrow> u64 option" where
  "next_difficulty_64 timestamps cumulative_difficulties target_seconds =
    (let (timestamps, cumulative_difficulties) =
           (if length timestamps > DIFFICULTY_WINDOW
            then (resize DIFFICULTY_WINDOW 0 timestamps, resize DIFFICULTY_WINDOW 0 cumulative_difficulties)
            else (timestamps, cumulative_difficulties));
         len = length timestamps
     in if len \<noteq> length cumulative_difficulties then None
        else if len \<le> 1 then Some 1
        else if \<not> len \<le> DIFFICULTY_WINDOW then None
        else let timestamps = sort timestamps;
                 (cut_begin, cut_end) = difficulty_cut len
             in if \<not> (cut_begin + 2 \<le> cut_end \<and> cut_end \<le> len) then None
                else let time_span = timestamps ! (cut_end - 1) - timestamps ! cut_begin;
                         time_span = (if time_span = 0 then 1 else time_span);
                         total_work = cumulative_difficulties ! (cut_end - 1) - cumulative_difficulties ! cut_begin
                     in if \<not> total_work > 0 then None
                        else do {
                          (low, high) \<leftarrow> mul total_work target_seconds;
                          if high \<noteq> 0 \<or> low + time_span - 1 < low then Some 0
                          else Some ((low + time_span - 1) div time_span) })"

definition next_difficulty :: "u64 list \<Rightarrow> u128 list \<Rightarrow> u64 \<Rightarrow> u128 option" where
  "next_difficulty timestamps cumulative_difficulties target_seconds =
    (let (timestamps, cumulative_difficulties) =
           (if length timestamps > DIFFICULTY_WINDOW
            then (resize DIFFICULTY_WINDOW 0 timestamps, resize DIFFICULTY_WINDOW 0 cumulative_difficulties)
            else (timestamps, cumulative_difficulties));
         len = length timestamps
     in if len \<noteq> length cumulative_difficulties then None
        else if len \<le> 1 then Some 1
        else if \<not> len \<le> DIFFICULTY_WINDOW then None
        else let timestamps = sort timestamps;
                 (cut_begin, cut_end) = difficulty_cut len
             in if \<not> (cut_begin + 2 \<le> cut_end \<and> cut_end \<le> len) then None
                else let time_span = timestamps ! (cut_end - 1) - timestamps ! cut_begin;
                         time_span = (if time_span = 0 then 1 else time_span);
                         total_work = cumulative_difficulties ! (cut_end - 1) - cumulative_difficulties ! cut_begin
                     in if \<not> total_work > 0 then None
                        else let res = (ucast total_work * ucast target_seconds + ucast time_span - 1) div (ucast time_span :: u256)
                             in if res > max128bit then Some 0 else Some (ucast res))"

subsection \<open>Hexadecimal\<close>

definition hex_chars :: string where
  "hex_chars = ''0123456789abcdef''"

text \<open>The digits in the order they are pushed, the least significant first.\<close>

function hex_digits :: "u128 \<Rightarrow> string" where
  "hex_digits v = (if v > 0 then (hex_chars ! unat (v AND 0xf)) # hex_digits (drop_bit 4 v) else [])"
  by pat_completeness auto
termination by (relation "measure unat") (auto simp: wnat word_less_nat_alt)

declare hex_digits.simps [simp del]

definition hex :: "u128 \<Rightarrow> string" where
  "hex v = (let s = hex_digits v; s = (if s = [] then ''0'' else s) in ''0x'' @ rev s)"

subsection \<open>Carries\<close>

lemma cadd_carry: "cadd a b \<longleftrightarrow> 2 ^ 64 \<le> unat a + unat b"
  by (simp add: cadd_def add_carry_iff)

lemma cadc_carry: "cadc a b c \<longleftrightarrow> 2 ^ 64 \<le> unat a + unat b + (if c then 1 else 0)"
proof -
  have m: "a + b = - 1 \<longleftrightarrow> unat (a + b) = 2 ^ 64 - 1"
    using unat_max_64 by (metis word_eq_unatI)
  show ?thesis
  proof (cases "a + b < a")
    case True
    then show ?thesis using add_carry_iff [of a b] by (simp add: cadc_def)
  next
    case False
    then have "unat (a + b) = unat a + unat b" "unat a + unat b < 2 ^ 64"
      by (simp_all add: add_carry_iff wnat)
    then show ?thesis using False m by (auto simp: cadc_def)
  qed
qed

text \<open>A number of four 64-bit limbs times another number, limb by limb: the product stays below the
  fourth power of the base exactly when the carry chain ends without a carry.\<close>

lemma carry_chain_step:
  fixes r M s B :: nat
  assumes "r < M" shows "r + M * s < M * B \<longleftrightarrow> s < B"
proof
  assume "r + M * s < M * B"
  then have "M * s < M * B" by linarith
  then show "s < B" by simp
next
  assume "s < B"
  then have "M * Suc s \<le> M * B" by (intro mult_le_mono2) simp
  then show "r + M * s < M * B" using assms by simp
qed

lemma carry_out:
  fixes s B :: nat
  assumes "s < 2 * B" "0 < B" shows "s = s mod B + B * (if B \<le> s then 1 else 0)"
  using assms by (simp add: le_mod_geq)

lemma limb_carry:
  fixes B :: nat
  assumes B: "0 < B" and l0: "l0 < B" and bounds: "h0 < B" "l1 < B" "h1 < B" "l2 < B" "h2 < B" "l3 < B"
    and c1: "c1 \<longleftrightarrow> B \<le> h0 + l1"
    and c2: "c2 \<longleftrightarrow> B \<le> h1 + l2 + (if c1 then 1 else 0)"
    and c3: "c3 \<longleftrightarrow> B \<le> h2 + l3 + (if c2 then 1 else 0)"
  shows "l0 + B * (h0 + l1 + B * (h1 + l2 + B * (h2 + l3))) < B * (B * (B * B)) \<longleftrightarrow> \<not> c3"
proof -
  define s1 s2 s3 where "s1 = h0 + l1" and "s2 = h1 + l2 + (if c1 then 1 else 0)" and "s3 = h2 + l3 + (if c2 then 1 else 0)"
  have s1: "s1 = s1 mod B + B * (if c1 then 1 else 0)" using carry_out [of s1 B] B bounds c1 by (simp add: s1_def)
  have s2: "s2 = s2 mod B + B * (if c2 then 1 else 0)" using carry_out [of s2 B] B bounds c2 by (simp add: s2_def)
  have e1: "h0 + l1 + B * (h1 + l2 + B * (h2 + l3)) = s1 mod B + B * (s2 + B * (h2 + l3))"
    using s1 by (cases c1) (simp_all add: s1_def s2_def algebra_simps)
  have e2: "s2 + B * (h2 + l3) = s2 mod B + B * s3"
    using s2 by (cases c2) (simp_all add: s3_def algebra_simps)
  have m: "s1 mod B < B" "s2 mod B < B" using B by simp_all
  show ?thesis
    unfolding carry_chain_step [OF l0] e1 carry_chain_step [OF m(1)] e2 carry_chain_step [OF m(2)]
    using c3 by (simp add: s3_def not_le)
qed

subsection \<open>Hashes as numbers\<close>

text \<open>The words of a hash, all four of which can be read.\<close>

definition hash_word :: "bytes \<Rightarrow> nat \<Rightarrow> u64" where
  "hash_word hash i = le_word (take 8 (drop (i * 8) hash))"

lemma load_hash_word [simp]: "i < 4 \<Longrightarrow> load_u64_from_hash hash i = Some (hash_word hash i)"
  by (simp add: load_u64_from_hash_def hash_word_def)

lemma unat_load: "unat (hash_word hash i) = le_val (take 8 (drop (i * 8) hash))"
proof -
  define bs where "bs = take 8 (drop (i * 8) hash)"
  have "le_val bs < 256 ^ length bs" by (rule le_val_bound)
  also have "\<dots> \<le> 256 ^ 8" by (rule power_increasing) (simp_all add: bs_def)
  finally have "le_val bs < 2 ^ 64" by simp
  then show ?thesis by (simp add: hash_word_def wnat flip: bs_def)
qed

lemma hash_limbs:
  assumes "length hash = 32"
  shows "le_val hash = unat (hash_word hash 0) + 2 ^ 64 * (unat (hash_word hash 1) +
    2 ^ 64 * (unat (hash_word hash 2) + 2 ^ 64 * unat (hash_word hash 3)))"
proof -
  have split: "le_val xs = le_val (take 8 xs) + 2 ^ 64 * le_val (drop 8 xs)" if "8 \<le> length xs" for xs
    using le_val_append [of "take 8 xs" "drop 8 xs"] that by simp
  have "drop 32 hash = []" "drop 8 (drop 24 hash) = drop 32 hash" "drop 8 (drop 16 hash) = drop 24 hash"
    "drop 8 (drop 8 hash) = drop 16 hash" using assms by simp_all
  then have "le_val hash = le_val (take 8 (drop 0 hash)) + 2 ^ 64 * (le_val (take 8 (drop 8 hash)) +
      2 ^ 64 * (le_val (take 8 (drop 16 hash)) + 2 ^ 64 * le_val (take 8 (drop 24 hash))))"
    using split [of hash] split [of "drop 8 hash"] split [of "drop 16 hash"] split [of "drop 24 hash"] assms
    by (simp only: length_drop drop_0 le_val.simps mult_0_right add_0_right)
  then show ?thesis unfolding unat_load by simp
qed

lemma mul_exact: "mul a b = Some (lo, hi) \<Longrightarrow> unat a * unat b = unat lo + 2 ^ 64 * unat hi"
  using mul128_exact [of a b lo hi] by (simp add: mul_def)

lemma mul_total:
  obtains lo hi where "mul a b = Some (lo, hi)"
  unfolding mul_def by (rule mul128_total)

lemma check_hash_64_decides:
  assumes "length hash = 32"
  shows "check_hash_64 hash d = Some (le_val hash * unat d < 2 ^ 256)"
proof -
  obtain l0 h0 l1 h1 l2 h2 l3 h3
    where m: "mul (hash_word hash 0) d = Some (l0, h0)" "mul (hash_word hash 1) d = Some (l1, h1)"
      "mul (hash_word hash 2) d = Some (l2, h2)" "mul (hash_word hash 3) d = Some (l3, h3)"
    using mul_total [of "hash_word hash _" d] by metis
  define B :: nat where "B = 2 ^ 64"
  have B4: "2 ^ 256 = B * (B * (B * B))" by (simp add: B_def)
  have b: "unat x < B" for x :: u64 using unat_bound_64 [of x] by (simp add: B_def)
  have v: "le_val hash * unat d = unat l0 + B * (unat h0 + unat l1 + B * (unat h1 + unat l2 + B * (unat h2 + unat l3)))
      + B * (B * (B * (B * unat h3)))"
  proof -
    have "(w0 + B * (w1 + B * (w2 + B * w3))) * D = w0 * D + B * (w1 * D + B * (w2 * D + B * (w3 * D)))" for w0 w1 w2 w3 D
      by (simp add: algebra_simps)
    then show ?thesis
      unfolding hash_limbs [OF assms] B_def [symmetric]
      by (simp only: m [THEN mul_exact, folded B_def]) (simp add: algebra_simps)
  qed
  show ?thesis
  proof (cases "h3 = 0")
    case False
    then have "B * (B * (B * B)) * 1 \<le> B * (B * (B * B)) * unat h3" by (intro mult_le_mono2) (simp add: Suc_le_eq unat_gt_0)
    then have "B * (B * (B * B)) \<le> B * (B * (B * (B * unat h3)))" by (simp only: mult_1_right mult.assoc)
    then have "\<not> le_val hash * unat d < B * (B * (B * B))" unfolding v by linarith
    then show ?thesis unfolding B4 using False m by (simp add: check_hash_64_def)
  next
    case True
    define c1 where "c1 = cadd h0 l1"
    define c2 where "c2 = cadc h1 l2 c1"
    define c3 where "c3 = cadc h2 l3 c2"
    have chk: "check_hash_64 hash d = Some (\<not> c3)" using True m by (simp add: check_hash_64_def c1_def c2_def c3_def)
    have c1: "c1 \<longleftrightarrow> B \<le> unat h0 + unat l1" by (simp only: c1_def cadd_carry B_def)
    have c2: "c2 \<longleftrightarrow> B \<le> unat h1 + unat l2 + (if c1 then 1 else 0)" by (simp only: c2_def cadc_carry B_def)
    have c3: "c3 \<longleftrightarrow> B \<le> unat h2 + unat l3 + (if c2 then 1 else 0)" by (simp only: c3_def cadc_carry B_def)
    have pos: "0 < B" by (simp add: B_def)
    have prod: "le_val hash * unat d
        = unat l0 + B * (unat h0 + unat l1 + B * (unat h1 + unat l2 + B * (unat h2 + unat l3)))"
      unfolding v using True by simp
    show ?thesis unfolding B4 chk prod using limb_carry [OF pos b b b b b b b c1 c2 c3] by simp
  qed
qed

lemma unat_horner_step:
  assumes "unat (x :: u512) < 2 ^ 448"
  shows "unat (push_bit 64 x OR ucast (w :: u64)) = unat w + 2 ^ 64 * unat x"
proof -
  have w: "unat (ucast w :: u512) = unat w" by (simp add: unat_ucast_up)
  have "take_bit 64 (ucast w :: u512) = ucast w"
    using unat_bound_64 [of w] by (intro word_eq_unatI) (simp add: wnat w)
  then have "ucast w AND push_bit 64 x = 0" using and_push_mask_disjoint [of 64 "ucast w" x] by simp
  then have d: "push_bit 64 x AND ucast w = 0" by (simp only: and.commute)
  have "unat x * 2 ^ 64 + 2 ^ 64 \<le> 2 ^ 448 * 2 ^ 64"
    using mult_le_mono1 [of "Suc (unat x)" "2 ^ 448" "2 ^ 64"] assms by simp
  moreover have "(2::nat) ^ 448 * 2 ^ 64 = 2 ^ 512" by (simp flip: power_add)
  moreover note unat_bound_64 [of w]
  ultimately have s: "unat x * 2 ^ 64 + unat w < 2 ^ 512" by linarith
  then have p: "unat (push_bit 64 x) = unat x * 2 ^ 64" by (simp add: wnat)
  show ?thesis using s unat_or_disjoint [OF d] unfolding p w by simp
qed

lemma le_pred_iff: "0 < m \<Longrightarrow> n \<le> m - 1 \<longleftrightarrow> n < (m :: nat)"
  by linarith

lemma check_hash_128_decides:
  assumes "length hash = 32"
  shows "check_hash_128 hash d = Some (le_val hash * unat d < 2 ^ 256)"
proof -
  define w where "w i = hash_word hash i" for i
  define step where "step i v = push_bit 64 v OR (ucast (w i) :: u512)" for i v
  define v where "v = step 0 (step 1 (step 2 (step 3 0)))"
  have fold: "opt_fold (\<lambda>i v. do { word \<leftarrow> load_u64_from_hash hash (3 - i); Some (push_bit 64 v OR ucast word) }) [0..<4] 0 = Some v"
    by (simp add: v_def step_def w_def upt_rec)
  have step: "unat (step i x) = unat (w i) + 2 ^ 64 * unat x \<and> unat (step i x) < 2 ^ (k + 64)"
    if "unat x < 2 ^ k" "k \<le> 448" for i x k
  proof -
    have "unat x < 2 ^ 448" using that power_increasing [of k 448 "2::nat"] by simp
    then have e: "unat (step i x) = unat (w i) + 2 ^ 64 * unat x" by (simp only: step_def unat_horner_step)
    have "2 ^ 64 * Suc (unat x) \<le> 2 ^ 64 * 2 ^ k" using that(1) by (intro mult_le_mono2) simp
    then have "unat (step i x) < 2 ^ 64 * 2 ^ k" using unat_bound_64 [of "w i"] e by simp
    with e show ?thesis by (simp add: power_add mult.commute)
  qed
  have s3: "unat (step 3 0) = unat (w 3) \<and> unat (step 3 0) < 2 ^ 64" using step [of 0 0 3] by simp
  then have s2: "unat (step 2 (step 3 0)) = unat (w 2) + 2 ^ 64 * unat (w 3) \<and> unat (step 2 (step 3 0)) < 2 ^ 128"
    using step [of "step 3 0" 64 2] by simp
  then have s1: "unat (step 1 (step 2 (step 3 0))) = unat (w 1) + 2 ^ 64 * (unat (w 2) + 2 ^ 64 * unat (w 3)) \<and>
      unat (step 1 (step 2 (step 3 0))) < 2 ^ 192"
    using step [of "step 2 (step 3 0)" 128 1] by simp
  then have v: "unat v = le_val hash \<and> unat v < 2 ^ 256"
    using step [of "step 1 (step 2 (step 3 0))" 192 0] by (simp add: v_def w_def hash_limbs [OF assms])
  have "unat (ucast d :: u512) = unat d" by (simp add: unat_ucast_up)
  moreover have "unat v * unat d < 2 ^ 256 * 2 ^ 128"
    using v unat_bound [of d] by (intro mult_strict_mono) simp_all
  then have "unat v * unat d < 2 ^ 512" by simp
  ultimately have p: "unat (v * ucast d) = unat v * unat d" by (simp add: wnat)
  have "unat max256bit = 2 ^ 256 - 1" by (simp add: max256bit_def unat_mask_exp)
  then have "check_hash_128 hash d = Some (unat v * unat d \<le> 2 ^ 256 - 1)"
    unfolding check_hash_128_def fold word_le_nat_alt p by (simp add: word_le_nat_alt p)
  moreover have "unat v * unat d \<le> 2 ^ 256 - 1 \<longleftrightarrow> unat v * unat d < 2 ^ 256" by (rule le_pred_iff) simp
  ultimately show ?thesis using v by simp
qed

lemma check_hash_decides:
  assumes "length hash = 32"
  shows "check_hash hash d = Some (le_val hash * unat d < 2 ^ 256)"
proof (cases "d \<le> max64bit")
  case True
  then have "unat (ucast d :: u64) = unat d" by (simp add: max64bit_def word_le_nat_alt unat_ucast_mod)
  then show ?thesis using True check_hash_64_decides [OF assms, of "ucast d"] by (simp add: check_hash_def)
next
  case False
  then show ?thesis using check_hash_128_decides [OF assms] by (simp add: check_hash_def)
qed

subsection \<open>The portable product\<close>

lemma unat_and_32: "unat (x AND 0xFFFFFFFF :: u64) = unat x mod 2 ^ 32"
  using unat_lo_dword [of x] by (simp only: lo_dword_def)

lemma unat_or_dword:
  assumes "unat a < 2 ^ 32" shows "unat (a OR push_bit 32 b :: u64) = unat a + (unat b mod 2 ^ 32) * 2 ^ 32"
proof -
  have "(unat b mod 2 ^ 32) \<le> 2 ^ 32 - 1" by simp
  then have "unat a + (unat b mod 2 ^ 32) * 2 ^ 32 < 2 ^ 64" using assms by simp
  then show ?thesis
    using unat_or_disjoint [OF dword_disjoint [OF assms], of b] by (simp only: unat_push_bit_32) simp
qed

text \<open>The four partial products of the portable routine and their carries, over the naturals.\<close>

lemma portable_columns:
  fixes al ah bl bh W :: nat
  defines "res2 \<equiv> ah * bl + al * bl div W" and "res4 \<equiv> ah * bh + al * bh div W"
  defines "r1 \<equiv> res2 mod W + al * bh mod W"
  defines "r2 \<equiv> res2 div W + res4 mod W + r1 div W"
  defines "r3 \<equiv> res4 div W + r2 div W"
  shows "(ah * W + al) * (bh * W + bl) = al * bl mod W + W * (r1 mod W) + W * W * (r2 mod W + W * r3)"
proof -
  have p1: "al * bl = al * bl mod W + W * (al * bl div W)" by simp
  have p3: "al * bh = al * bh mod W + W * (al * bh div W)" by simp
  have p2: "ah * bl + al * bl div W = res2 mod W + W * (res2 div W)" by (simp add: res2_def)
  have p4: "ah * bh + al * bh div W = res4 mod W + W * (res4 div W)" by (simp add: res4_def)
  have q1: "r1 = r1 mod W + W * (r1 div W)" and q2: "r2 = r2 mod W + W * (r2 div W)" by simp_all
  have "(ah * W + al) * (bh * W + bl) = al * bl + W * (ah * bl) + W * (al * bh) + W * W * (ah * bh)"
    by (simp add: algebra_simps)
  also have "\<dots> = al * bl mod W + W * (ah * bl + al * bl div W) + W * (al * bh mod W) + W * W * (ah * bh + al * bh div W)"
    by (subst (1) p1, subst (1) p3) (simp only: distrib_left add.assoc add.commute add.left_commute mult.assoc)
  also have "\<dots> = al * bl mod W + W * r1 + W * W * (res2 div W + res4)"
    unfolding p2 r1_def res4_def by (simp only: distrib_left ac_simps)
  also have "\<dots> = al * bl mod W + W * (r1 mod W) + W * W * (res2 div W + (res4 mod W + W * (res4 div W)) + r1 div W)"
  proof -
    have "W * r1 = W * (r1 mod W) + W * (W * (r1 div W))"
      by (subst (1) q1) (simp only: distrib_left)
    then show ?thesis by (simp add: algebra_simps)
  qed
  also have "\<dots> = al * bl mod W + W * (r1 mod W) + W * W * (r2 + W * (res4 div W))"
    by (simp only: r2_def ac_simps)
  also have "\<dots> = al * bl mod W + W * (r1 mod W) + W * W * (r2 mod W + W * r3)"
    by (subst (1) q2) (simp only: r3_def distrib_left ac_simps)
  finally show ?thesis .
qed

lemma mul_portable_exact:
  assumes "mul_portable a b = (lo, hi)"
  shows "unat hi * 2 ^ 64 + unat lo = unat a * unat b"
proof -
  define W :: nat where "W = 2 ^ 32"
  define al ah bl bh where "al = unat a mod W" and "ah = unat a div W" and "bl = unat b mod W" and "bh = unat b div W"
  have W64: "2 ^ 64 = W * W" by (simp add: W_def)
  have lim: "al < W" "ah < W" "bl < W" "bh < W"
    using unat_bound_64 [of a] unat_bound_64 [of b]
    by (simp_all add: al_def ah_def bl_def bh_def W_def less_mult_imp_div_less)
  have prod: "x * y + z < W * W" if "x < W" "y < W" "z < W" for x y z
  proof -
    have "x * y \<le> (W - 1) * (W - 1)" using that by (intro mult_le_mono) simp_all
    then show ?thesis using that by (simp add: W_def)
  qed
  have carry: "x * y div W < W" if "x < W" "y < W" for x y
    using prod [OF that, of 0] that by (simp add: less_mult_imp_div_less)
  define res2 res4 where "res2 = ah * bl + al * bl div W" and "res4 = ah * bh + al * bh div W"
  define r1 where "r1 = res2 mod W + al * bh mod W"
  define r2 where "r2 = res2 div W + res4 mod W + r1 div W"
  define r3 where "r3 = res4 div W + r2 div W"
  have total: "unat a * unat b = al * bl mod W + W * (r1 mod W) + W * W * (r2 mod W + W * r3)"
    using portable_columns [of ah W al bh bl, folded res2_def res4_def, folded r1_def, folded r2_def, folded r3_def]
    by (simp add: al_def ah_def bl_def bh_def)
  have "unat a * unat b < W * W * (W * W)"
    using unat_bound_64 [of a] unat_bound_64 [of b] unfolding W64 [symmetric] by (intro mult_strict_mono) simp_all
  then have "W * W * (W * r3) < W * W * (W * W)" unfolding total distrib_left by linarith
  then have r3: "r3 < W" by simp
  have parts: "unat (x AND 0xFFFFFFFF) = unat x mod W" "unat (drop_bit 32 x) = unat x div W" for x :: u64
    by (simp_all only: unat_and_32 unat_drop_bit_div W_def)
  have mul: "unat (x * y) = unat x * unat y" if "unat x < W" "unat y < W" for x y :: u64
    using that by (simp only: W_def dword_product_no_wrap)
  have mla: "unat (x * y + z) = unat x * unat y + unat z" if "unat x < W" "unat y < W" "unat z < W" for x y z :: u64
  proof -
    have "unat (x * y + z) = (unat x * unat y + unat z) mod 2 ^ 64"
      using mul [OF that(1,2)] by (simp add: unat_add_wrap)
    then show ?thesis using prod [OF that] by (simp only: W64 mod_less)
  qed
  have add: "unat (x + y) = unat x + unat y" if "unat x < 2 * W" "unat y < W" for x y :: u64
    using that by (simp add: unat_add_wrap W_def)
  have m: "n mod W < W" for n by (simp add: W_def)
  have m2: "n mod W < 2 * W" for n using m [of n] by linarith
  define w1 where "w1 = (a AND 0xFFFFFFFF) * (b AND 0xFFFFFFFF)"
  have w1: "unat w1 = al * bl" unfolding w1_def al_def bl_def using mul m by (simp only: parts)
  define w2 where "w2 = drop_bit 32 a * (b AND 0xFFFFFFFF) + drop_bit 32 w1"
  have w2: "unat w2 = res2"
    unfolding w2_def res2_def using mla lim carry [OF lim(1,3)]
    by (simp only: parts w1 ah_def [symmetric] bl_def [symmetric])
  define w3 where "w3 = (a AND 0xFFFFFFFF) * drop_bit 32 b"
  have w3: "unat w3 = al * bh" unfolding w3_def using mul lim by (simp only: parts al_def [symmetric] bh_def [symmetric])
  define w4 where "w4 = drop_bit 32 a * drop_bit 32 b + drop_bit 32 w3"
  have w4: "unat w4 = res4"
    unfolding w4_def res4_def using mla lim carry [OF lim(1,4)]
    by (simp only: parts w3 ah_def [symmetric] bh_def [symmetric])
  have small: "unat x div W < W" for x :: u64
    using unat_bound_64 [of x] unfolding W64 by (rule less_mult_imp_div_less)
  define v1 where "v1 = (w2 AND 0xFFFFFFFF) + (w3 AND 0xFFFFFFFF)"
  have v1: "unat v1 = r1"
    unfolding v1_def r1_def w2 [symmetric] w3 [symmetric] parts [symmetric]
    using m [of "unat w3"] m2 [of "unat w2"] by (intro add) (simp_all only: parts)
  define v2 where "v2 = drop_bit 32 w2 + (w4 AND 0xFFFFFFFF) + drop_bit 32 v1"
  have v2: "unat v2 = r2"
  proof -
    have "unat (drop_bit 32 w2 + (w4 AND 0xFFFFFFFF)) = res2 div W + res4 mod W"
      using add [of "drop_bit 32 w2" "w4 AND 0xFFFFFFFF"] small [of w2] m [of res4] by (simp add: parts w2 w4)
    moreover have "res2 div W + res4 mod W < 2 * W" using small [of w2] m [of res4] unfolding w2 by linarith
    moreover have "unat (drop_bit 32 v1) = r1 div W" by (simp only: parts v1)
    ultimately show ?thesis
      unfolding v2_def r2_def using add [of "drop_bit 32 w2 + (w4 AND 0xFFFFFFFF)" "drop_bit 32 v1"] small [of v1]
      by (simp add: v1)
  qed
  define v3 where "v3 = drop_bit 32 w4 + drop_bit 32 v2"
  have v3: "unat v3 = r3"
    unfolding v3_def r3_def using add [of "drop_bit 32 w4" "drop_bit 32 v2"] small [of w4] small [of v2]
    by (simp add: parts v2 w4)
  have "lo = push_bit 32 v1 OR (w1 AND 0xFFFFFFFF)" and hi: "hi = (v2 AND 0xFFFFFFFF) OR push_bit 32 v3"
    using assms unfolding mul_portable_def Let_def w1_def [symmetric] w2_def [symmetric] w3_def [symmetric]
      w4_def [symmetric] v1_def [symmetric] v2_def [symmetric] v3_def [symmetric] by simp_all
  then have lo: "lo = (w1 AND 0xFFFFFFFF) OR push_bit 32 v1" by (simp only: or.commute)
  have m: "unat (x AND 0xFFFFFFFF :: u64) < 2 ^ 32" for x by (simp add: unat_and_32)
  have "unat lo = al * bl mod W + (r1 mod W) * W"
    unfolding lo unat_or_dword [OF m] unat_and_32 w1 v1 W_def ..
  moreover have "unat hi = r2 mod W + r3 * W"
    unfolding hi unat_or_dword [OF m] unat_and_32 v2 v3 W_def [symmetric] using r3 by simp
  ultimately show ?thesis unfolding total W64 by (simp add: algebra_simps)
qed

subsection \<open>Retargeting\<close>

text \<open>The rule over the natural numbers, without the indices of the code.  Of at most 720 blocks the outliers are taken off
  in turn, one at the front and one at the back, until 600 are left; a last odd one goes from the front.  The result is the
  work of what is left times the target time by the time span of what is left, rounded up.\<close>

fun trim_window :: "nat list \<Rightarrow> nat list" where
  "trim_window xs =
    (if length xs \<le> 600 then xs else if length xs = 601 then tl xs else trim_window (butlast (tl xs)))"

declare trim_window.simps [simp del]

definition retarget :: "nat list \<Rightarrow> nat list \<Rightarrow> nat \<Rightarrow> nat" where
  "retarget ts cds target =
    (let times = trim_window (sort (take 720 ts));
         works = trim_window (take 720 cds);
         span = max 1 (last times - hd times);
         work = last works - hd works
     in (work * target + span - 1) div span)"

lemma difficulty_cut_bounds: "2 \<le> n \<Longrightarrow> n \<le> 720 \<Longrightarrow> difficulty_cut n = (b, e) \<Longrightarrow> b + 2 \<le> e \<and> e \<le> n"
  by (auto simp: difficulty_cut_def Let_def split: if_splits)

text \<open>The window of the code is what trimming leaves.\<close>

lemma difficulty_cut_step:
  assumes "602 \<le> n"
  shows "difficulty_cut n = (let (b, e) = difficulty_cut (n - 2) in (Suc b, Suc e))"
proof (cases "n = 602")
  case False
  then have "n - 600 + 1 = n - 2 - 600 + 1 + 2" "\<not> n - 2 \<le> 600" using assms by simp_all
  then show ?thesis using assms by (simp add: difficulty_cut_def Let_def)
qed (simp add: difficulty_cut_def)

lemma trim_window_cut: "difficulty_cut (length xs) = (b, e) \<Longrightarrow> trim_window xs = drop b (take e xs)"
proof (induction xs arbitrary: b e rule: trim_window.induct)
  case (1 xs)
  consider "length xs \<le> 600" | "length xs = 601" | "602 \<le> length xs" by linarith
  then show ?case
  proof cases
    case 3
    then have l: "length (butlast (tl xs)) = length xs - 2" by simp
    obtain b' e' where c: "difficulty_cut (length xs - 2) = (b', e')" by fastforce
    then have be: "b = Suc b'" "e = Suc e'" using difficulty_cut_step [OF 3] "1.prems" by simp_all
    have e': "e' \<le> length xs - 2" using c by (auto simp: difficulty_cut_def Let_def split: if_splits)
    have "trim_window xs = trim_window (butlast (tl xs))" using 3 by (subst trim_window.simps) simp
    also have "\<dots> = drop b' (take e' (butlast (tl xs)))" using 3 by (intro "1.IH") (simp, simp, simp only: l c)
    also have "take e' (butlast (tl xs)) = take e' (tl xs)" using e' 3 by (simp add: butlast_conv_take min_def numeral_2_eq_2)
    also have "drop b' (take e' (tl xs)) = drop b (take e xs)"
      unfolding be by (cases xs) simp_all
    finally show ?thesis .
  qed (use "1.prems" in \<open>auto simp: trim_window.simps [of xs] difficulty_cut_def drop_Suc\<close>)
qed

lemma trim_window_ends:
  assumes "difficulty_cut (length xs) = (b, e)" "b < e" "e \<le> length xs"
  shows "hd (trim_window xs) = xs ! b \<and> last (trim_window xs) = xs ! (e - 1)"
  using assms(2,3) by (simp add: trim_window_cut [OF assms(1)] hd_drop_conv_nth last_conv_nth)

lemma sort_map_unat: "sort (map unat xs) = map unat (sort (xs :: 'a::len word list))"
proof (rule properties_for_sort)
  have "mset (map unat (sort xs)) = image_mset unat (mset (sort xs))" by (rule mset_map)
  then show "mset (map unat (sort xs)) = mset (map unat xs)" by simp
  have "sorted (sort xs)" by simp
  then have "sorted_wrt (\<lambda>x y. unat x \<le> unat y) (sort xs)"
    by (rule sorted_wrt_mono_rel [rotated]) (simp add: word_le_nat_alt)
  then show "sorted (map unat (sort xs))" by (simp only: sorted_map)
qed

lemma resize_le: "n \<le> length xs \<Longrightarrow> resize n x xs = take n xs"
  by (simp add: resize_def)

text \<open>The window both versions work on, and its time span.\<close>

definition time_span :: "u64 list \<Rightarrow> nat \<Rightarrow> nat \<Rightarrow> u64" where
  "time_span ts b e = (let d = sort ts ! (e - 1) - sort ts ! b in if d = 0 then 1 else d)"

lemma unat_time_span:
  assumes "b < e" "e \<le> length ts"
  shows "unat (time_span ts b e) = max 1 (sort (map unat ts) ! (e - 1) - sort (map unat ts) ! b)"
proof -
  have "sort ts ! b \<le> sort ts ! (e - 1)" using assms by (intro sorted_nth_mono) simp_all
  then have "unat (sort ts ! (e - 1) - sort ts ! b) = unat (sort ts ! (e - 1)) - unat (sort ts ! b)" by (simp add: wnat)
  moreover have "sort (map unat ts) ! i = unat (sort ts ! i)" if "i < length ts" for i
    using that by (simp add: sort_map_unat)
  moreover have "(d = 0) = (unat d = 0)" for d :: u64 by (simp add: unat_eq_zero)
  ultimately show ?thesis using assms by (auto simp: time_span_def Let_def max_def)
qed

lemma next_difficulty_64_window:
  assumes "length ts = length cds" "2 \<le> length ts" "n = min 720 (length ts)" "difficulty_cut n = (b, e)"
    and "cds ! b < cds ! (e - 1)"
  shows "next_difficulty_64 ts cds target =
    (let span = time_span (take n ts) b e
     in do { (low, high) \<leftarrow> mul (cds ! (e - 1) - cds ! b) target;
             if high \<noteq> 0 \<or> low + span - 1 < low then Some 0 else Some ((low + span - 1) div span) })"
proof -
  have be: "b + 2 \<le> e" "e \<le> n" using difficulty_cut_bounds [OF _ _ assms(4)] assms(2,3) by simp_all
  then have nth: "take n cds ! (e - 1) = cds ! (e - 1)" "take n cds ! b = cds ! b" by simp_all
  have pos: "0 < cds ! (e - 1) - cds ! b" using assms(5) by (simp add: word_neq_0_conv [symmetric])
  have r: "(if length ts > 720 then (resize 720 0 ts, resize 720 0 cds) else (ts, cds)) = (take n ts, take n cds)"
    using assms(1,3) by (simp add: resize_le min_def)
  have n: "\<not> n \<le> 1" "n \<le> 720" using assms(2,3) by simp_all
  have l: "length (take n ts) = n" "length (take n cds) = n" using assms(1,3) by simp_all
  show ?thesis
    unfolding next_difficulty_64_def r Let_def prod.case l assms(4) nth time_span_def
    using be n pos by simp
qed

lemma next_difficulty_window:
  assumes "length ts = length cds" "2 \<le> length ts" "n = min 720 (length ts)" "difficulty_cut n = (b, e)"
    and "cds ! b < cds ! (e - 1)"
  shows "next_difficulty ts cds target =
    (let span = time_span (take n ts) b e;
         res = (ucast (cds ! (e - 1) - cds ! b) * ucast target + ucast span - 1) div (ucast span :: u256)
     in if res > max128bit then Some 0 else Some (ucast res))"
proof -
  have be: "b + 2 \<le> e" "e \<le> n" using difficulty_cut_bounds [OF _ _ assms(4)] assms(2,3) by simp_all
  then have nth: "take n cds ! (e - 1) = cds ! (e - 1)" "take n cds ! b = cds ! b" by simp_all
  have pos: "0 < cds ! (e - 1) - cds ! b" using assms(5) by (simp add: word_neq_0_conv [symmetric])
  have r: "(if length ts > 720 then (resize 720 0 ts, resize 720 0 cds) else (ts, cds)) = (take n ts, take n cds)"
    using assms(1,3) by (simp add: resize_le min_def)
  have n: "\<not> n \<le> 1" "n \<le> 720" using assms(2,3) by simp_all
  have l: "length (take n ts) = n" "length (take n cds) = n" using assms(1,3) by simp_all
  show ?thesis
    unfolding next_difficulty_def r Let_def prod.case l assms(4) nth time_span_def
    using be n pos by simp
qed

lemma ceil_div_64:
  assumes m: "mul w t = Some (lo, hi)" and s: "0 < s"
  shows "(if hi \<noteq> 0 \<or> lo + s - 1 < lo then Some 0 else Some ((lo + s - 1) div s)) =
    Some (if unat w * unat t + unat s - 1 < 2 ^ 64 then of_nat ((unat w * unat t + unat s - 1) div unat s) else 0 :: u64)"
proof -
  have s1: "unat (s - 1) = unat s - 1" "1 \<le> unat s"
    using s by (simp_all add: wnat word_le_nat_alt word_less_nat_alt)
  have p: "unat w * unat t = unat lo + 2 ^ 64 * unat hi" by (rule mul_exact [OF m])
  have c: "lo + s - 1 < lo \<longleftrightarrow> 2 ^ 64 \<le> unat lo + (unat s - 1)"
    using add_carry_iff [of lo "s - 1"] s1 by (simp add: add_diff_eq)
  show ?thesis
  proof (cases "hi \<noteq> 0 \<or> lo + s - 1 < lo")
    case True
    have "\<not> unat w * unat t + unat s - 1 < 2 ^ 64"
    proof (cases "hi = 0")
      case hi: True
      then have "2 ^ 64 \<le> unat lo + (unat s - 1)" using True c by blast
      then show ?thesis using hi p s1 by simp
    next
      case False
      then have "2 ^ 64 * 1 \<le> 2 ^ 64 * unat hi" by (intro mult_le_mono2) (simp add: Suc_le_eq unat_gt_0)
      then show ?thesis using p s1 by linarith
    qed
    then show ?thesis using True by simp
  next
    case False
    then have h: "hi = 0" "unat lo + (unat s - 1) < 2 ^ 64" using c by auto
    have e: "unat (lo + (s - 1)) = unat lo + (unat s - 1)" using h(2) s1 by (simp add: wnat)
    then have "unat ((lo + s - 1) div s) = (unat lo + unat s - 1) div unat s" using s1 by (simp add: wnat add_diff_eq)
    moreover have "(unat lo + unat s - 1) div unat s < 2 ^ 64"
    proof -
      have "(unat lo + unat s - 1) div unat s \<le> unat lo + unat s - 1" by (rule div_le_dividend)
      also have "\<dots> < 2 ^ 64" using h(2) s1 by simp
      finally show ?thesis .
    qed
    ultimately have "(lo + s - 1) div s = of_nat ((unat lo + unat s - 1) div unat s)"
      by (intro word_eq_unatI) (simp add: unat_of_nat)
    then show ?thesis using False h p s1 by simp
  qed
qed

lemma ceil_div_128:
  fixes w :: u128 and t s :: u64
  assumes "0 < s"
  shows "(let res = (ucast w * ucast t + ucast s - 1) div (ucast s :: u256)
      in if res > max128bit then Some 0 else Some (ucast res :: u128)) =
    Some (if (unat w * unat t + unat s - 1) div unat s < 2 ^ 128
          then of_nat ((unat w * unat t + unat s - 1) div unat s) else 0)"
proof -
  define q where "q = (unat w * unat t + unat s - 1) div unat s"
  define res where "res = (ucast w * ucast t + ucast s - 1) div (ucast s :: u256)"
  have up: "unat (ucast w :: u256) = unat w" "unat (ucast t :: u256) = unat t" "unat (ucast s :: u256) = unat s"
    by (simp_all add: unat_ucast_up)
  have s1: "1 \<le> unat s" using assms by (simp add: word_less_nat_alt)
  have "unat w * unat t \<le> 2 ^ 128 * 2 ^ 64"
    using unat_bound [of w] unat_bound [of t] by (intro mult_le_mono) simp_all
  then have lim: "unat w * unat t + unat s < 2 ^ 256" using unat_bound_64 [of s] by simp
  then have m: "unat (ucast w * ucast t :: u256) = unat w * unat t" by (simp add: wnat up)
  then have a: "unat (ucast w * ucast t + ucast s :: u256) = unat w * unat t + unat s" using lim by (simp add: wnat up)
  have "(1 :: u256) \<le> ucast w * ucast t + ucast s" using a s1 by (simp add: word_le_nat_alt)
  then have "unat (ucast w * ucast t + ucast s - 1 :: u256) = unat w * unat t + unat s - 1"
    using a by (simp add: wnat)
  then have r: "unat res = q" by (simp add: res_def q_def wnat up)
  have gt: "res > max128bit \<longleftrightarrow> \<not> q < 2 ^ 128"
  proof -
    have "unat max128bit = 2 ^ 128 - 1" by (simp add: max128bit_def unat_mask_exp)
    then have "res > max128bit \<longleftrightarrow> 2 ^ 128 - 1 < q" by (simp only: word_less_nat_alt r)
    also have "\<dots> \<longleftrightarrow> \<not> q < 2 ^ 128" using le_pred_iff [of "2 ^ 128" q] by (simp only: not_le [symmetric]) simp
    finally show ?thesis .
  qed
  have "(ucast res :: u128) = of_nat q"
    by (rule word_eq_unatI) (simp add: unat_ucast_mod r unat_of_nat)
  then show ?thesis unfolding res_def [symmetric] q_def [symmetric] Let_def using gt by simp
qed

text \<open>The facts about a window that both widths need.\<close>

lemma retarget_window:
  assumes "length ts = length cds" "2 \<le> length ts" "n = min 720 (length ts)" "difficulty_cut n = (b, e)"
    and "cds ! b < cds ! (e - 1)"
  shows "retarget (map unat ts) (map unat (cds :: 'a::len word list)) target =
    (unat (cds ! (e - 1) - cds ! b) * target + unat (time_span (take n ts) b e) - 1) div unat (time_span (take n ts) b e)"
proof -
  have be: "b + 2 \<le> e" "e \<le> n" using difficulty_cut_bounds [OF _ _ assms(4)] assms(2,3) by simp_all
  moreover have "n \<le> length cds" using assms(1,3) by simp
  ultimately have i: "b < length cds" "e - 1 < length cds" by linarith+
  have l: "length (sort (take n (map unat ts))) = n" "length (take n (map unat cds)) = n" using assms(1,3) by simp_all
  have t: "take 720 xs = take n xs" if "length xs = length ts" for xs :: "nat list" using that assms(3) by (simp add: min_def)
  note ends = trim_window_ends [of "sort (take n (map unat ts))" b e, unfolded l] trim_window_ends [of "take n (map unat cds)" b e, unfolded l]
  have w: "unat (cds ! (e - 1) - cds ! b) = last (trim_window (take n (map unat cds))) - hd (trim_window (take n (map unat cds)))"
    using assms(5) i be ends(2) [OF assms(4)] by (simp add: wnat)
  have sp: "unat (time_span (take n ts) b e) = max 1 (sort (take n (map unat ts)) ! (e - 1) - sort (take n (map unat ts)) ! b)"
    using unat_time_span [of b e "take n ts"] be assms(3) by (simp add: take_map)
  also have "\<dots> = max 1 (last (trim_window (sort (take n (map unat ts)))) - hd (trim_window (sort (take n (map unat ts)))))"
    using ends(1) [OF assms(4)] be by simp
  finally show ?thesis unfolding retarget_def Let_def w using assms(1) by (simp only: t length_map)
qed

lemma time_span_pos: "0 < time_span ts b e"
  by (simp add: time_span_def Let_def word_neq_0_conv [symmetric])

lemma cut_work_pos:
  assumes "sorted_wrt (<) cds" "2 \<le> length cds" "difficulty_cut (min 720 (length cds)) = (b, e)"
  shows "cds ! b < (cds ! (e - 1) :: 'a::len word)"
proof -
  have "b + 2 \<le> e" "e \<le> min 720 (length cds)" using difficulty_cut_bounds [OF _ _ assms(3)] assms(2) by simp_all
  then have "b < e - 1" "e - 1 < length cds" using assms(2) by auto
  then show ?thesis using assms(1) by (simp add: sorted_wrt_iff_nth_less)
qed

lemma next_difficulty_retarget:
  assumes "length ts = length cds" "2 \<le> length ts" "sorted_wrt (<) cds"
  shows "next_difficulty ts cds target =
    Some (let q = retarget (map unat ts) (map unat cds) (unat target) in if q < 2 ^ 128 then of_nat q else 0)"
proof -
  obtain b e where be: "difficulty_cut (min 720 (length ts)) = (b, e)" by fastforce
  have w: "cds ! b < cds ! (e - 1)" using cut_work_pos [OF assms(3)] assms(1,2) be by simp
  show ?thesis
    unfolding next_difficulty_window [OF assms(1,2) refl be w] retarget_window [OF assms(1,2) refl be w]
    unfolding Let_def [of "time_span _ _ _"] ceil_div_128 [OF time_span_pos] by (simp add: Let_def)
qed

lemma next_difficulty_64_retarget:
  assumes "length ts = length cds" "2 \<le> length ts" "sorted_wrt (<) cds"
  shows "\<exists>m r. retarget (map unat ts) (map unat cds) (unat target) = m div r \<and> 0 < r \<and>
    next_difficulty_64 ts cds target = Some (if m < 2 ^ 64 then of_nat (m div r) else 0)"
proof -
  obtain b e where be: "difficulty_cut (min 720 (length ts)) = (b, e)" by fastforce
  have w: "cds ! b < cds ! (e - 1)" using cut_work_pos [OF assms(3)] assms(1,2) be by simp
  define s where "s = time_span (take (min 720 (length ts)) ts) b e"
  have s: "0 < s" by (simp add: s_def time_span_pos)
  obtain lo hi where m: "mul (cds ! (e - 1) - cds ! b) target = Some (lo, hi)" by (rule mul_total)
  have "next_difficulty_64 ts cds target =
      Some (if unat (cds ! (e - 1) - cds ! b) * unat target + unat s - 1 < 2 ^ 64
        then of_nat ((unat (cds ! (e - 1) - cds ! b) * unat target + unat s - 1) div unat s) else 0)"
    unfolding next_difficulty_64_window [OF assms(1,2) refl be w] s_def [symmetric] Let_def m bind.bind_lunit prod.case
    by (rule ceil_div_64 [OF m s])
  moreover have "0 < unat s" using s by (simp add: word_less_nat_alt)
  ultimately show ?thesis
    using retarget_window [OF assms(1,2) refl be w, of "unat target", folded s_def] by blast
qed

subsection \<open>Hexadecimal\<close>

text \<open>The number a string of hexadecimal digits stands for, the most significant digit first.\<close>

definition hex_digit_value :: "char \<Rightarrow> nat" where
  "hex_digit_value c = length (takeWhile (\<lambda>h. h \<noteq> c) hex_chars)"

definition hex_value :: "string \<Rightarrow> nat" where
  "hex_value s = foldr (\<lambda>c n. hex_digit_value c + 16 * n) (rev s) 0"

lemma hex_digit_value_nth: "d < 16 \<Longrightarrow> hex_digit_value (hex_chars ! d) = d"
proof -
  have "list_all (\<lambda>d. hex_digit_value (hex_chars ! d) = d) [0..<16]" by code_simp
  then show "d < 16 \<Longrightarrow> hex_digit_value (hex_chars ! d) = d" by (simp add: list_all_length)
qed

lemma hex_digits_value: "foldr (\<lambda>c n. hex_digit_value c + 16 * n) (hex_digits v) 0 = unat v"
proof (induction v rule: hex_digits.induct)
  case (1 v)
  have "v AND 0xf = v AND mask 4" by (simp add: mask_eq_exp_minus_1)
  then have "unat (v AND 0xf) = unat v mod 16" by (simp add: wnat)
  moreover have "hex_digit_value (hex_chars ! (unat v mod 16)) = unat v mod 16" by (rule hex_digit_value_nth) simp
  ultimately show ?case
    using 1 by (subst hex_digits.simps) (auto simp: wnat not_less)
qed

subsection \<open>Properties\<close>

text \<open>C10: a hash passes the proof-of-work test exactly when the hash, read as a little-endian 256-bit number,
  times the difficulty is below 2^256; this covers both the 64-bit limb arithmetic with its carry
  chain and the 512-bit path taken for difficulties above 64 bits.  No assertion on the way fails.\<close>

theorem check_hash_spec:
  "length hash = 32 \<Longrightarrow> check_hash hash difficulty = Some (le_val hash * unat difficulty < 2 ^ 256)"
  by (rule check_hash_decides)

theorem check_hash_spec_witness:
  "check_hash (replicate 31 0 @ [1]) 255 = Some True \<and> check_hash (replicate 31 0 @ [1]) 256 = Some False"
  using check_hash_spec [of "replicate 31 0 @ [1]" 255] check_hash_spec [of "replicate 31 0 @ [1]" 256]
  by (simp add: le_val_append le_val_zeros)

lemma digits_unique:
  fixes h l B :: nat
  assumes e: "h * B + l = h' * B + l'" and l: "l < B" "l' < B"
  shows "h = h' \<and> l = l'"
proof -
  have "(h * B + l) mod B = l" "(h' * B + l') mod B = l'" using l by simp_all
  then have "l = l'" unfolding e by simp
  then show ?thesis using e l by simp
qed

text \<open>the portable multiplication of the builds without a 128-bit type returns the same two words as the
  multiplication the x86-64 build uses.\<close>

theorem mul_portable_equiv: "mul a b = Some (mul_portable a b)"
proof -
  obtain l h where p: "mul_portable a b = (l, h)" by fastforce
  obtain l' h' where m: "mul a b = Some (l', h')" by (rule mul_total)
  have "unat h * 2 ^ 64 + unat l = unat h' * 2 ^ 64 + unat l'"
    using mul_portable_exact [OF p] mul_exact [OF m] by simp
  then have "unat h = unat h' \<and> unat l = unat l'"
    using digits_unique [OF _ unat_bound_64 unat_bound_64] by blast
  then show ?thesis using p m by (simp add: word_eq_unatI)
qed

text \<open>C25: the next difficulty is 1 for fewer than two blocks; otherwise the timestamps of the first 720 blocks are sorted, the
  outliers are taken off in turn at both ends until 600 are left, and the result is the work of the blocks left times the
  target time divided by the time span of the times left, rounded up, or 0 when that exceeds 128 bits.  For strictly
  increasing cumulative difficulties no assertion of the function fails.\<close>

theorem next_difficulty_spec:
  assumes "length ts = length cds" and "sorted_wrt (<) cds"
  shows "next_difficulty ts cds target =
    Some (if length ts < 2 then 1
          else let q = retarget (map unat ts) (map unat cds) (unat target) in if q < 2 ^ 128 then of_nat q else 0)"
proof (cases "length ts < 2")
  case True
  then show ?thesis using assms(1) by (auto simp: next_difficulty_def)
next
  case False
  then show ?thesis using next_difficulty_retarget [OF assms(1) _ assms(2)] by simp
qed

theorem next_difficulty_spec_witness:
  "next_difficulty [100, 220, 300] [10, 20, 40] 120 = Some 18 \<and>
   next_difficulty (map of_nat [0..<720]) (map (\<lambda>i. of_nat (i * i)) [0..<720]) 120 = Some 86280"
proof
  show "next_difficulty [100, 220, 300] [10, 20, 40] 120 = Some 18"
    by (subst next_difficulty_spec) (simp_all add: retarget_def trim_window.simps Let_def)
  have sq: "i * i < 2 ^ 128" if "i < 720" for i :: nat using mult_strict_mono [of i 720 i 720] that by simp
  have u: "map unat (map of_nat [0..<720] :: u64 list) = [0..<720]"
    "map unat (map (\<lambda>i. of_nat (i * i)) [0..<720] :: u128 list) = map (\<lambda>i. i * i) [0..<720]"
    unfolding map_map using sq by (auto intro!: map_idI simp: unat_of_nat simp del: of_nat_mult upt_rec_numeral)
  have "sorted_wrt (<) (map (\<lambda>i. of_nat (i * i) :: u128) [0..<720])"
    unfolding sorted_wrt_map sorted_wrt_iff_nth_less using sq
    by (auto simp: word_less_nat_alt unat_of_nat mult_strict_mono simp del: of_nat_mult upt_rec_numeral)
  moreover have "trim_window (map f [0..<720]) = map f [60..<660]" for f
    by (subst trim_window_cut [of _ 60 660]) (simp_all add: difficulty_cut_def take_map drop_map del: upt_rec_numeral)
  from this this [of "\<lambda>x. x"] have "retarget [0..<720] (map (\<lambda>i. i * i) [0..<720]) 120 = 86280"
    by (simp add: retarget_def hd_map last_map Let_def del: upt_rec_numeral)
  ultimately show "next_difficulty (map of_nat [0..<720]) (map (\<lambda>i. of_nat (i * i)) [0..<720]) 120 = Some 86280"
    by (subst next_difficulty_spec) (simp_all only: u length_map length_upt Let_def, simp_all del: upt_rec_numeral)
qed

text \<open>C26: the 64-bit and the 128-bit retargeting agree: whenever the 64-bit version returns a difficulty
  other than its overflow value 0, the 128-bit version returns the same difficulty.\<close>

theorem next_difficulty_widths:
  assumes "length ts = length cds" and "sorted_wrt (<) cds"
    and "next_difficulty_64 ts cds target = Some d" and "d \<noteq> 0"
  shows "next_difficulty ts (map ucast cds) target = Some (ucast d)"
proof (cases "2 \<le> length ts")
  case False
  then have "length cds \<le> 1" "d = 1" using assms(1,3) by (auto simp: next_difficulty_64_def split: if_splits)
  then show ?thesis using assms(1) by (simp add: next_difficulty_def)
next
  case True
  obtain m r where mr: "retarget (map unat ts) (map unat cds) (unat target) = m div r"
      "next_difficulty_64 ts cds target = Some (if m < 2 ^ 64 then of_nat (m div r) else 0)"
    using next_difficulty_64_retarget [OF assms(1) True assms(2)] by blast
  have m: "m < 2 ^ 64" and d: "d = of_nat (m div r)" using mr(2) assms(3,4) by (auto split: if_splits)
  have "m div r < 2 ^ 64" using m div_le_dividend [of m r] by linarith
  then have "unat d = m div r" using d by (simp add: unat_of_nat)
  then have u: "ucast d = (of_nat (m div r) :: u128)"
    using \<open>m div r < 2 ^ 64\<close> by (intro word_eq_unatI) (simp add: unat_ucast_up unat_of_nat flip: d)
  have up: "unat (ucast c :: u128) = unat c" for c :: u64 by (simp add: unat_ucast_up)
  have "sorted_wrt (<) (map ucast cds :: u128 list)"
    unfolding sorted_wrt_map
    by (rule sorted_wrt_mono_rel [OF _ assms(2)]) (simp add: word_less_nat_alt up)
  then have "next_difficulty ts (map ucast cds) target = Some (let q = retarget (map unat ts)
      (map unat (map ucast cds :: u128 list)) (unat target) in if q < 2 ^ 128 then of_nat q else 0)"
    using assms(1) True by (intro next_difficulty_retarget) simp_all
  also have "map unat (map ucast cds :: u128 list) = map unat cds" by (simp add: up comp_def)
  finally show ?thesis using \<open>m div r < 2 ^ 64\<close> u by (simp add: Let_def mr(1))
qed

theorem next_difficulty_widths_witness:
  "next_difficulty_64 [100, 220, 300] [10, 20, 40] 120 = Some 18 \<and>
   next_difficulty [100, 220, 300] (map ucast ([10, 20, 40] :: u64 list)) 120 = Some (ucast (18 :: u64))"
proof -
  have r: "next_difficulty_64 [100, 220, 300] [10, 20, 40] 120 = Some 18" by code_simp
  then show ?thesis using next_difficulty_widths [OF _ _ r] by simp
qed

text \<open>the hexadecimal form of a difficulty is \<open>0x\<close> followed by digits that stand for it.\<close>

theorem hex_represents: "\<exists>s. hex v = ''0x'' @ s \<and> s \<noteq> [] \<and> hex_value s = unat v"
proof (cases "hex_digits v = []")
  case True
  then have "unat v = 0" using hex_digits_value [of v] by simp
  moreover have "hex_value ''0'' = 0" by code_simp
  ultimately show ?thesis using True by (simp add: hex_def)
next
  case False
  then show ?thesis using hex_digits_value [of v] by (simp add: hex_def hex_value_def Let_def)
qed

end
