(* ===== verification/Limbs.thy ===== *)
theory Limbs
  imports Prelude
begin

text \<open>
  Numbers in limbs, as \<open>src/crypto/crypto-ops.c\<close> keeps field elements and scalars: an array of signed
  integers, limb \<open>i\<close> with the weight \<open>2 ^ w i\<close>.  The carry step of the source is here once for all its
  uses, with its 64-bit arithmetic written out; an interval analysis that follows the same steps shows
  that none of them overflows and bounds every limb.
\<close>

unbundle bit_operations_syntax

subsection \<open>Signed machine integers\<close>

text \<open>The value of an expression of type \<open>int64_t\<close> or \<open>int32_t\<close>: two's complement at that width.\<close>

definition i64 :: "int \<Rightarrow> int" where "i64 x = signed_take_bit 63 x"
definition i32 :: "int \<Rightarrow> int" where "i32 x = signed_take_bit 31 x"

lemma i64_id: "- (2 ^ 63) \<le> x \<Longrightarrow> x < 2 ^ 63 \<Longrightarrow> i64 x = x"
  unfolding i64_def by (rule signed_take_bit_int_eq_self)

lemma i32_id: "- (2 ^ 31) \<le> x \<Longrightarrow> x < 2 ^ 31 \<Longrightarrow> i32 x = x"
  unfolding i32_def by (rule signed_take_bit_int_eq_self)

subsection \<open>The carry step\<close>

text \<open>\<open>carry = (s[i] + r) >> b; s[j] += carry * m; s[i] -= carry << b\<close>, with \<open>int64_t\<close> operands.\<close>

definition limb_carry :: "nat \<Rightarrow> int \<Rightarrow> int \<Rightarrow> nat \<Rightarrow> nat \<Rightarrow> int list \<Rightarrow> int list" where
  "limb_carry b r m i j s =
    (let carry = drop_bit b (i64 (s ! i + r));
         s = s[j := i64 (s ! j + i64 (carry * m))]
     in s[i := i64 (s ! i - i64 (push_bit b carry))])"

definition limb_val :: "(nat \<Rightarrow> nat) \<Rightarrow> int list \<Rightarrow> int" where
  "limb_val w s = (\<Sum>i<length s. s ! i * 2 ^ w i)"

lemma limb_val_update: "i < length s \<Longrightarrow> limb_val w (s[i := v]) = limb_val w s + (v - s ! i) * 2 ^ w i"
proof -
  assume i: "i < length s"
  have "limb_val w (s[i := v]) = (\<Sum>k<length s. (if k = i then v else s ! k) * 2 ^ w k)"
    unfolding limb_val_def by (intro sum.cong) (auto simp: nth_list_update)
  also have "\<dots> = (\<Sum>k<length s. s ! k * 2 ^ w k + (if k = i then (v - s ! i) * 2 ^ w i else 0))"
    by (intro sum.cong) (auto simp: algebra_simps)
  also have "\<dots> = limb_val w s + (v - s ! i) * 2 ^ w i"
    using i by (simp add: sum.distrib limb_val_def)
  finally show ?thesis .
qed

subsection \<open>Intervals\<close>

type_synonym intervals = "(int \<times> int) list"

definition within :: "intervals \<Rightarrow> int list \<Rightarrow> bool" where
  "within iv s \<longleftrightarrow> length s = length iv \<and> (\<forall>i < length iv. fst (iv ! i) \<le> s ! i \<and> s ! i \<le> snd (iv ! i))"

text \<open>Intervals far enough from the ends of 64 bits for the next step.\<close>

definition iv_fits :: "intervals \<Rightarrow> bool" where
  "iv_fits iv = list_all (\<lambda>(l, u). - (2 ^ 62) \<le> l \<and> u \<le> 2 ^ 62) iv"

definition iv_check :: "intervals \<Rightarrow> intervals option" where
  "iv_check iv = (if iv_fits iv then Some iv else None)"

definition iv_carry :: "nat \<Rightarrow> int \<Rightarrow> int \<Rightarrow> nat \<Rightarrow> nat \<Rightarrow> intervals \<Rightarrow> intervals option" where
  "iv_carry b r m i j iv =
    (let (li, ui) = iv ! i; (lj, uj) = iv ! j
     in if iv_fits iv \<and> i < length iv \<and> j < length iv \<and> i \<noteq> j
        then iv_check (iv[j := (lj + (li + r) div 2 ^ b * m, uj + (ui + r) div 2 ^ b * m), i := (- r, 2 ^ b - 1 - r)])
        else None)"

lemma within_nth: "within iv s \<Longrightarrow> i < length iv \<Longrightarrow> fst (iv ! i) \<le> s ! i \<and> s ! i \<le> snd (iv ! i)"
  by (simp add: within_def)

lemma iv_fits_nth: "iv_fits iv \<Longrightarrow> i < length iv \<Longrightarrow> - (2 ^ 62) \<le> fst (iv ! i) \<and> snd (iv ! i) \<le> 2 ^ 62"
  unfolding iv_fits_def list_all_length by (simp add: case_prod_beta)

lemma within_update:
  "within iv s \<Longrightarrow> i < length iv \<Longrightarrow> l \<le> v \<Longrightarrow> v \<le> u \<Longrightarrow> within (iv[i := (l, u)]) (s[i := v])"
  by (auto simp: within_def nth_list_update)

text \<open>Parameters of the carries the source makes.\<close>

definition carry_params :: "nat \<Rightarrow> int \<Rightarrow> int \<Rightarrow> bool" where
  "carry_params b r m \<longleftrightarrow> 21 \<le> b \<and> b \<le> 26 \<and> 0 \<le> r \<and> r \<le> 2 ^ 25 \<and> 0 \<le> m \<and> m \<le> 19"

lemma carry_no_overflow:
  assumes p: "carry_params b r m" and x: "- (2 ^ 62) \<le> x" "x \<le> 2 ^ 62"
  defines "c \<equiv> (x + r) div 2 ^ b"
  shows "drop_bit b (i64 (x + r)) = c" "i64 (c * m) = c * m" "i64 (push_bit b c) = c * 2 ^ b"
    "x - c * 2 ^ b = (x + r) mod 2 ^ b - r" "i64 (x - c * 2 ^ b) = x - c * 2 ^ b"
proof -
  have r: "0 \<le> r" "r \<le> 2 ^ 25" and m: "0 \<le> m" "m \<le> 19" using p by (simp_all add: carry_params_def)
  have b: "(2::int) ^ 21 \<le> 2 ^ b" "(2::int) ^ b \<le> 2 ^ 26"
    using p power_increasing [of 21 b "2 :: int"] power_increasing [of b 26 "2 :: int"]
    by (simp_all add: carry_params_def)
  define B :: int where "B = 2 ^ b"
  have B: "2097152 \<le> B" "B \<le> 67108864" using b by (simp_all add: B_def)
  have md: "0 \<le> (x + r) mod B" "(x + r) mod B < B" using B by simp_all
  have split: "c * B = (x + r) - (x + r) mod B"
    by (simp add: c_def B_def minus_mod_eq_div_mult)
  have i: "i64 (x + r) = x + r" using x r by (intro i64_id) simp_all
  then show "drop_bit b (i64 (x + r)) = c" by (simp add: c_def drop_bit_eq_div)
  have cb: "- (2 ^ 62) - B \<le> c * B" "c * B \<le> 2 ^ 62 + 2 ^ 25" using split md x r by linarith+
  then show "i64 (push_bit b c) = c * 2 ^ b"
    using B by (simp add: push_bit_eq_mult B_def [symmetric] i64_id)
  have cb': "- 4611686018427387904 - B \<le> c * B" "c * B \<le> 4611686018460942336" using cb by simp_all
  have "c \<le> 4398046511104"
  proof (rule ccontr)
    assume "\<not> c \<le> 4398046511104"
    then have "4398046511104 * B < c * B" using B by (intro mult_strict_right_mono) simp_all
    then show False using cb' B by linarith
  qed
  moreover have "- 4398046511104 \<le> c"
  proof (rule ccontr)
    assume "\<not> - 4398046511104 \<le> c"
    then have "c * B < - 4398046511104 * B" using B by (intro mult_strict_right_mono) simp_all
    then show False using cb' B by linarith
  qed
  ultimately have "\<bar>c\<bar> * \<bar>m\<bar> \<le> 4398046511104 * 19" using m by (intro mult_mono) simp_all
  then have "\<bar>c * m\<bar> \<le> 4398046511104 * 19" by (simp add: abs_mult)
  then show "i64 (c * m) = c * m" by (intro i64_id) (auto simp: abs_le_iff)
  show e: "x - c * 2 ^ b = (x + r) mod 2 ^ b - r" using split by (simp add: B_def)
  show "i64 (x - c * 2 ^ b) = x - c * 2 ^ b"
  proof -
    define y where "y = (x + r) mod B"
    have "x - c * 2 ^ b = y - r" "0 \<le> y" "y < B" using e md by (simp_all add: y_def B_def)
    then show ?thesis using B r by (intro i64_id) simp_all
  qed
qed

text \<open>The step keeps the number up to the carry's weight, and stays in the intervals.\<close>

lemma limb_carry_sound:
  assumes p: "carry_params b r m" and s: "within iv s" and iv: "iv_carry b r m i j iv = Some iv'"
  shows "within iv' (limb_carry b r m i j s)"
    and "limb_val w (limb_carry b r m i j s) =
      limb_val w s + (s ! i + r) div 2 ^ b * (m * 2 ^ w j - 2 ^ (w i + b))"
    and "limb_carry b r m i j s = s[j := s ! j + (s ! i + r) div 2 ^ b * m, i := s ! i - (s ! i + r) div 2 ^ b * 2 ^ b]"
    and "i < length s" "j < length s" "i \<noteq> j"
proof -
  obtain li ui lj uj where ij: "iv ! i = (li, ui)" "iv ! j = (lj, uj)" by fastforce
  have fits: "iv_fits iv" "i < length iv" "j < length iv" "i \<noteq> j"
    and iv': "iv' = iv[j := (lj + (li + r) div 2 ^ b * m, uj + (ui + r) div 2 ^ b * m), i := (- r, 2 ^ b - 1 - r)]"
    and fits': "iv_fits iv'"
    using iv by (auto simp: iv_carry_def ij iv_check_def split: if_splits)
  define c where "c = (s ! i + r) div 2 ^ b"
  have len: "length s = length iv" using s by (simp add: within_def)
  have xi: "li \<le> s ! i" "s ! i \<le> ui" and xj: "lj \<le> s ! j" "s ! j \<le> uj"
    using within_nth [OF s fits(2)] within_nth [OF s fits(3)] ij by simp_all
  have "- (2 ^ 62) \<le> s ! i" "s ! i \<le> 2 ^ 62" using xi iv_fits_nth [OF fits(1,2)] ij by auto
  note no = carry_no_overflow [OF p this, folded c_def]
  have m: "0 \<le> m" using p by (simp add: carry_params_def)
  have c: "(li + r) div 2 ^ b * m \<le> c * m" "c * m \<le> (ui + r) div 2 ^ b * m"
    unfolding c_def using xi m by (auto intro!: mult_right_mono zdiv_mono1)
  then have "lj + (li + r) div 2 ^ b * m \<le> s ! j + c * m" "s ! j + c * m \<le> uj + (ui + r) div 2 ^ b * m"
    using xj by linarith+
  note J = this
  have "- (2 ^ 62) \<le> lj + (li + r) div 2 ^ b * m" "uj + (ui + r) div 2 ^ b * m \<le> 2 ^ 62"
    using iv_fits_nth [OF fits', of j] fits by (simp_all add: iv')
  then have ij64: "i64 (s ! j + c * m) = s ! j + c * m" using J by (intro i64_id) simp_all
  have run: "limb_carry b r m i j s = s[j := s ! j + c * m, i := s ! i - c * 2 ^ b]"
    using fits(4) by (simp add: limb_carry_def Let_def no(1,2,3,5) ij64)
  show "limb_carry b r m i j s = s[j := s ! j + (s ! i + r) div 2 ^ b * m, i := s ! i - (s ! i + r) div 2 ^ b * 2 ^ b]"
    unfolding run c_def ..
  show "i < length s" "j < length s" "i \<noteq> j" using fits len by simp_all
  have md: "0 \<le> (s ! i + r) mod 2 ^ b" "(s ! i + r) mod 2 ^ b < 2 ^ b" by simp_all
  show "within iv' (limb_carry b r m i j s)"
    unfolding run iv' using s fits J md by (intro within_update) (simp_all add: no(4))
  show "limb_val w (limb_carry b r m i j s) = limb_val w s + (s ! i + r) div 2 ^ b * (m * 2 ^ w j - 2 ^ (w i + b))"
    unfolding run c_def [symmetric] using fits len
    by (simp add: limb_val_update power_add algebra_simps)
qed

subsection \<open>Sequences of steps\<close>

text \<open>A step on limbs that is safe on intervals and keeps the number modulo \<open>l\<close>.\<close>

definition safe_step :: "(nat \<Rightarrow> nat) \<Rightarrow> int \<Rightarrow> (int list \<Rightarrow> int list) \<Rightarrow> (intervals \<Rightarrow> intervals option) \<Rightarrow> bool" where
  "safe_step w l f F \<longleftrightarrow> (\<forall>iv iv' s. within iv s \<longrightarrow> F iv = Some iv' \<longrightarrow>
    within iv' (f s) \<and> limb_val w (f s) mod l = limb_val w s mod l)"

lemma safe_stepD:
  "safe_step w l f F \<Longrightarrow> within iv s \<Longrightarrow> F iv = Some iv' \<Longrightarrow>
    within iv' (f s) \<and> limb_val w (f s) mod l = limb_val w s mod l"
  unfolding safe_step_def by blast

lemma safe_step_compose:
  assumes "safe_step w l f F" "safe_step w l g G"
  shows "safe_step w l (\<lambda>s. g (f s)) (\<lambda>iv. Option.bind (F iv) G)"
  unfolding safe_step_def
proof (intro allI impI)
  fix iv iv' s assume s: "within iv s" and r: "Option.bind (F iv) G = Some iv'"
  then obtain iv1 where "F iv = Some iv1" "G iv1 = Some iv'" by (auto split: Option.bind_splits)
  then show "within iv' (g (f s)) \<and> limb_val w (g (f s)) mod l = limb_val w s mod l"
    using safe_stepD [OF assms(1) s] safe_stepD [OF assms(2)] by metis
qed

lemma safe_step_fold:
  "(\<And>x. x \<in> set xs \<Longrightarrow> safe_step w l (f x) (F x)) \<Longrightarrow> safe_step w l (fold f xs) (opt_fold F xs)"
proof (induction xs)
  case Nil
  then show ?case by (simp add: safe_step_def)
next
  case (Cons x xs)
  then have "safe_step w l (\<lambda>s. fold f xs (f x s)) (\<lambda>iv. Option.bind (F x iv) (opt_fold F xs))"
    by (intro safe_step_compose) simp_all
  then show ?case by (simp add: comp_def)
qed

lemma safe_step_carry:
  assumes "carry_params b r m" and "(m * 2 ^ w j - 2 ^ (w i + b)) mod l = 0"
  shows "safe_step w l (limb_carry b r m i j) (iv_carry b r m i j)"
  unfolding safe_step_def
proof (intro allI impI conjI)
  fix iv iv' s assume s: "within iv s" "iv_carry b r m i j iv = Some iv'"
  show "within iv' (limb_carry b r m i j s)" by (rule limb_carry_sound(1) [OF assms(1) s])
  obtain k where k: "m * 2 ^ w j - 2 ^ (w i + b) = l * k" using assms(2) by (auto simp: mod_eq_0_iff_dvd dvd_def)
  show "limb_val w (limb_carry b r m i j s) mod l = limb_val w s mod l"
    unfolding limb_carry_sound(2) [OF assms(1) s] k by (simp add: mult.left_commute)
qed

subsection \<open>Digits of mixed size\<close>

definition digits :: "(nat \<Rightarrow> nat) \<Rightarrow> nat \<Rightarrow> int list \<Rightarrow> bool" where
  "digits w n s \<longleftrightarrow> length s = Suc n \<and> (\<forall>i < n. 0 \<le> s ! i \<and> s ! i < 2 ^ (w (Suc i) - w i)) \<and> 0 \<le> s ! n"

definition upper :: "(nat \<Rightarrow> nat) \<Rightarrow> nat \<Rightarrow> int list \<Rightarrow> int" where
  "upper w i s = (\<Sum>j\<in>{i..<length s}. s ! j * 2 ^ (w j - w i))"

lemma upper_step:
  assumes "mono w" "i < length s"
  shows "upper w i s = s ! i + 2 ^ (w (Suc i) - w i) * upper w (Suc i) s"
proof -
  have "upper w i s = s ! i + (\<Sum>j\<in>{Suc i..<length s}. s ! j * 2 ^ (w j - w i))"
    unfolding upper_def using assms(2) by (subst sum.atLeast_Suc_lessThan) simp_all
  also have "(\<Sum>j\<in>{Suc i..<length s}. s ! j * 2 ^ (w j - w i)) = 2 ^ (w (Suc i) - w i) * upper w (Suc i) s"
    unfolding upper_def sum_distrib_left
  proof (rule sum.cong [OF refl])
    fix j assume "j \<in> {Suc i..<length s}"
    then have "w i \<le> w (Suc i)" "w (Suc i) \<le> w j" using assms(1) by (simp_all add: monoD)
    then have "w j - w i = (w (Suc i) - w i) + (w j - w (Suc i))" by simp
    then show "s ! j * 2 ^ (w j - w i) = 2 ^ (w (Suc i) - w i) * (s ! j * 2 ^ (w j - w (Suc i)))"
      by (simp add: power_add)
  qed
  finally show ?thesis .
qed

lemma upper_0: "w 0 = 0 \<Longrightarrow> upper w 0 s = limb_val w s"
  unfolding upper_def limb_val_def by (simp add: atLeast0LessThan)

lemma drop_digits:
  assumes "mono w" "w 0 = 0" "digits w n s" "i \<le> n"
  shows "drop_bit (w i) (limb_val w s) = upper w i s"
  using assms(4)
proof (induction i)
  case 0
  then show ?case using assms by (simp add: upper_0)
next
  case (Suc i)
  have l: "i < length s" and d: "0 \<le> s ! i" "s ! i < 2 ^ (w (Suc i) - w i)" using assms(3) Suc.prems by (auto simp: digits_def)
  have "w (Suc i) = w i + (w (Suc i) - w i)" using assms(1) by (simp add: monoD)
  then have "drop_bit (w (Suc i)) (limb_val w s) = drop_bit (w (Suc i) - w i) (drop_bit (w i) (limb_val w s))"
    by (metis add.commute drop_bit_drop_bit)
  also have "\<dots> = (s ! i + 2 ^ (w (Suc i) - w i) * upper w (Suc i) s) div 2 ^ (w (Suc i) - w i)"
    using Suc upper_step [OF assms(1) l] by (simp add: drop_bit_eq_div)
  also have "\<dots> = upper w (Suc i) s" using d by simp
  finally show ?case .
qed

lemma digit_bits:
  assumes "mono w" "w 0 = 0" "digits w n s" "i \<le> n"
  shows "bit (limb_val w s) (w i + m) \<longleftrightarrow>
    (if m < w (Suc i) - w i \<or> i = n then bit (s ! i) m else bit (limb_val w s) (w (Suc i) + (m - (w (Suc i) - w i))))"
proof -
  define d where "d = w (Suc i) - w i"
  have l: "i < length s" using assms by (simp add: digits_def)
  have up: "drop_bit (w i) (limb_val w s) = s ! i + 2 ^ d * upper w (Suc i) s"
    using drop_digits [OF assms] upper_step [OF assms(1) l] by (simp add: d_def)
  have b: "bit (limb_val w s) (w i + m) \<longleftrightarrow> bit (s ! i + 2 ^ d * upper w (Suc i) s) m"
    unfolding up [symmetric] by (simp add: bit_drop_bit_eq)
  show ?thesis
  proof (cases "i = n")
    case True
    then have "upper w (Suc i) s = 0" using assms(3) by (simp add: upper_def digits_def)
    then show ?thesis using True b by simp
  next
    case False
    then have r: "0 \<le> s ! i" "s ! i < 2 ^ d" using assms by (auto simp: digits_def d_def)
    show ?thesis
    proof (cases "m < d")
      case True
      have "take_bit d (s ! i + 2 ^ d * upper w (Suc i) s) = s ! i" using r by (simp add: take_bit_eq_mod)
      then show ?thesis using True b by (simp add: d_def [symmetric]) (metis bit_take_bit_iff)
    next
      case m: False
      have "w i + d = w (Suc i)" using assms(1) by (simp add: d_def monoD)
      then have "w i + m = w (Suc i) + (m - d)" using m by simp
      then show ?thesis using False m by (simp add: d_def)
    qed
  qed
qed

lemma digit_no_high:
  assumes "digits w n s" "i < n" "w (Suc i) - w i \<le> m" shows "\<not> bit (s ! i) m"
proof -
  have "take_bit (w (Suc i) - w i) (s ! i) = s ! i" using assms by (auto simp: digits_def take_bit_int_eq_self)
  then show ?thesis using assms(3) by (metis bit_take_bit_iff not_le)
qed

text \<open>A byte of the number, read off one digit or two neighbouring ones.\<close>

lemma byte_single:
  assumes "mono w" "w 0 = 0" "digits w n s" "i \<le> n" "w i + sh = 8 * k" "w i + sh + 8 \<le> w (Suc i) \<or> i = n"
  shows "(of_int (drop_bit sh (s ! i)) :: u8) = of_int (drop_bit (8 * k) (limb_val w s))"
proof (rule bit_word_eqI)
  fix m assume "m < LENGTH(8)"
  then have m: "m < 8" by simp
  have "bit (limb_val w s) (8 * k + m) \<longleftrightarrow> bit (s ! i) (sh + m)"
    using digit_bits [OF assms(1-4), of "sh + m"] assms(5,6) m by (auto simp: add.assoc [symmetric])
  then show "bit (of_int (drop_bit sh (s ! i)) :: u8) m \<longleftrightarrow> bit (of_int (drop_bit (8 * k) (limb_val w s)) :: u8) m"
    using m by (simp add: bit_of_int_iff bit_drop_bit_eq)
qed

lemma byte_pair:
  assumes "mono w" "w 0 = 0" "digits w n s" "i < n" "w i + sh = 8 * k" "w i + sh < w j" "w j < w i + sh + 8"
    "j = Suc i" "w i + sh + d = w j" "w j + 8 \<le> w (Suc j) + d \<or> j = n"
  shows "(of_int (drop_bit sh (s ! i) OR push_bit d (s ! j)) :: u8) = of_int (drop_bit (8 * k) (limb_val w s))"
proof (rule bit_word_eqI)
  fix m assume "m < LENGTH(8)"
  then have m: "m < 8" by simp
  have le: "w i \<le> w j" using assms(1,8) by (simp add: monoD)
  have "bit (limb_val w s) (8 * k + m) \<longleftrightarrow> (if m < d then bit (s ! i) (sh + m) else bit (s ! j) (m - d))"
  proof (cases "m < d")
    case True
    then have "sh + m < w (Suc i) - w i" using assms(8,9) le by simp
    then show ?thesis
      using True digit_bits [OF assms(1-3), of i "sh + m"] assms(4,5) by (simp add: add.assoc [symmetric])
  next
    case False
    have e: "8 * k + m = w j + (m - d)" using False assms(5,9) by simp
    have "m - d < w (Suc j) - w j \<or> j = n" using assms(10) m False by auto
    then show ?thesis using False digit_bits [OF assms(1-3), of j "m - d"] assms(4,8) unfolding e by auto
  qed
  moreover have "\<not> bit (s ! i) (sh + m)" if "\<not> m < d"
    using that assms(4,8,9) le by (intro digit_no_high [OF assms(3)]) auto
  ultimately show "bit (of_int (drop_bit sh (s ! i) OR push_bit d (s ! j)) :: u8) m \<longleftrightarrow>
      bit (of_int (drop_bit (8 * k) (limb_val w s)) :: u8) m"
    using m by (auto simp: bit_of_int_iff bit_drop_bit_eq bit_or_iff bit_push_bit_iff)
qed

lemma digits_low_sum:
  assumes "mono w" "w 0 = 0" "\<forall>i < n. 0 \<le> s ! i \<and> s ! i < 2 ^ (w (Suc i) - w i)"
  shows "0 \<le> (\<Sum>i<n. s ! i * 2 ^ w i) \<and> (\<Sum>i<n. s ! i * 2 ^ w i) < (2 :: int) ^ w n"
  using assms(3)
proof (induction n)
  case 0
  then show ?case using assms(2) by simp
next
  case (Suc n)
  define S where "S = (\<Sum>i<n. s ! i * 2 ^ w i)"
  have IH: "0 \<le> S" "S < 2 ^ w n" using Suc by (simp_all add: S_def)
  have d: "0 \<le> s ! n" "s ! n \<le> 2 ^ (w (Suc n) - w n) - 1" using Suc.prems by auto
  have "s ! n * 2 ^ w n \<le> (2 ^ (w (Suc n) - w n) - 1) * 2 ^ w n" using d by (intro mult_right_mono) simp_all
  also have "\<dots> = 2 ^ w (Suc n) - 2 ^ w n"
    using assms(1) by (simp add: left_diff_distrib power_add [symmetric] monoD)
  finally have "S + s ! n * 2 ^ w n < 2 ^ w (Suc n)" using IH by linarith
  then show ?case using IH d by (simp add: S_def)
qed

lemma upt_32: "[0..<32] = [0, 1, 2, 3, 4, 5, 6, 7, 8, 9, 10, 11, 12, 13, 14, 15, 16, 17, 18, 19, 20, 21, 22, 23, 24, 25,
    26, 27, 28, 29, 30, 31 :: nat]"
  by (simp add: upt_rec)

end
