(* ===== verification/Scalar25519.thy ===== *)
theory Scalar25519
  imports Limbs
begin

text \<open>
  Arithmetic modulo the order of the base point, the \<open>sc_\<close> functions of \<open>src/crypto/crypto-ops.c\<close>.  A
  scalar is 32 bytes; inside, it is twelve (or, before reduction, twenty-four) limbs of 21 bits in
  \<open>int64_t\<close>.  The straight-line code of the source is a sequence of three kinds of lines, which are the
  three operations here: a carry that rounds, a carry that floors, and the folding of a high limb into six
  lower ones by the constants of the order.  The lemmas show that no line overflows 64 bits and that every
  function returns the unique representative below the order.
\<close>

unbundle bit_operations_syntax

subsection \<open>Bytes to limbs and back\<close>

definition load_3 :: "bytes \<Rightarrow> u64" where
  "load_3 inp = ucast (inp ! 0) OR push_bit 8 (ucast (inp ! 1)) OR push_bit 16 (ucast (inp ! 2))"

definition load_4 :: "bytes \<Rightarrow> u64" where
  "load_4 inp =
    ucast (inp ! 0) OR push_bit 8 (ucast (inp ! 1)) OR push_bit 16 (ucast (inp ! 2)) OR push_bit 24 (ucast (inp ! 3))"

text \<open>The first eleven limbs, which every function loads alike; the last limb keeps all its bits.\<close>

definition sc_load_low :: "bytes \<Rightarrow> int list" where
  "sc_load_low s =
    [uint (2097151 AND load_3 s),
     uint (2097151 AND drop_bit 5 (load_4 (drop 2 s))),
     uint (2097151 AND drop_bit 2 (load_3 (drop 5 s))),
     uint (2097151 AND drop_bit 7 (load_4 (drop 7 s))),
     uint (2097151 AND drop_bit 4 (load_4 (drop 10 s))),
     uint (2097151 AND drop_bit 1 (load_3 (drop 13 s))),
     uint (2097151 AND drop_bit 6 (load_4 (drop 15 s))),
     uint (2097151 AND drop_bit 3 (load_3 (drop 18 s))),
     uint (2097151 AND load_3 (drop 21 s)),
     uint (2097151 AND drop_bit 5 (load_4 (drop 23 s))),
     uint (2097151 AND drop_bit 2 (load_3 (drop 26 s)))]"

definition sc_load :: "bytes \<Rightarrow> int list" where
  "sc_load s = sc_load_low s @ [uint (drop_bit 7 (load_4 (drop 28 s)))]"

definition sc_load64 :: "bytes \<Rightarrow> int list" where
  "sc_load64 s = sc_load_low s @
    [uint (2097151 AND drop_bit 7 (load_4 (drop 28 s))),
     uint (2097151 AND drop_bit 4 (load_4 (drop 31 s))),
     uint (2097151 AND drop_bit 1 (load_3 (drop 34 s))),
     uint (2097151 AND drop_bit 6 (load_4 (drop 36 s))),
     uint (2097151 AND drop_bit 3 (load_3 (drop 39 s))),
     uint (2097151 AND load_3 (drop 42 s)),
     uint (2097151 AND drop_bit 5 (load_4 (drop 44 s))),
     uint (2097151 AND drop_bit 2 (load_3 (drop 47 s))),
     uint (2097151 AND drop_bit 7 (load_4 (drop 49 s))),
     uint (2097151 AND drop_bit 4 (load_4 (drop 52 s))),
     uint (2097151 AND drop_bit 1 (load_3 (drop 55 s))),
     uint (2097151 AND drop_bit 6 (load_4 (drop 57 s))),
     uint (drop_bit 3 (load_4 (drop 60 s)))]"

definition sc_store :: "int list \<Rightarrow> bytes" where
  "sc_store s =
    [of_int (drop_bit 0 (s ! 0)), of_int (drop_bit 8 (s ! 0)), of_int (drop_bit 16 (s ! 0) OR push_bit 5 (s ! 1)),
     of_int (drop_bit 3 (s ! 1)), of_int (drop_bit 11 (s ! 1)), of_int (drop_bit 19 (s ! 1) OR push_bit 2 (s ! 2)),
     of_int (drop_bit 6 (s ! 2)), of_int (drop_bit 14 (s ! 2) OR push_bit 7 (s ! 3)), of_int (drop_bit 1 (s ! 3)),
     of_int (drop_bit 9 (s ! 3)), of_int (drop_bit 17 (s ! 3) OR push_bit 4 (s ! 4)), of_int (drop_bit 4 (s ! 4)),
     of_int (drop_bit 12 (s ! 4)), of_int (drop_bit 20 (s ! 4) OR push_bit 1 (s ! 5)), of_int (drop_bit 7 (s ! 5)),
     of_int (drop_bit 15 (s ! 5) OR push_bit 6 (s ! 6)), of_int (drop_bit 2 (s ! 6)), of_int (drop_bit 10 (s ! 6)),
     of_int (drop_bit 18 (s ! 6) OR push_bit 3 (s ! 7)), of_int (drop_bit 5 (s ! 7)), of_int (drop_bit 13 (s ! 7)),
     of_int (drop_bit 0 (s ! 8)), of_int (drop_bit 8 (s ! 8)), of_int (drop_bit 16 (s ! 8) OR push_bit 5 (s ! 9)),
     of_int (drop_bit 3 (s ! 9)), of_int (drop_bit 11 (s ! 9)), of_int (drop_bit 19 (s ! 9) OR push_bit 2 (s ! 10)),
     of_int (drop_bit 6 (s ! 10)), of_int (drop_bit 14 (s ! 10) OR push_bit 7 (s ! 11)), of_int (drop_bit 1 (s ! 11)),
     of_int (drop_bit 9 (s ! 11)), of_int (drop_bit 17 (s ! 11))]"

subsection \<open>The lines of the reduction\<close>

text \<open>\<open>carry = (s[i] + (1<<20)) >> 21; s[i+1] += carry; s[i] -= carry << 21\<close>, and without the rounding.\<close>

definition sc_round :: "nat \<Rightarrow> int list \<Rightarrow> int list" where
  "sc_round i = limb_carry 21 (2 ^ 20) 1 i (Suc i)"

definition sc_floor :: "nat \<Rightarrow> int list \<Rightarrow> int list" where
  "sc_floor i = limb_carry 21 0 1 i (Suc i)"

text \<open>The six lines that fold limb \<open>i\<close> into the limbs \<open>i - 12\<close> to \<open>i - 7\<close>.  A folded limb is not used again
  (or is set to 0) in the source; here it is 0.\<close>

definition limb_addmul :: "nat \<Rightarrow> nat \<Rightarrow> int \<Rightarrow> int list \<Rightarrow> int list" where
  "limb_addmul i j c s = s[j := i64 (s ! j + i64 (s ! i * c))]"

definition sc_consts :: "(nat \<times> int) list" where
  "sc_consts = [(0, 666643), (1, 470296), (2, 654183), (3, - 997805), (4, 136657), (5, - 683901)]"

definition sc_fold :: "nat \<Rightarrow> int list \<Rightarrow> int list" where
  "sc_fold i s = (fold (\<lambda>(k, c). limb_addmul i (i - 12 + k) c) sc_consts s)[i := 0]"

text \<open>The last stage of every function, from thirteen limbs to the reduced twelve.\<close>

definition sc_settle :: "int list \<Rightarrow> int list" where
  "sc_settle s = fold sc_floor [0..<12] (sc_fold 12 (fold sc_round ([0, 2, 4, 6, 8, 10] @ [1, 3, 5, 7, 9, 11]) s))"

definition sc_last :: "int list \<Rightarrow> int list" where
  "sc_last s = fold sc_floor [0..<11] (sc_fold 12 s)"

text \<open>The stage before it that brings twenty-four limbs down to thirteen.\<close>

definition sc_high :: "int list \<Rightarrow> int list" where
  "sc_high s = fold sc_fold [17, 16, 15, 14, 13, 12]
    (fold sc_round ([6, 8, 10, 12, 14, 16] @ [7, 9, 11, 13, 15])
      (fold sc_fold [23, 22, 21, 20, 19, 18] s))"

subsection \<open>The functions\<close>

definition sc_0 :: bytes where "sc_0 = replicate 32 0"
definition sc_1 :: bytes where "sc_1 = 1 # replicate 31 0"

definition sc_reduce32 :: "bytes \<Rightarrow> bytes" where
  "sc_reduce32 s = sc_store (sc_last (sc_settle (sc_load s @ [0])))"

definition sc_reduce :: "bytes \<Rightarrow> bytes" where
  "sc_reduce s = sc_store (sc_last (sc_settle (sc_high (sc_load64 s))))"

definition sc_add :: "bytes \<Rightarrow> bytes \<Rightarrow> bytes" where
  "sc_add a b = sc_store (sc_last (sc_settle (map2 (\<lambda>x y. i64 (x + y)) (sc_load a) (sc_load b) @ [0])))"

definition sc_sub :: "bytes \<Rightarrow> bytes \<Rightarrow> bytes" where
  "sc_sub a b = sc_store (sc_last (sc_settle (map2 (\<lambda>x y. i64 (x - y)) (sc_load a) (sc_load b) @ [0])))"

text \<open>Column \<open>k\<close> of a product, \<open>a0*bk + a1*b(k-1) + ...\<close>.\<close>

definition sc_column :: "int list \<Rightarrow> int list \<Rightarrow> nat \<Rightarrow> int" where
  "sc_column a b k = sum_list (map (\<lambda>i. i64 (a ! i * b ! (k - i))) [k - 11..<min 12 (Suc k)])"

text \<open>The carries the multiplications make first.\<close>

definition sc_spread :: "int list \<Rightarrow> int list" where
  "sc_spread s = fold sc_round
    ([0, 2, 4, 6, 8, 10, 12, 14, 16, 18, 20, 22] @ [1, 3, 5, 7, 9, 11, 13, 15, 17, 19, 21]) s"

text \<open>All that follows the products: carry, fold, settle, store.\<close>

definition sc_tail :: "int list \<Rightarrow> bytes" where
  "sc_tail s = sc_store (sc_last (sc_settle (sc_high (sc_spread s))))"

definition sc_mul :: "bytes \<Rightarrow> bytes \<Rightarrow> bytes" where
  "sc_mul a b =
    (let a = sc_load a; b = sc_load b
     in sc_tail (map (\<lambda>k. i64 (sc_column a b k)) [0..<23] @ [0]))"

definition sc_muladd :: "bytes \<Rightarrow> bytes \<Rightarrow> bytes \<Rightarrow> bytes" where
  "sc_muladd a b c =
    (let a = sc_load a; b = sc_load b; c = sc_load c
     in sc_tail (map (\<lambda>k. i64 (c ! k + i64 (sc_column a b k))) [0..<12] @
          map (\<lambda>k. i64 (sc_column a b k)) [12..<23] @ [0]))"

definition sc_mulsub :: "bytes \<Rightarrow> bytes \<Rightarrow> bytes \<Rightarrow> bytes" where
  "sc_mulsub a b c =
    (let a = sc_load a; b = sc_load b; c = sc_load c
     in sc_tail (map (\<lambda>k. i64 (c ! k - i64 (sc_column a b k))) [0..<12] @
          map (\<lambda>k. i64 (- i64 (sc_column a b k))) [12..<23] @ [0]))"

definition signum :: "int \<Rightarrow> int" where
  "signum a = (if a > 0 then 1 else if a < 0 then - 1 else 0)"

definition signed_lshift :: "int \<Rightarrow> nat \<Rightarrow> int" where
  "signed_lshift a b = i64 (push_bit b a)"

definition sc_check :: "bytes \<Rightarrow> int" where
  "sc_check s =
    (let s0 = uint (load_4 s); s1 = uint (load_4 (drop 4 s)); s2 = uint (load_4 (drop 8 s));
         s3 = uint (load_4 (drop 12 s)); s4 = uint (load_4 (drop 16 s)); s5 = uint (load_4 (drop 20 s));
         s6 = uint (load_4 (drop 24 s)); s7 = uint (load_4 (drop 28 s))
     in - (if 0 > signum (1559614444 - s0) + signed_lshift (signum (1477600026 - s1)) 1
               + signed_lshift (signum (2734136534 - s2)) 2 + signed_lshift (signum (350157278 - s3)) 3
               + signed_lshift (signum (- s4)) 4 + signed_lshift (signum (- s5)) 5
               + signed_lshift (signum (- s6)) 6 + signed_lshift (signum (268435456 - s7)) 7
           then 1 else 0))"

definition sc_isnonzero :: "bytes \<Rightarrow> int" where
  "sc_isnonzero s = drop_bit 8 (uint (fold (\<lambda>i acc. acc OR s ! i) [1..<32] (s ! 0)) - 1) + 1"

definition sc_order :: int where
  "sc_order = 2 ^ 252 + 27742317777372353535851937790883648493"

subsection \<open>Loading\<close>

lemma bit_le_val: "bit (le_val s) n \<longleftrightarrow> n div 8 < length s \<and> bit (s ! (n div 8)) (n mod 8)"
proof (induction s arbitrary: n)
  case Nil
  then show ?case by simp
next
  case (Cons b s)
  have "unat b < 2 ^ 8" using unat_bound_8 [of b] by simp
  then have e: "le_val (b # s) = unat b OR push_bit 8 (le_val s)"
  proof -
    have "unat b AND push_bit 8 (le_val s) = 0"
      by (rule bit_eqI) (auto simp: bit_simps dest: bit_imp_le_length)
    then have "unat b + push_bit 8 (le_val s) = unat b OR push_bit 8 (le_val s)"
      by (rule disjunctive_add_eq_or)
    moreover have "push_bit 8 (le_val s) = 256 * le_val s" by (simp add: push_bit_eq_mult)
    ultimately show ?thesis by simp
  qed
  show ?case
  proof (cases "n < 8")
    case True
    then show ?thesis unfolding e by (simp add: bit_simps)
  next
    case False
    then have "n div 8 = Suc ((n - 8) div 8)" "n mod 8 = (n - 8) mod 8"
      by (simp_all add: le_div_geq le_mod_geq)
    with False show ?thesis unfolding e by (auto simp: bit_simps Cons.IH dest: bit_imp_le_length)
  qed
qed

lemma bit_load:
  assumes "m \<le> 8" "k + m \<le> length s"
  shows "bit (le_word (take m (drop k s)) :: u64) n \<longleftrightarrow> n < 8 * m \<and> bit (le_val s) (8 * k + n)"
proof -
  have "n div 8 < m \<longleftrightarrow> n < 8 * m" by (simp add: div_less_iff_less_mult mult.commute)
  then show ?thesis using assms by (auto simp: bit_le_word bit_le_val)
qed

lemma load_3_le_word: "3 \<le> length s \<Longrightarrow> load_3 s = le_word (take 3 s)"
proof -
  assume "3 \<le> length s"
  then have "take 3 s = [s ! 0, s ! 1, s ! 2]" by (intro nth_equalityI) (auto simp: less_Suc_eq numeral_eq_Suc)
  then show ?thesis by (simp add: load_3_def push_bit_or or.assoc push_bit_push_bit)
qed

lemma load_4_le_word: "4 \<le> length s \<Longrightarrow> load_4 s = le_word (take 4 s)"
proof -
  assume "4 \<le> length s"
  then have "take 4 s = [s ! 0, s ! 1, s ! 2, s ! 3]"
    by (intro nth_equalityI) (auto simp: less_Suc_eq numeral_eq_Suc)
  then show ?thesis by (simp add: load_4_def push_bit_or or.assoc push_bit_push_bit)
qed

lemma load_limb:
  assumes "m \<le> 8" "k + m \<le> length s" "sh + 21 \<le> 8 * m"
  shows "uint (2097151 AND drop_bit sh (le_word (take m (drop k s)) :: u64)) = take_bit 21 (drop_bit (8 * k + sh) (int (le_val s)))"
proof -
  have m: "(2097151 :: u64) = mask 21" by (simp add: mask_eq_exp_minus_1)
  show ?thesis unfolding m
    by (rule bit_eqI) (use assms in \<open>auto simp: bit_simps bit_load add.assoc\<close>)
qed

lemma load_top:
  assumes "m \<le> 8" "k + m = length s"
  shows "uint (drop_bit sh (le_word (take m (drop k s)) :: u64)) = drop_bit (8 * k + sh) (int (le_val s))"
proof (rule bit_eqI)
  fix n
  have *: "bit (le_val s) (8 * k + sh + n) \<Longrightarrow> sh + n < 8 * m"
  proof -
    assume "bit (le_val s) (8 * k + sh + n)"
    then have "(8 * k + sh + n) div 8 < length s" by (simp add: bit_le_val)
    then show "sh + n < 8 * m" using assms by (simp add: div_less_iff_less_mult)
  qed
  show "bit (uint (drop_bit sh (le_word (take m (drop k s)) :: u64))) n = bit (drop_bit (8 * k + sh) (int (le_val s))) n"
    using * bit_load [of m k s "sh + n"] assms by (auto simp: bit_simps add.assoc simp del: take_all_iff)
qed

lemma limbs_sum:
  "(\<Sum>i<n. take_bit b (drop_bit (b * i) N) * 2 ^ (b * i)) + drop_bit (b * n) N * 2 ^ (b * n) = (N :: int)"
proof (induction n)
  case (Suc n)
  define q where "q = drop_bit (b * n) N"
  have "drop_bit (b * Suc n) N = q div 2 ^ b"
    by (simp add: q_def drop_bit_eq_div zdiv_zmult2_eq power_add mult.commute [of "2 ^ b"])
  moreover have "take_bit b q + q div 2 ^ b * 2 ^ b = q" by (simp only: take_bit_eq_mod mod_div_mult_eq)
  then have "q * 2 ^ (b * n) = take_bit b q * 2 ^ (b * n) + q div 2 ^ b * 2 ^ (b * Suc n)"
    by (simp add: power_add distrib_right [symmetric] mult.assoc [symmetric])
  ultimately show ?case using Suc by (simp add: q_def [symmetric] add.assoc)
qed simp


lemma load_limbs:
  assumes "35 \<le> length s \<or> length s = 32"
  shows "sc_load_low s = map (\<lambda>i. take_bit 21 (drop_bit (21 * i) (int (le_val s)))) [0..<11]"
proof -
  have l: "32 \<le> length s" using assms by auto
  have l3: "load_3 (drop k s) = le_word (take 3 (drop k s))" if "k \<le> 29" for k using that l by (simp add: load_3_le_word)
  have l4: "load_4 (drop k s) = le_word (take 4 (drop k s))" if "k \<le> 28" for k using that l by (simp add: load_4_le_word)
  have L: "uint (2097151 AND drop_bit sh (load_3 (drop k s))) = take_bit 21 (drop_bit (8 * k + sh) (int (le_val s)))"
    if "k \<le> 29" "sh \<le> 3" for k sh unfolding l3 [OF that(1)] using that l by (intro load_limb) simp_all
  have M: "uint (2097151 AND drop_bit sh (load_4 (drop k s))) = take_bit 21 (drop_bit (8 * k + sh) (int (le_val s)))"
    if "k \<le> 28" "sh \<le> 11" for k sh unfolding l4 [OF that(1)] using that l by (intro load_limb) simp_all
  have L0: "uint (2097151 AND load_3 (drop k s)) = take_bit 21 (drop_bit (8 * k) (int (le_val s)))" if "k \<le> 29" for k
    using L [of k 0] that by simp
  show ?thesis
    using L0 [of 0] M [of 2 5] L [of 5 2] M [of 7 7] M [of 10 4] L [of 13 1] M [of 15 6] L [of 18 3] L0 [of 21]
      M [of 23 5] L [of 26 2]
    by (simp add: sc_load_low_def upt_rec)
qed

definition sc_w :: "nat \<Rightarrow> nat" where "sc_w i = 21 * i"

lemma limb_val_21: "limb_val sc_w [] = 0" "limb_val sc_w (x # xs) = x + 2 ^ 21 * limb_val sc_w xs"
proof -
  show "limb_val sc_w (x # xs) = x + 2 ^ 21 * limb_val sc_w xs"
    unfolding limb_val_def length_Cons sum.lessThan_Suc_shift
    by (simp add: sum_distrib_left sc_w_def power_add mult.left_commute)
qed (simp add: limb_val_def)

lemma limb_val_21_append: "limb_val sc_w (xs @ ys) = limb_val sc_w xs + 2 ^ (21 * length xs) * limb_val sc_w ys"
  by (induction xs) (simp_all add: limb_val_21 power_add algebra_simps)

lemma limb_val_21_zeros: "limb_val sc_w (replicate n 0) = 0"
  by (induction n) (simp_all add: limb_val_21)

lemma limb_val_map: "limb_val sc_w (map f [0..<n]) = (\<Sum>i<n. f i * 2 ^ (21 * i))"
  unfolding limb_val_def sc_w_def by (intro sum.cong) simp_all

definition iv_bytes32 :: intervals where
  "iv_bytes32 = replicate 11 (0, 2097151) @ [(0, 33554431)]"

definition iv_bytes64 :: intervals where
  "iv_bytes64 = replicate 23 (0, 2097151) @ [(0, 536870911)]"

lemma take_bit_21_range: "0 \<le> take_bit 21 (x :: int) \<and> take_bit 21 x \<le> 2097151"
  using take_bit_int_less_exp [of 21 x] by simp

lemma within_append: "within iv s \<Longrightarrow> within jv t \<Longrightarrow> within (iv @ jv) (s @ t)"
  by (auto simp: within_def nth_append)

lemma within_Cons: "within ((l, u) # iv) (x # s) \<longleftrightarrow> l \<le> x \<and> x \<le> u \<and> within iv s"
  by (auto simp: within_def nth_Cons' less_Suc_eq_0_disj)

lemma within_Nil: "within [] s \<longleftrightarrow> s = []"
  by (auto simp: within_def)

lemma within_map_upt: "(\<And>i. i < n \<Longrightarrow> l \<le> f i \<and> f i \<le> u) \<Longrightarrow> within (replicate n (l, u)) (map f [0..<n])"
  by (simp add: within_def)

lemma le_val_less: "int (le_val s) < 2 ^ (8 * length s)"
proof -
  have "int (le_val s) < int (256 ^ length s)" using le_val_bound [of s] by (simp only: of_nat_less_iff)
  also have "int (256 ^ length s) = 2 ^ (8 * length s)" by (simp add: power_mult)
  finally show ?thesis .
qed

lemma sc_load_eq:
  assumes "length s = 32"
  shows "sc_load s = map (\<lambda>i. take_bit 21 (drop_bit (21 * i) (int (le_val s)))) [0..<11] @ [drop_bit 231 (int (le_val s))]"
proof -
  have "uint (drop_bit 7 (load_4 (drop 28 s))) = drop_bit (8 * 28 + 7) (int (le_val s))"
    using assms load_top [of 4 28 s 7] by (simp add: load_4_le_word del: take_all_iff)
  then show ?thesis using load_limbs [of s] assms by (simp add: sc_load_def)
qed

lemma sc_load_val:
  assumes "length s = 32" shows "limb_val sc_w (sc_load s) = int (le_val s)"
  using limbs_sum [of 21 "int (le_val s)" 11]
  by (simp add: sc_load_eq [OF assms] limb_val_21_append limb_val_map limb_val_21 mult.commute)

lemma int_div_less: "0 < m \<Longrightarrow> x < k * m \<Longrightarrow> x div m < (k :: int)"
proof -
  assume m: "0 < m" and x: "x < k * m"
  have "x div m * m \<le> x" using m by (simp add: minus_mod_eq_div_mult [symmetric])
  then have "x div m * m < k * m" using x by linarith
  then show ?thesis using m by simp
qed

lemma sc_load_within:
  assumes "length s = 32" shows "within iv_bytes32 (sc_load s)"
  unfolding sc_load_eq [OF assms] iv_bytes32_def
proof (intro within_append within_map_upt take_bit_21_range)
  have "int (le_val s) < 2 ^ 25 * 2 ^ 231" using le_val_less [of s] assms by simp
  then have "int (le_val s) div 2 ^ 231 < 2 ^ 25" by (intro int_div_less) simp_all
  then show "within [(0, 33554431)] [drop_bit 231 (int (le_val s))]"
    by (simp add: within_Cons within_Nil drop_bit_eq_div)
qed

lemma sc_load64_eq:
  assumes "length s = 64"
  shows "sc_load64 s = map (\<lambda>i. take_bit 21 (drop_bit (21 * i) (int (le_val s)))) [0..<23] @ [drop_bit 483 (int (le_val s))]"
proof -
  define N where "N = int (le_val s)"
  have L: "uint (2097151 AND drop_bit sh (load_3 (drop k s))) = take_bit 21 (drop_bit (8 * k + sh) N)"
    if "k \<le> 55" "sh \<le> 3" for k sh
    using that assms load_limb [of 3 k s sh] by (simp add: load_3_le_word N_def)
  have M: "uint (2097151 AND drop_bit sh (load_4 (drop k s))) = take_bit 21 (drop_bit (8 * k + sh) N)"
    if "k \<le> 57" "sh \<le> 11" for k sh
    using that assms load_limb [of 4 k s sh] by (simp add: load_4_le_word N_def)
  have T: "uint (drop_bit 3 (load_4 (drop 60 s))) = drop_bit 483 N"
    using assms load_top [of 4 60 s 3] by (simp add: load_4_le_word N_def del: take_all_iff)
  have low: "sc_load_low s = map (\<lambda>i. take_bit 21 (drop_bit (21 * i) N)) [0..<11]"
    using load_limbs [of s] assms by (simp add: N_def)
  have split: "[0..<23] = [0..<11] @ [11, 12, 13, 14, 15, 16, 17, 18, 19, 20, 21, 22 :: nat]" by (simp add: upt_rec)
  show ?thesis
    unfolding sc_load64_def low split map_append N_def [symmetric]
    using M [of 28 7] M [of 31 4] L [of 34 1] M [of 36 6] L [of 39 3] L [of 42 0] M [of 44 5] L [of 47 2] M [of 49 7]
      M [of 52 4] L [of 55 1] M [of 57 6] T by simp
qed

lemma sc_load64_val:
  assumes "length s = 64" shows "limb_val sc_w (sc_load64 s) = int (le_val s)"
  using limbs_sum [of 21 "int (le_val s)" 23]
  by (simp add: sc_load64_eq [OF assms] limb_val_21_append limb_val_map limb_val_21 mult.commute)

lemma sc_load64_within:
  assumes "length s = 64" shows "within iv_bytes64 (sc_load64 s)"
  unfolding sc_load64_eq [OF assms] iv_bytes64_def
proof (intro within_append within_map_upt take_bit_21_range)
  have "int (le_val s) < 2 ^ 29 * 2 ^ 483" using le_val_less [of s] assms by simp
  then have "int (le_val s) div 2 ^ 483 < 2 ^ 29" by (intro int_div_less) simp_all
  then show "within [(0, 536870911)] [drop_bit 483 (int (le_val s))]"
    by (simp add: within_Cons within_Nil drop_bit_eq_div)
qed

subsection \<open>Storing\<close>

abbreviation digits21 :: "int list \<Rightarrow> bool" where "digits21 \<equiv> digits sc_w 11"

lemma sc_w_mono: "mono sc_w" "sc_w 0 = 0"
  by (simp_all add: sc_w_def mono_def)

lemma sc_store_eq:
  assumes "digits21 s" shows "sc_store s = map (\<lambda>k. of_int (drop_bit (8 * k) (limb_val sc_w s))) [0..<32]"
proof -
  note single = byte_single [OF sc_w_mono assms] and pair = byte_pair [OF sc_w_mono assms]
  show ?thesis
    unfolding sc_store_def upt_32 list.map list.inject
    by (intro conjI refl; (rule single | rule pair); simp add: sc_w_def)
qed

lemma le_val_of_bits: "0 \<le> V \<Longrightarrow> V < 2 ^ (8 * n) \<Longrightarrow> int (le_val (map (\<lambda>k. of_int (drop_bit (8 * k) V)) [0..<n])) = V"
proof -
  assume V: "0 \<le> V" "V < 2 ^ (8 * n)"
  show ?thesis
  proof (rule bit_eqI)
    fix m
    define bs :: bytes where "bs = map (\<lambda>k. of_int (drop_bit (8 * k) V)) [0..<n]"
    have "take_bit (8 * n) V = V" using V by (simp add: take_bit_int_eq_self)
    then have hi: "bit V m \<Longrightarrow> m < 8 * n" by (metis bit_take_bit_iff)
    have "bit (int (le_val bs)) m \<longleftrightarrow> m div 8 < n \<and> bit V (8 * (m div 8) + m mod 8)"
      by (auto simp: bit_simps bit_le_val bs_def)
    also have "\<dots> \<longleftrightarrow> bit V m" using hi by (auto simp: div_less_iff_less_mult mult.commute)
    finally show "bit (int (le_val (map (\<lambda>k. of_int (drop_bit (8 * k) V)) [0..<n]))) m = bit V m"
      by (simp only: bs_def)
  qed
qed

lemma sc_store_val:
  assumes "digits21 s" "limb_val sc_w s < 2 ^ 256"
  shows "int (le_val (sc_store s)) = limb_val sc_w s" and "length (sc_store s) = 32"
proof -
  have "0 \<le> limb_val sc_w s"
    unfolding limb_val_def
  proof (intro sum_nonneg mult_nonneg_nonneg)
    fix i assume "i \<in> {..<length s}"
    then have "i < 11 \<or> i = 11" using assms(1) by (auto simp: digits_def)
    then show "0 \<le> s ! i" using assms(1) by (auto simp: digits_def)
  qed simp
  then show "int (le_val (sc_store s)) = limb_val sc_w s"
    unfolding sc_store_eq [OF assms(1)] using assms(2) by (intro le_val_of_bits) simp_all
qed (simp add: sc_store_def)

subsection \<open>Folding\<close>

definition iv_addmul :: "nat \<Rightarrow> nat \<Rightarrow> int \<Rightarrow> intervals \<Rightarrow> intervals option" where
  "iv_addmul i j c iv =
    (let (li, ui) = iv ! i; (lj, uj) = iv ! j; a = min (li * c) (ui * c); b = max (li * c) (ui * c)
     in if i < length iv \<and> j < length iv \<and> i \<noteq> j \<and> - (2 ^ 62) \<le> a \<and> b \<le> 2 ^ 62
        then iv_check (iv[j := (lj + a, uj + b)]) else None)"

definition iv_fold :: "nat \<Rightarrow> intervals \<Rightarrow> intervals option" where
  "iv_fold i iv = do { iv \<leftarrow> opt_fold (\<lambda>(k, c). iv_addmul i (i - 12 + k) c) sc_consts iv; Some (iv[i := (0, 0)]) }"

lemma mult_const_range:
  assumes "l \<le> x" "x \<le> u" shows "min (l * c) (u * c) \<le> x * c" "x * c \<le> max (l * c) (u * (c :: int))"
proof -
  show "min (l * c) (u * c) \<le> x * c"
  proof (cases "0 \<le> c")
    case True
    then show ?thesis using mult_right_mono [OF assms(1) True] by linarith
  next
    case False
    then show ?thesis using mult_right_mono_neg [OF assms(2), of c] by linarith
  qed
  show "x * c \<le> max (l * c) (u * c)"
  proof (cases "0 \<le> c")
    case True
    then show ?thesis using mult_right_mono [OF assms(2) True] by linarith
  next
    case False
    then show ?thesis using mult_right_mono_neg [OF assms(1), of c] by linarith
  qed
qed

lemma limb_addmul_sound:
  assumes s: "within iv s" and iv: "iv_addmul i j c iv = Some iv'"
  shows "within iv' (limb_addmul i j c s)" "limb_addmul i j c s = s[j := s ! j + s ! i * c]"
    "i < length s" "j < length s" "i \<noteq> j"
proof -
  obtain li ui lj uj where ij: "iv ! i = (li, ui)" "iv ! j = (lj, uj)" by fastforce
  define a b where "a = min (li * c) (ui * c)" and "b = max (li * c) (ui * c)"
  have c: "i < length iv" "j < length iv" "i \<noteq> j" "- (2 ^ 62) \<le> a" "b \<le> 2 ^ 62"
    and iv': "iv' = iv[j := (lj + a, uj + b)]" and fits': "iv_fits iv'"
    using iv by (auto simp: iv_addmul_def ij iv_check_def a_def b_def Let_def split: if_splits)
  show "i \<noteq> j" by (rule c)
  show len: "i < length s" "j < length s" using c s by (simp_all add: within_def)
  have x: "a \<le> s ! i * c" "s ! i * c \<le> b"
    unfolding a_def b_def using within_nth [OF s c(1)] ij by (simp_all only: fst_conv snd_conv mult_const_range)
  have y: "lj \<le> s ! j" "s ! j \<le> uj" using within_nth [OF s c(2)] ij by simp_all
  have r: "- (2 ^ 62) \<le> lj + a" "uj + b \<le> 2 ^ 62" using iv_fits_nth [OF fits', of j] c by (simp_all add: iv')
  have "i64 (s ! i * c) = s ! i * c" using x c by (intro i64_id) simp_all
  moreover have "i64 (s ! j + s ! i * c) = s ! j + s ! i * c" using x y r by (intro i64_id) simp_all
  ultimately show eq: "limb_addmul i j c s = s[j := s ! j + s ! i * c]" by (simp add: limb_addmul_def)
  show "within iv' (limb_addmul i j c s)" unfolding eq iv' using s c x y by (intro within_update) simp_all
qed

lemma addmul_sequence:
  assumes "within iv s" "opt_fold (\<lambda>(k, c). iv_addmul i (f k) c) cs iv = Some iv'"
  defines "s' \<equiv> fold (\<lambda>(k, c). limb_addmul i (f k) c) cs s"
  shows "within iv' s' \<and> s' ! i = s ! i \<and> limb_val w s' = limb_val w s + s ! i * (\<Sum>(k, c) \<leftarrow> cs. c * 2 ^ w (f k))"
  using assms(1,2) unfolding s'_def
proof (induction cs arbitrary: s iv)
  case (Cons kc cs)
  obtain k c where kc: "kc = (k, c)" by fastforce
  obtain iv1 where iv1: "iv_addmul i (f k) c iv = Some iv1" "opt_fold (\<lambda>(k, c). iv_addmul i (f k) c) cs iv1 = Some iv'"
    using Cons.prems(2) kc by (auto split: Option.bind_splits)
  define s1 where "s1 = limb_addmul i (f k) c s"
  note a = limb_addmul_sound [OF Cons.prems(1) iv1(1), folded s1_def]
  have "s1 ! i = s ! i" using a by simp
  moreover have "limb_val w s1 = limb_val w s + s ! i * (c * 2 ^ w (f k))"
    unfolding a(2) using a(4) by (simp add: limb_val_update)
  ultimately show ?case
    using Cons.IH [OF a(1) iv1(2)] kc by (simp add: s1_def [symmetric] algebra_simps)
qed simp

lemma sc_fold_constants:
  "12 \<le> i \<Longrightarrow> (\<Sum>(k, c) \<leftarrow> sc_consts. c * 2 ^ sc_w (i - 12 + k)) = 2 ^ sc_w i - 2 ^ sc_w (i - 12) * sc_order"
proof -
  assume "12 \<le> i"
  then obtain j where i: "i = j + 12" by (metis le_add_diff_inverse2)
  show ?thesis unfolding i sc_w_def sc_consts_def sc_order_def by (simp add: power_add)
qed

lemma sc_fold_exact:
  assumes s: "within iv s" and iv: "iv_fold i iv = Some iv'" and i: "12 \<le> i"
  shows "within iv' (sc_fold i s)" and "limb_val sc_w (sc_fold i s) = limb_val sc_w s - s ! i * 2 ^ sc_w (i - 12) * sc_order"
proof -
  obtain iv1 where iv1: "opt_fold (\<lambda>(k, c). iv_addmul i (i - 12 + k) c) sc_consts iv = Some iv1" "iv' = iv1[i := (0, 0)]"
    using iv by (auto simp: iv_fold_def split: Option.bind_splits)
  define s1 where "s1 = fold (\<lambda>(k, c). limb_addmul i (i - 12 + k) c) sc_consts s"
  note a = addmul_sequence [OF s iv1(1), of sc_w, folded s1_def]
  have "i < length s" 
    using iv1(1) s unfolding sc_consts_def
    by (auto simp: iv_addmul_def Let_def within_def split: Option.bind_splits if_splits prod.splits)
  moreover have "length s1 = length s" unfolding s1_def sc_consts_def by (simp add: limb_addmul_def)
  ultimately have l: "i < length s1" by simp
  show "within iv' (sc_fold i s)"
    unfolding sc_fold_def s1_def [symmetric] iv1(2) using a l by (intro within_update) (auto simp: within_def)
  show "limb_val sc_w (sc_fold i s) = limb_val sc_w s - s ! i * 2 ^ sc_w (i - 12) * sc_order"
    unfolding sc_fold_def s1_def [symmetric] limb_val_update [OF l]
    using a unfolding sc_fold_constants [OF i] by (simp add: algebra_simps)
qed

lemma sc_fold_safe: "12 \<le> i \<Longrightarrow> safe_step sc_w sc_order (sc_fold i) (iv_fold i)"
  unfolding safe_step_def using sc_fold_exact
  by (auto simp: mod_eq_dvd_iff)

definition iv_round :: "nat \<Rightarrow> intervals \<Rightarrow> intervals option" where
  "iv_round i = iv_carry 21 (2 ^ 20) 1 i (Suc i)"

definition iv_floor :: "nat \<Rightarrow> intervals \<Rightarrow> intervals option" where
  "iv_floor i = iv_carry 21 0 1 i (Suc i)"

lemma sc_round_safe: "safe_step sc_w l (sc_round i) (iv_round i)"
  unfolding sc_round_def iv_round_def by (rule safe_step_carry) (simp_all add: carry_params_def sc_w_def power_add)

lemma sc_floor_safe: "safe_step sc_w l (sc_floor i) (iv_floor i)"
  unfolding sc_floor_def iv_floor_def by (rule safe_step_carry) (simp_all add: carry_params_def sc_w_def power_add)

definition iv_settle :: "intervals \<Rightarrow> intervals option" where
  "iv_settle iv = do {
     iv \<leftarrow> opt_fold iv_round ([0, 2, 4, 6, 8, 10] @ [1, 3, 5, 7, 9, 11]) iv;
     iv \<leftarrow> iv_fold 12 iv;
     opt_fold iv_floor [0..<12] iv }"

definition iv_high :: "intervals \<Rightarrow> intervals option" where
  "iv_high iv = do {
     iv \<leftarrow> opt_fold iv_fold [23, 22, 21, 20, 19, 18] iv;
     iv \<leftarrow> opt_fold iv_round ([6, 8, 10, 12, 14, 16] @ [7, 9, 11, 13, 15]) iv;
     opt_fold iv_fold [17, 16, 15, 14, 13, 12] iv }"

definition iv_spread :: "intervals \<Rightarrow> intervals option" where
  "iv_spread = opt_fold iv_round
    ([0, 2, 4, 6, 8, 10, 12, 14, 16, 18, 20, 22] @ [1, 3, 5, 7, 9, 11, 13, 15, 17, 19, 21])"


subsection \<open>The stages\<close>

lemma sc_settle_safe: "safe_step sc_w sc_order sc_settle iv_settle"
proof -
  have "safe_step sc_w sc_order (\<lambda>s. fold sc_floor [0..<12] (sc_fold 12 (fold sc_round ([0, 2, 4, 6, 8, 10] @ [1, 3, 5, 7, 9, 11]) s)))
    (\<lambda>iv. Option.bind (opt_fold iv_round ([0, 2, 4, 6, 8, 10] @ [1, 3, 5, 7, 9, 11]) iv)
      (\<lambda>iv. Option.bind (iv_fold 12 iv) (opt_fold iv_floor [0..<12])))"
    by (intro safe_step_compose safe_step_fold sc_fold_safe sc_round_safe sc_floor_safe) simp
  then show ?thesis unfolding sc_settle_def iv_settle_def by simp
qed

lemma sc_high_safe: "safe_step sc_w sc_order sc_high iv_high"
proof -
  have "safe_step sc_w sc_order
    (\<lambda>s. fold sc_fold [17, 16, 15, 14, 13, 12]
      (fold sc_round ([6, 8, 10, 12, 14, 16] @ [7, 9, 11, 13, 15]) (fold sc_fold [23, 22, 21, 20, 19, 18] s)))
    (\<lambda>iv. Option.bind (opt_fold iv_fold [23, 22, 21, 20, 19, 18] iv)
      (\<lambda>iv. Option.bind (opt_fold iv_round ([6, 8, 10, 12, 14, 16] @ [7, 9, 11, 13, 15]) iv)
        (opt_fold iv_fold [17, 16, 15, 14, 13, 12])))"
    by (intro safe_step_compose safe_step_fold sc_fold_safe sc_round_safe) auto
  then show ?thesis unfolding sc_high_def iv_high_def by simp
qed

lemma sc_spread_safe: "safe_step sc_w l sc_spread iv_spread"
  unfolding sc_spread_def iv_spread_def by (intro safe_step_fold sc_round_safe)

text \<open>What is known when the last stage begins: twelve digits and a limb that is 0 or -1.\<close>

abbreviation iv_digits :: "nat \<Rightarrow> intervals" where
  "iv_digits n \<equiv> replicate 12 (0, 2097151) @ [(- 1, 0)] @ replicate n (0, 0)"

lemma iv_last:
  assumes "n = 0 \<or> n = 11"
  shows "\<exists>iv. iv_fold 12 (iv_digits n) = Some iv \<and>
    opt_fold iv_floor [0..<11] iv = Some (replicate 11 (0, 2097151) @ [(- 1, 2097152)] @ replicate (Suc n) (0, 0))"
proof -
  have "\<exists>iv. iv_fold 12 (iv_digits 0) = Some iv \<and>
    opt_fold iv_floor [0..<11] iv = Some (replicate 11 (0, 2097151) @ [(- 1, 2097152)] @ replicate 1 (0, 0))"
    by (intro exI conjI) (code_simp, code_simp)
  moreover have "\<exists>iv. iv_fold 12 (iv_digits 11) = Some iv \<and>
    opt_fold iv_floor [0..<11] iv = Some (replicate 11 (0, 2097151) @ [(- 1, 2097152)] @ replicate 12 (0, 0))"
    by (intro exI conjI) (code_simp, code_simp)
  ultimately show ?thesis using assms by (elim disjE) (simp_all only: One_nat_def, simp)
qed

lemma limb_val_take_digits:
  assumes "\<forall>i < n. 0 \<le> s ! i \<and> s ! i < 2 ^ 21" "n \<le> length s"
  shows "0 \<le> limb_val sc_w (take n s) \<and> limb_val sc_w (take n s) < 2 ^ (21 * n)"
  using digits_low_sum [OF sc_w_mono, of n s] assms by (simp add: limb_val_def sc_w_def)

lemma within_zeros: "within (replicate n (0, 0)) s \<Longrightarrow> s = replicate n 0"
  by (rule nth_equalityI) (auto simp: within_def intro!: antisym)

lemma within_drop: "within iv s \<Longrightarrow> within (drop n iv) (drop n s)"
  by (auto simp: within_def)

lemma limb_val_split: "limb_val sc_w s = limb_val sc_w (take n s) + 2 ^ (21 * min (length s) n) * limb_val sc_w (drop n s)"
  using limb_val_21_append [of "take n s" "drop n s"] by simp

lemma iv_digits_val:
  assumes "within (iv_digits n) s"
  shows "0 \<le> limb_val sc_w s - s ! 12 * sc_order \<and> limb_val sc_w s - s ! 12 * sc_order < sc_order"
proof -
  have len: "length s = 13 + n" using assms by (simp add: within_def)
  have d: "\<forall>i < 12. 0 \<le> s ! i \<and> s ! i < 2 ^ 21"
  proof (intro allI impI)
    fix i :: nat assume i: "i < 12"
    then show "0 \<le> s ! i \<and> s ! i < 2 ^ 21" using within_nth [OF assms, of i] by (simp add: nth_append)
  qed
  have "within [(- 1, 0)] [s ! 12]" using within_nth [OF assms, of 12] by (simp add: nth_append within_Cons within_Nil)
  then have t: "s ! 12 = 0 \<or> s ! 12 = - 1" by (auto simp: within_Cons)
  have "drop 13 s = replicate n 0" using within_drop [OF assms, of 13] by (intro within_zeros) simp
  moreover have "drop 12 s = s ! 12 # drop 13 s" using len Cons_nth_drop_Suc [of 12 s] by simp
  ultimately have "limb_val sc_w (drop 12 s) = s ! 12" by (simp add: limb_val_21 limb_val_21_zeros)
  then have V: "limb_val sc_w s = limb_val sc_w (take 12 s) + 2 ^ 252 * s ! 12"
    using limb_val_split [of s 12] len by simp
  have "0 \<le> limb_val sc_w (take 12 s) \<and> limb_val sc_w (take 12 s) < 2 ^ 252"
    using limb_val_take_digits [OF d] len by simp
  then show ?thesis using t V unfolding sc_order_def by auto
qed

lemma sc_last_digits:
  assumes "within (iv_digits n) s" "n = 0 \<or> n = 11"
  shows "digits21 (take 12 (sc_last s))" "limb_val sc_w (take 12 (sc_last s)) = limb_val sc_w s mod sc_order"
proof -
  obtain iv where iv: "iv_fold 12 (iv_digits n) = Some iv"
    "opt_fold iv_floor [0..<11] iv = Some (replicate 11 (0, 2097151) @ [(- 1, 2097152)] @ replicate (Suc n) (0, 0))"
    using iv_last [OF assms(2)] by blast
  define t where "t = sc_last s"
  note a = sc_fold_exact [OF assms(1) iv(1)]
  have b: "within (replicate 11 (0, 2097151) @ [(- 1, 2097152)] @ replicate (Suc n) (0, 0)) t"
    "limb_val sc_w t = limb_val sc_w s - s ! 12 * sc_order"
    using safe_stepD [OF safe_step_fold [OF sc_floor_safe] a(1) iv(2), of 0] a(2) unfolding t_def sc_last_def
    by (simp_all add: sc_w_def)
  have len: "length t = 13 + n" using b(1) by (simp add: within_def)
  have d: "\<forall>i < 11. 0 \<le> t ! i \<and> t ! i < 2 ^ 21"
  proof (intro allI impI)
    fix i :: nat assume i: "i < 11"
    then show "0 \<le> t ! i \<and> t ! i < 2 ^ 21" using within_nth [OF b(1), of i] by (simp add: nth_append)
  qed
  have z: "drop 12 t = replicate (Suc n) 0" using within_drop [OF b(1), of 12] by (intro within_zeros) simp
  have V: "limb_val sc_w t = limb_val sc_w (take 12 t)"
    using limb_val_split [of t 12] unfolding z limb_val_21_zeros by simp
  have "take 12 t = take 11 t @ [t ! 11]" using len take_Suc_conv_app_nth [of 11 t] by simp
  then have W: "limb_val sc_w (take 12 t) = limb_val sc_w (take 11 t) + 2 ^ 231 * t ! 11"
    using len by (simp add: limb_val_21_append limb_val_21)
  have "0 \<le> limb_val sc_w t" using iv_digits_val [OF assms(1)] b(2) by simp
  moreover have "limb_val sc_w (take 11 t) < 2 ^ 231" using limb_val_take_digits [OF d] len by simp
  ultimately have "0 < 2 ^ 231 * (1 + t ! 11)" using V W by simp
  then have "0 \<le> t ! 11" by (simp add: zero_less_mult_iff)
  then show "digits21 (take 12 (sc_last s))" using d len by (simp add: digits_def sc_w_def t_def)
  show "limb_val sc_w (take 12 (sc_last s)) = limb_val sc_w s mod sc_order"
    using V b(2) iv_digits_val [OF assms(1)] mod_mult_self1 [of "limb_val sc_w s" "- (s ! 12)" sc_order]
    unfolding t_def by (simp add: mult.commute)
qed

lemma sc_store_take: "sc_store (take 12 s) = sc_store s"
  by (simp add: sc_store_def)

lemma sc_finish:
  assumes "within iv s" "iv_settle iv = Some (iv_digits n)" "n = 0 \<or> n = 11"
  defines "r \<equiv> sc_store (sc_last (sc_settle s))"
  shows "int (le_val r) = limb_val sc_w s mod sc_order \<and> length r = 32"
proof -
  have a: "within (iv_digits n) (sc_settle s)" "limb_val sc_w (sc_settle s) mod sc_order = limb_val sc_w s mod sc_order"
    using safe_stepD [OF sc_settle_safe assms(1,2)] by simp_all
  note b = sc_last_digits [OF a(1) assms(3)]
  have "limb_val sc_w s mod sc_order < 2 ^ 256"
    using pos_mod_bound [of sc_order "limb_val sc_w s"] unfolding sc_order_def by simp
  then show ?thesis
    using sc_store_val [OF b(1)] b(2) a(2) unfolding r_def by (simp add: sc_store_take)
qed

subsection \<open>Products by columns\<close>

lemma column_sum:
  "(\<Sum>k<23. (\<Sum>i \<leftarrow> [k - 11..<min 12 (Suc k)]. (f i (k - i) :: int)) * 2 ^ (21 * k)) =
   (\<Sum>i<12. \<Sum>j<12. f i j * 2 ^ (21 * (i + j)))"
proof -
  have "(\<Sum>k<23. (\<Sum>i \<leftarrow> [k - 11..<min 12 (Suc k)]. f i (k - i)) * 2 ^ (21 * k)) =
      (\<Sum>k<23. \<Sum>i \<in> {k - 11..<min 12 (Suc k)}. f i (k - i) * 2 ^ (21 * k))"
    by (simp only: sum_distrib_right interv_sum_list_conv_sum_set_nat set_upt)
  also have "\<dots> = (\<Sum>(k, i) \<in> (SIGMA k:{..<23}. {k - 11..<min 12 (Suc k)}). f i (k - i) * 2 ^ (21 * k))"
    by (rule sum.Sigma) simp_all
  also have "\<dots> = (\<Sum>(i, j) \<in> {..<12} \<times> {..<12}. f i j * 2 ^ (21 * (i + j)))"
    by (rule sum.reindex_bij_witness [where i = "\<lambda>(i, j). (i + j, i)" and j = "\<lambda>(k, i). (i, k - i)"]) auto
  finally show ?thesis by (simp only: sum.cartesian_product)
qed

lemma limb_product:
  assumes "length a = 12" "length b = 12"
  shows "(\<Sum>i<12. \<Sum>j<12. a ! i * b ! j * 2 ^ (21 * (i + j))) = limb_val sc_w a * limb_val sc_w b"
  unfolding limb_val_def assms sum_product sc_w_def by (simp add: power_add algebra_simps)

text \<open>What a caller of the columns may use of a loaded scalar: its limbs are between 0 and \<open>2 ^ 25\<close>.\<close>

lemma loaded_limb:
  assumes "within iv_bytes32 a" "i < 12" shows "0 \<le> a ! i" "a ! i \<le> 33554431"
proof -
  have "fst (iv_bytes32 ! i) \<le> a ! i" "a ! i \<le> snd (iv_bytes32 ! i)"
    using within_nth [OF assms(1), of i] assms(2) by (simp_all add: iv_bytes32_def)
  moreover have "fst (iv_bytes32 ! i) = 0" "snd (iv_bytes32 ! i) \<le> 33554431"
    using assms(2) by (auto simp: iv_bytes32_def nth_append nth_Cons')
  ultimately show "0 \<le> a ! i" "a ! i \<le> 33554431" by simp_all
qed

lemma term_bound:
  assumes "0 \<le> x" "x \<le> 33554431" "0 \<le> y" "y \<le> (33554431 :: int)"
  shows "0 \<le> x * y" "x * y \<le> 1125899839733761"
  using assms mult_mono [of x 33554431 y 33554431] by simp_all

lemma sc_column_exact:
  assumes "within iv_bytes32 a" "within iv_bytes32 b" "k < 23"
  shows "sc_column a b k = (\<Sum>i \<leftarrow> [k - 11..<min 12 (Suc k)]. a ! i * b ! (k - i))"
    and "0 \<le> sc_column a b k" "sc_column a b k \<le> 12 * 1125899839733761"
proof -
  define I where "I = [k - 11..<min 12 (Suc k)]"
  have t: "0 \<le> a ! i * b ! (k - i)" "a ! i * b ! (k - i) \<le> 1125899839733761" if "i \<in> set I" for i
    using that assms(3) loaded_limb [OF assms(1), of i] loaded_limb [OF assms(2), of "k - i"]
    by (auto simp: I_def intro!: term_bound)
  have "i64 (a ! i * b ! (k - i)) = a ! i * b ! (k - i)" if "i \<in> set I" for i
    using t [OF that] by (intro i64_id) simp_all
  then show eq: "sc_column a b k = (\<Sum>i \<leftarrow> [k - 11..<min 12 (Suc k)]. a ! i * b ! (k - i))"
    unfolding sc_column_def I_def [symmetric] by (simp cong: map_cong)
  show "0 \<le> sc_column a b k" unfolding eq I_def [symmetric] using t by (intro sum_list_nonneg) auto
  have "(\<Sum>i \<leftarrow> I. a ! i * b ! (k - i)) \<le> (\<Sum>i \<leftarrow> I. 1125899839733761)" using t by (intro sum_list_mono) simp
  also have "\<dots> = int (length I) * 1125899839733761" by (simp add: sum_list_triv)
  also have "\<dots> \<le> 12 * 1125899839733761" using assms(3) by (intro mult_right_mono) (auto simp: I_def)
  finally show "sc_column a b k \<le> 12 * 1125899839733761" unfolding eq I_def .
qed

lemma sc_columns_val:
  assumes "within iv_bytes32 a" "within iv_bytes32 b"
  shows "(\<Sum>k<23. sc_column a b k * 2 ^ (21 * k)) = limb_val sc_w a * limb_val sc_w b"
proof -
  have l: "length a = 12" "length b = 12" using assms by (simp_all add: within_def iv_bytes32_def)
  have "(\<Sum>k<23. sc_column a b k * 2 ^ (21 * k)) =
    (\<Sum>k<23. (\<Sum>i \<leftarrow> [k - 11..<min 12 (Suc k)]. a ! i * b ! (k - i)) * 2 ^ (21 * k))"
    by (intro sum.cong refl) (simp only: sc_column_exact(1) [OF assms] lessThan_iff)
  also have "\<dots> = (\<Sum>i<12. \<Sum>j<12. a ! i * b ! j * 2 ^ (21 * (i + j)))" by (rule column_sum)
  also have "\<dots> = limb_val sc_w a * limb_val sc_w b" by (rule limb_product [OF l])
  finally show ?thesis .
qed

text \<open>Every multiplication ends in the same way: whatever limbs below \<open>2 ^ 55\<close> it starts from, the result is the
  reduced value of those limbs.\<close>

lemma iv_columns:
  "\<exists>iv1 iv2. iv_spread (replicate 23 (- (2 ^ 55), 2 ^ 55) @ [(0, 0)]) = Some iv1 \<and> iv_high iv1 = Some iv2 \<and>
    iv_settle iv2 = Some (iv_digits 11)"
  by (intro exI conjI) (code_simp, code_simp, code_simp)

lemma sc_finish_columns:
  assumes "\<And>k. k < 23 \<Longrightarrow> - (2 ^ 55) \<le> f k \<and> f k \<le> 2 ^ 55"
  defines "r \<equiv> sc_tail (map f [0..<23] @ [0])"
  shows "int (le_val r) = (\<Sum>k<23. f k * 2 ^ (21 * k)) mod sc_order \<and> length r = 32"
proof -
  define s where "s = map f [0..<23] @ [0]"
  obtain iv1 iv2 where iv: "iv_spread (replicate 23 (- (2 ^ 55), 2 ^ 55) @ [(0, 0)]) = Some iv1"
    "iv_high iv1 = Some iv2" "iv_settle iv2 = Some (iv_digits 11)"
    using iv_columns by blast
  have s: "within (replicate 23 (- (2 ^ 55), 2 ^ 55) @ [(0, 0)]) s"
    unfolding s_def using assms(1) by (intro within_append within_map_upt) (simp_all add: within_Cons within_Nil)
  note a = safe_stepD [OF sc_spread_safe s iv(1), of sc_order]
  note b = safe_stepD [OF sc_high_safe _ iv(2), of "sc_spread s"]
  have "limb_val sc_w s = (\<Sum>k<23. f k * 2 ^ (21 * k))"
    unfolding s_def limb_val_21_append limb_val_map by (simp add: limb_val_21)
  then show ?thesis
    using sc_finish [OF _ iv(3), of "sc_high (sc_spread s)"] a b unfolding r_def s_def [symmetric] sc_tail_def by simp
qed

lemma iv32_reduce: "iv_settle (iv_bytes32 @ [(0, 0)]) = Some (iv_digits 0)"
  by code_simp

lemma iv64_reduce: "\<exists>iv. iv_high iv_bytes64 = Some iv \<and> iv_settle iv = Some (iv_digits 11)"
  by (intro exI conjI) (code_simp, code_simp)

lemma iv_sums: "iv_settle (replicate 12 (- 33554431, 67108862) @ [(0, 0)]) = Some (iv_digits 0)"
  by code_simp

lemma sc_finish_sums:
  assumes "\<And>k. k < 12 \<Longrightarrow> - 33554431 \<le> f k \<and> f k \<le> 67108862"
  defines "r \<equiv> sc_store (sc_last (sc_settle (map f [0..<12] @ [0])))"
  shows "int (le_val r) = (\<Sum>k<12. f k * 2 ^ (21 * k)) mod sc_order \<and> length r = 32"
proof -
  have "within (replicate 12 (- 33554431, 67108862) @ [(0, 0)]) (map f [0..<12] @ [0])"
    using assms(1) by (intro within_append within_map_upt) (simp_all add: within_Cons within_Nil)
  note a = sc_finish [OF this iv_sums]
  have "limb_val sc_w (map f [0..<12] @ [0]) = (\<Sum>k<12. f k * 2 ^ (21 * k))"
    unfolding limb_val_21_append limb_val_map by (simp add: limb_val_21)
  then show ?thesis using a unfolding r_def by simp
qed

lemma map2_nth_upt: "length xs = n \<Longrightarrow> length ys = n \<Longrightarrow> map2 f xs ys = map (\<lambda>k. f (xs ! k) (ys ! k)) [0..<n]"
  by (rule nth_equalityI) simp_all

lemma limb_val_12: "within iv_bytes32 a \<Longrightarrow> (\<Sum>k<12. a ! k * 2 ^ (21 * k)) = limb_val sc_w a"
  by (simp add: limb_val_def sc_w_def within_def iv_bytes32_def)

subsection \<open>The value of a scalar\<close>

abbreviation sc_val :: "bytes \<Rightarrow> int" where "sc_val s \<equiv> int (le_val s)"

lemma sc_reduce32_correct:
  "length s = 32 \<Longrightarrow> sc_val (sc_reduce32 s) = sc_val s mod sc_order \<and> length (sc_reduce32 s) = 32"
proof -
  assume s: "length s = 32"
  have "within (iv_bytes32 @ [(0, 0)]) (sc_load s @ [0])"
    using sc_load_within [OF s] by (intro within_append) (simp_all add: within_Cons within_Nil)
  then show ?thesis
    using sc_finish [OF _ iv32_reduce] sc_load_val [OF s] unfolding sc_reduce32_def
    by (simp add: limb_val_21_append limb_val_21)
qed

lemma sc_reduce_correct:
  "length s = 64 \<Longrightarrow> sc_val (sc_reduce s) = sc_val s mod sc_order \<and> length (sc_reduce s) = 32"
proof -
  assume s: "length s = 64"
  obtain iv where iv: "iv_high iv_bytes64 = Some iv" "iv_settle iv = Some (iv_digits 11)" using iv64_reduce by blast
  note a = safe_stepD [OF sc_high_safe sc_load64_within [OF s] iv(1)]
  then show ?thesis
    using sc_finish [OF _ iv(2), of "sc_high (sc_load64 s)"] sc_load64_val [OF s] unfolding sc_reduce_def by simp
qed

lemma sc_add_correct:
  assumes "length a = 32" "length b = 32"
  shows "sc_val (sc_add a b) = (sc_val a + sc_val b) mod sc_order \<and> length (sc_add a b) = 32"
proof -
  define x y where "x = sc_load a" and "y = sc_load b"
  have w: "within iv_bytes32 x" "within iv_bytes32 y" unfolding x_def y_def using assms by (simp_all add: sc_load_within)
  have r: "- 33554431 \<le> x ! k + y ! k \<and> x ! k + y ! k \<le> 67108862" if "k < 12" for k
    using loaded_limb [OF w(1) that] loaded_limb [OF w(2) that] by simp
  have l: "length x = 12" "length y = 12" using w by (simp_all add: within_def iv_bytes32_def)
  have "map2 (\<lambda>x y. i64 (x + y)) x y = map (\<lambda>k. x ! k + y ! k) [0..<12]"
    unfolding map2_nth_upt [OF l] using r by (intro map_cong refl i64_id) force+
  moreover have "(\<Sum>k<12. (x ! k + y ! k) * 2 ^ (21 * k)) = sc_val a + sc_val b"
    unfolding distrib_right sum.distrib limb_val_12 [OF w(1)] limb_val_12 [OF w(2)]
    unfolding x_def y_def using assms by (simp add: sc_load_val)
  ultimately show ?thesis using sc_finish_sums [OF r] unfolding sc_add_def x_def [symmetric] y_def [symmetric] by simp
qed

lemma sc_sub_correct:
  assumes "length a = 32" "length b = 32"
  shows "sc_val (sc_sub a b) = (sc_val a - sc_val b) mod sc_order \<and> length (sc_sub a b) = 32"
proof -
  define x y where "x = sc_load a" and "y = sc_load b"
  have w: "within iv_bytes32 x" "within iv_bytes32 y" unfolding x_def y_def using assms by (simp_all add: sc_load_within)
  have r: "- 33554431 \<le> x ! k - y ! k \<and> x ! k - y ! k \<le> 67108862" if "k < 12" for k
    using loaded_limb [OF w(1) that] loaded_limb [OF w(2) that] by simp
  have l: "length x = 12" "length y = 12" using w by (simp_all add: within_def iv_bytes32_def)
  have "map2 (\<lambda>x y. i64 (x - y)) x y = map (\<lambda>k. x ! k - y ! k) [0..<12]"
    unfolding map2_nth_upt [OF l] using r by (intro map_cong refl i64_id) force+
  moreover have "(\<Sum>k<12. (x ! k - y ! k) * 2 ^ (21 * k)) = sc_val a - sc_val b"
    unfolding left_diff_distrib sum_subtractf limb_val_12 [OF w(1)] limb_val_12 [OF w(2)]
    unfolding x_def y_def using assms by (simp add: sc_load_val)
  ultimately show ?thesis using sc_finish_sums [OF r] unfolding sc_sub_def x_def [symmetric] y_def [symmetric] by simp
qed

lemma sc_mul_correct:
  assumes "length a = 32" "length b = 32"
  shows "sc_val (sc_mul a b) = (sc_val a * sc_val b) mod sc_order \<and> length (sc_mul a b) = 32"
proof -
  define x y where "x = sc_load a" and "y = sc_load b"
  have w: "within iv_bytes32 x" "within iv_bytes32 y" unfolding x_def y_def using assms by (simp_all add: sc_load_within)
  note c = sc_column_exact(2,3) [OF w]
  have r: "- (2 ^ 55) \<le> sc_column x y k \<and> sc_column x y k \<le> 2 ^ 55" if "k < 23" for k
    using c [OF that] by simp
  have "map (\<lambda>k. i64 (sc_column x y k)) [0..<23] = map (sc_column x y) [0..<23]"
    using r by (intro map_cong refl i64_id) force+
  moreover have "(\<Sum>k<23. sc_column x y k * 2 ^ (21 * k)) = sc_val a * sc_val b"
    unfolding sc_columns_val [OF w] unfolding x_def y_def using assms by (simp add: sc_load_val)
  ultimately show ?thesis
    using sc_finish_columns [of "sc_column x y", OF r] unfolding sc_mul_def Let_def x_def [symmetric] y_def [symmetric]
    by (simp only:)
qed

text \<open>The third operand reaches the first twelve columns only.\<close>

lemma low_columns:
  assumes "within iv_bytes32 z"
  shows "(\<Sum>k<23. (if k < 12 then z ! k else 0) * 2 ^ (21 * k)) = limb_val sc_w z"
proof -
  have "(\<Sum>k<23. (if k < 12 then z ! k else 0) * 2 ^ (21 * k)) = (\<Sum>k<12. z ! k * 2 ^ (21 * k))"
    by (rule sum.mono_neutral_cong_right) auto
  then show ?thesis by (simp only: limb_val_12 [OF assms])
qed

lemma columns_split:
  assumes "\<And>k. k < 12 \<Longrightarrow> f k = h k" "\<And>k. 12 \<le> k \<Longrightarrow> k < 23 \<Longrightarrow> g k = h k"
  shows "map f [0..<12] @ map g [12..<23] @ [0] = map h [0..<23] @ [0 :: int]"
proof -
  have "map f [0..<12] = map h [0..<12]" "map g [12..<23] = map h [12..<23]" using assms by simp_all
  moreover have "[0..<23] = [0..<12] @ [12..<23 :: nat]" using upt_add_eq_append [of 0 12 11] by simp
  ultimately show ?thesis by (simp only: map_append append_assoc)
qed

lemma sc_muladd_correct:
  assumes "length a = 32" "length b = 32" "length c = 32"
  shows "sc_val (sc_muladd a b c) = (sc_val a * sc_val b + sc_val c) mod sc_order \<and> length (sc_muladd a b c) = 32"
proof -
  define x y z where "x = sc_load a" and "y = sc_load b" and "z = sc_load c"
  have w: "within iv_bytes32 x" "within iv_bytes32 y" "within iv_bytes32 z"
    unfolding x_def y_def z_def using assms by (simp_all add: sc_load_within)
  define h where "h = (\<lambda>k. (if k < 12 then z ! k else 0) + sc_column x y k)"
  have r: "- (2 ^ 55) \<le> h k \<and> h k \<le> 2 ^ 55" if "k < 23" for k
    using sc_column_exact(2,3) [OF w(1,2) that] loaded_limb [OF w(3), of k] by (auto simp: h_def)
  have c: "i64 (sc_column x y k) = sc_column x y k" if "k < 23" for k
    using sc_column_exact(2,3) [OF w(1,2) that] by (intro i64_id) simp_all
  have e: "i64 (h k) = h k" if "k < 23" for k using r [OF that] by (intro i64_id) simp_all
  have e12: "i64 (z ! k + sc_column x y k) = h k" if "k < 12" for k using e [of k] that by (simp add: h_def)
  have "map (\<lambda>k. i64 (z ! k + i64 (sc_column x y k))) [0..<12] @ map (\<lambda>k. i64 (sc_column x y k)) [12..<23] @ [0] =
      map h [0..<23] @ [0]"
    using c e12 by (intro columns_split) (simp_all add: h_def)
  moreover have "(\<Sum>k<23. h k * 2 ^ (21 * k)) = sc_val a * sc_val b + sc_val c"
    unfolding h_def distrib_right sum.distrib low_columns [OF w(3)] sc_columns_val [OF w(1,2)]
    unfolding x_def y_def z_def using assms by (simp add: sc_load_val)
  ultimately show ?thesis
    using sc_finish_columns [of h, OF r] unfolding sc_muladd_def Let_def x_def [symmetric] y_def [symmetric] z_def [symmetric]
    by (simp only:)
qed

lemma sc_mulsub_correct:
  assumes "length a = 32" "length b = 32" "length c = 32"
  shows "sc_val (sc_mulsub a b c) = (sc_val c - sc_val a * sc_val b) mod sc_order \<and> length (sc_mulsub a b c) = 32"
proof -
  define x y z where "x = sc_load a" and "y = sc_load b" and "z = sc_load c"
  have w: "within iv_bytes32 x" "within iv_bytes32 y" "within iv_bytes32 z"
    unfolding x_def y_def z_def using assms by (simp_all add: sc_load_within)
  define h where "h = (\<lambda>k. (if k < 12 then z ! k else 0) - sc_column x y k)"
  have r: "- (2 ^ 55) \<le> h k \<and> h k \<le> 2 ^ 55" if "k < 23" for k
    using sc_column_exact(2,3) [OF w(1,2) that] loaded_limb [OF w(3), of k] by (auto simp: h_def)
  have c: "i64 (sc_column x y k) = sc_column x y k" if "k < 23" for k
    using sc_column_exact(2,3) [OF w(1,2) that] by (intro i64_id) simp_all
  have e: "i64 (h k) = h k" if "k < 23" for k using r [OF that] by (intro i64_id) simp_all
  have e12: "i64 (z ! k - sc_column x y k) = h k" if "k < 12" for k using e [of k] that by (simp add: h_def)
  have e23: "i64 (- sc_column x y k) = h k" if "12 \<le> k" "k < 23" for k using e [of k] that by (simp add: h_def)
  have "map (\<lambda>k. i64 (z ! k - i64 (sc_column x y k))) [0..<12] @ map (\<lambda>k. i64 (- i64 (sc_column x y k))) [12..<23] @ [0] =
      map h [0..<23] @ [0]"
    using c e12 e23 by (intro columns_split) simp_all
  moreover have "(\<Sum>k<23. h k * 2 ^ (21 * k)) = sc_val c - sc_val a * sc_val b"
    unfolding h_def left_diff_distrib sum_subtractf low_columns [OF w(3)] sc_columns_val [OF w(1,2)]
    unfolding x_def y_def z_def using assms by (simp add: sc_load_val)
  ultimately show ?thesis
    using sc_finish_columns [of h, OF r] unfolding sc_mulsub_def Let_def x_def [symmetric] y_def [symmetric] z_def [symmetric]
    by (simp only:)
qed

subsection \<open>The checks\<close>

lemma signum_weighted:
  assumes "signum S = signum D" "\<bar>d\<bar> < B"
  shows "signum (signum d + 2 * S) = signum (d + B * D)"
proof -
  consider "D < 0" | "D = 0" | "D > 0" by linarith
  then show ?thesis
  proof cases
    case 1
    then have "S \<le> - 1" using assms(1) by (auto simp: signum_def split: if_splits)
    moreover have "B * D \<le> - B" using 1 assms(2) mult_left_mono [of D "- 1" B] by simp
    ultimately show ?thesis using assms(2) by (auto simp: signum_def)
  next
    case 2
    then have "S = 0" using assms(1) by (auto simp: signum_def split: if_splits)
    then show ?thesis using 2 by (simp add: signum_def)
  next
    case 3
    then have "S \<ge> 1" using assms(1) by (auto simp: signum_def split: if_splits)
    moreover have "B * D \<ge> B" using 3 assms(2) mult_left_mono [of 1 D B] by simp
    ultimately show ?thesis using assms(2) by (auto simp: signum_def)
  qed
qed

lemma le_val_words:
  "4 \<le> length s \<Longrightarrow> sc_val s = uint (load_4 s) + 2 ^ 32 * sc_val (drop 4 s)"
proof -
  assume l: "4 \<le> length s"
  have "uint (load_4 s) = sc_val (take 4 s)"
    using l load_top [of 4 0 "take 4 s" 0] by (simp add: load_4_le_word)
  moreover have "le_val s = le_val (take 4 s) + 2 ^ 32 * le_val (drop 4 s)"
    using l le_val_append [of "take 4 s" "drop 4 s"] by simp
  ultimately show ?thesis by simp
qed

lemma uint_load_4: "0 \<le> uint (load_4 s)" "4 \<le> length s \<Longrightarrow> uint (load_4 s) < 2 ^ 32"
proof -
  show "4 \<le> length s \<Longrightarrow> uint (load_4 s) < 2 ^ 32"
    using load_top [of 4 0 "take 4 s" 0] le_val_less [of "take 4 s"] by (simp add: load_4_le_word)
qed simp

lemma signed_lshift_small: "\<bar>a\<bar> \<le> 1 \<Longrightarrow> b \<le> 7 \<Longrightarrow> signed_lshift a b = a * 2 ^ b"
proof -
  assume a: "\<bar>a\<bar> \<le> 1" and b: "b \<le> 7"
  have "(2 :: int) ^ b \<le> 2 ^ 7" using b by (intro power_increasing) simp_all
  moreover have "a = - 1 \<or> a = 0 \<or> a = 1" using a by auto
  ultimately have "\<bar>a * 2 ^ b\<bar> \<le> 128" by (elim disjE) simp_all
  then show ?thesis unfolding signed_lshift_def push_bit_eq_mult by (intro i64_id) simp_all
qed

lemma signum_range: "\<bar>signum x\<bar> \<le> 1"
  by (simp add: signum_def)

lemma sc_check_correct:
  assumes "length s = 32" shows "sc_check s = (if sc_val s < sc_order then 0 else - 1)"
proof -
  define w where "w k = uint (load_4 (drop (4 * k) s))" for k
  have w: "\<bar>c - w k\<bar> < 2 ^ 32" if "0 \<le> c" "c < 2 ^ 32" "k \<le> 7" for c k
  proof -
    have "4 \<le> length (drop (4 * k) s)" using that assms by simp
    then have "0 \<le> w k" "w k < 2 ^ 32" unfolding w_def using uint_load_4 by blast+
    then show ?thesis using that by linarith
  qed
  have v: "sc_val (drop (4 * k) s) = w k + 2 ^ 32 * sc_val (drop (4 * Suc k) s)" if "k \<le> 7" for k
    using that assms le_val_words [of "drop (4 * k) s"] unfolding w_def by (simp add: add.commute)
  define D7 where "D7 = 268435456 - w 7"
  define D6 where "D6 = - w 6 + 2 ^ 32 * D7"
  define D5 where "D5 = - w 5 + 2 ^ 32 * D6"
  define D4 where "D4 = - w 4 + 2 ^ 32 * D5"
  define D3 where "D3 = 350157278 - w 3 + 2 ^ 32 * D4"
  define D2 where "D2 = 2734136534 - w 2 + 2 ^ 32 * D3"
  define D1 where "D1 = 1477600026 - w 1 + 2 ^ 32 * D2"
  define D0 where "D0 = 1559614444 - w 0 + 2 ^ 32 * D1"
  define S6 where "S6 = signum (- w 6) + 2 * signum D7"
  define S5 where "S5 = signum (- w 5) + 2 * S6"
  define S4 where "S4 = signum (- w 4) + 2 * S5"
  define S3 where "S3 = signum (350157278 - w 3) + 2 * S4"
  define S2 where "S2 = signum (2734136534 - w 2) + 2 * S3"
  define S1 where "S1 = signum (1477600026 - w 1) + 2 * S2"
  define S0 where "S0 = signum (1559614444 - w 0) + 2 * S1"
  have "signum (signum D7) = signum D7" by (simp add: signum_def)
  then have "signum S6 = signum D6" unfolding S6_def D6_def using w [of 0 6] by (intro signum_weighted) simp_all
  then have "signum S5 = signum D5" unfolding S5_def D5_def using w [of 0 5] by (intro signum_weighted) simp_all
  then have "signum S4 = signum D4" unfolding S4_def D4_def using w [of 0 4] by (intro signum_weighted) simp_all
  then have "signum S3 = signum D3" unfolding S3_def D3_def using w [of 350157278 3] by (intro signum_weighted) simp_all
  then have "signum S2 = signum D2" unfolding S2_def D2_def using w [of 2734136534 2] by (intro signum_weighted) simp_all
  then have "signum S1 = signum D1" unfolding S1_def D1_def using w [of 1477600026 1] by (intro signum_weighted) simp_all
  then have "signum S0 = signum D0" unfolding S0_def D0_def using w [of 1559614444 0] by (intro signum_weighted) simp_all
  then have S0: "S0 < 0 \<longleftrightarrow> D0 < 0" by (auto simp: signum_def split: if_splits)
  have "drop 32 s = []" using assms by simp
  then have "sc_val s = w 0 + 2 ^ 32 * (w 1 + 2 ^ 32 * (w 2 + 2 ^ 32 * (w 3 + 2 ^ 32 * (w 4 + 2 ^ 32 * (w 5 + 2 ^ 32 * (w 6 + 2 ^ 32 * w 7))))))"
    using v [of 0] v [of 1] v [of 2] v [of 3] v [of 4] v [of 5] v [of 6] v [of 7] by simp
  then have "D0 = sc_order - 1 - sc_val s"
    unfolding D0_def D1_def D2_def D3_def D4_def D5_def D6_def D7_def sc_order_def by simp
  moreover have "sc_check s = (if 0 > S0 then - 1 else 0)"
    unfolding sc_check_def Let_def S0_def S1_def S2_def S3_def S4_def S5_def S6_def D7_def w_def
    by (simp add: signed_lshift_small signum_range algebra_simps)
  ultimately show ?thesis using S0 by auto
qed

lemma or_fold_zero: "fold (\<lambda>i acc. acc OR f i) is a = (0 :: u8) \<longleftrightarrow> a = 0 \<and> (\<forall>i \<in> set is. f i = 0)"
  by (induction "is" arbitrary: a) (auto simp: or_eq_0_iff)

lemma sc_isnonzero_correct:
  assumes "length s = 32" shows "sc_isnonzero s = (if sc_val s = 0 then 0 else 1)"
proof -
  define x where "x = fold (\<lambda>i acc. acc OR s ! i) [1..<32] (s ! 0)"
  have "{..<32} = insert 0 {1..<32 :: nat}" by auto
  then have "x = 0 \<longleftrightarrow> (\<forall>i \<in> {..<32}. s ! i = 0)" unfolding x_def or_fold_zero by (simp only: ball_simps set_upt)
  also have "\<dots> \<longleftrightarrow> s = replicate 32 0" using assms by (auto intro!: nth_equalityI)
  also have "\<dots> \<longleftrightarrow> le_val s = 0" using le_val_inject [of s "replicate 32 0"] assms by (auto simp: le_val_zeros)
  finally have z: "x = 0 \<longleftrightarrow> le_val s = 0" .
  have "uint x < 256" using uint_lt2p [of x] by simp
  moreover have "0 < uint x" if "x \<noteq> 0" using that uint_ge_0 [of x] by (simp add: less_le uint_0_iff)
  ultimately have "drop_bit 8 (uint x - 1) = (if x = 0 then - 1 else 0)"
    by (auto simp: drop_bit_eq_div)
  then show ?thesis unfolding sc_isnonzero_def x_def [symmetric] using z by simp
qed

subsection \<open>The arithmetic a client relies on\<close>

text \<open>Codes of the residues of a modulus, with operations on them: codes are equal when their values are, and every
  operation yields the reduced code of its result.  The laws of the residue ring then hold for the codes
  themselves, bit by bit.\<close>

locale residue_codes =
  fixes m :: int and val :: "'a \<Rightarrow> int" and ok :: "'a \<Rightarrow> bool" and red :: "'a \<Rightarrow> 'a"
    and add sub mul :: "'a \<Rightarrow> 'a \<Rightarrow> 'a" and muladd mulsub :: "'a \<Rightarrow> 'a \<Rightarrow> 'a \<Rightarrow> 'a"
  assumes red: "ok a \<Longrightarrow> val (red a) = val a mod m \<and> ok (red a)"
    and add: "ok a \<Longrightarrow> ok b \<Longrightarrow> val (add a b) = (val a + val b) mod m \<and> ok (add a b)"
    and sub: "ok a \<Longrightarrow> ok b \<Longrightarrow> val (sub a b) = (val a - val b) mod m \<and> ok (sub a b)"
    and mul: "ok a \<Longrightarrow> ok b \<Longrightarrow> val (mul a b) = (val a * val b) mod m \<and> ok (mul a b)"
    and muladd: "ok a \<Longrightarrow> ok b \<Longrightarrow> ok c \<Longrightarrow> val (muladd a b c) = (val a * val b + val c) mod m \<and> ok (muladd a b c)"
    and mulsub: "ok a \<Longrightarrow> ok b \<Longrightarrow> ok c \<Longrightarrow> val (mulsub a b c) = (val c - val a * val b) mod m \<and> ok (mulsub a b c)"
    and code_inject: "ok a \<Longrightarrow> ok b \<Longrightarrow> val a = val b \<Longrightarrow> a = b"
begin

lemma add_commute: "ok a \<Longrightarrow> ok b \<Longrightarrow> add a b = add b a"
  by (rule code_inject) (simp_all add: add add.commute)

lemma add_assoc: "ok a \<Longrightarrow> ok b \<Longrightarrow> ok c \<Longrightarrow> add (add a b) c = add a (add b c)"
  by (rule code_inject) (simp_all add: add mod_simps add.assoc)

lemma mul_commute: "ok a \<Longrightarrow> ok b \<Longrightarrow> mul a b = mul b a"
  by (rule code_inject) (simp_all add: mul mult.commute)

lemma mul_assoc: "ok a \<Longrightarrow> ok b \<Longrightarrow> ok c \<Longrightarrow> mul (mul a b) c = mul a (mul b c)"
  by (rule code_inject) (simp_all add: mul mod_simps mult.assoc)

lemma mul_add_distrib: "ok a \<Longrightarrow> ok b \<Longrightarrow> ok c \<Longrightarrow> mul a (add b c) = add (mul a b) (mul a c)"
  by (rule code_inject) (simp_all add: mul add mod_simps distrib_left)

lemma sub_add: "ok a \<Longrightarrow> ok b \<Longrightarrow> add (sub a b) b = red a"
  by (rule code_inject) (simp_all add: add sub red mod_simps)

lemma muladd_eq: "ok a \<Longrightarrow> ok b \<Longrightarrow> ok c \<Longrightarrow> muladd a b c = add (mul a b) c"
  by (rule code_inject) (simp_all add: muladd mul add mod_simps)

lemma mulsub_eq: "ok a \<Longrightarrow> ok b \<Longrightarrow> ok c \<Longrightarrow> mulsub a b c = sub c (mul a b)"
  by (rule code_inject) (simp_all add: mulsub mul sub mod_simps)

lemma muladd_mulsub: "ok a \<Longrightarrow> ok b \<Longrightarrow> ok c \<Longrightarrow> muladd a b (mulsub a b c) = red c"
  by (rule code_inject) (simp_all add: muladd mulsub red mod_simps)

lemma red_red: "ok a \<Longrightarrow> red (red a) = red a"
  by (rule code_inject) (simp_all add: red)

end

interpretation sc: residue_codes sc_order sc_val "\<lambda>s. length s = 32" sc_reduce32 sc_add sc_sub sc_mul sc_muladd sc_mulsub
  by unfold_locales
    (simp_all add: sc_reduce32_correct sc_add_correct sc_sub_correct sc_mul_correct sc_muladd_correct sc_mulsub_correct
      le_val_inject)

lemma le_val_ones: "int (le_val (replicate n 255)) = 256 ^ n - 1"
  by (induction n) simp_all

lemma sc_constants: "le_val sc_0 = 0" "le_val sc_1 = 1" "length sc_0 = 32" "length sc_1 = 32"
  by (simp_all add: sc_0_def sc_1_def le_val_zeros)

subsection \<open>Properties\<close>

text \<open>C28: The two reductions return the 32 bytes of the remainder modulo the group order
  \<open>l = 2^252 + 27742317777372353535851937790883648493\<close>: \<open>sc_reduce\<close> of any 64 bytes and \<open>sc_reduce32\<close> of any 32,
  although their limbs are signed 64 bit integers and pass through values far outside the digit range.\<close>

theorem sc_reduce_spec:
  assumes "length s = 64" and "length t = 32"
  shows "int (le_val (sc_reduce s)) = int (le_val s) mod sc_order \<and> length (sc_reduce s) = 32 \<and>
    int (le_val (sc_reduce32 t)) = int (le_val t) mod sc_order \<and> length (sc_reduce32 t) = 32"
  using sc_reduce_correct [OF assms(1)] sc_reduce32_correct [OF assms(2)] by simp_all

theorem sc_reduce_spec_witness:
  "int (le_val (sc_reduce (replicate 64 255))) = (2 ^ 512 - 1) mod sc_order \<and>
   int (le_val (sc_reduce32 (replicate 32 255))) = (2 ^ 256 - 1) mod sc_order"
  using sc_reduce_spec [of "replicate 64 255" "replicate 32 255"]
  unfolding le_val_ones sc_order_def by simp

text \<open>C27: The scalar operations are exact: sum, difference, product, \<open>a * b + c\<close> and \<open>c - a * b\<close> of any 32 byte
  operands (reduced or not) are returned as the 32 bytes of the remainder modulo the group order.  In particular no
  intermediate limb leaves the signed 64 bit range.\<close>

theorem sc_arith_spec:
  assumes "length a = 32" "length b = 32" "length c = 32"
  shows "int (le_val (sc_add a b)) = (int (le_val a) + int (le_val b)) mod sc_order \<and>
    int (le_val (sc_sub a b)) = (int (le_val a) - int (le_val b)) mod sc_order \<and>
    int (le_val (sc_mul a b)) = (int (le_val a) * int (le_val b)) mod sc_order \<and>
    int (le_val (sc_muladd a b c)) = (int (le_val a) * int (le_val b) + int (le_val c)) mod sc_order \<and>
    int (le_val (sc_mulsub a b c)) = (int (le_val c) - int (le_val a) * int (le_val b)) mod sc_order"
  using assms
  by (simp_all add: sc_add_correct sc_sub_correct sc_mul_correct sc_muladd_correct sc_mulsub_correct)

theorem sc_arith_spec_witness:
  "int (le_val (sc_sub sc_0 sc_1)) = sc_order - 1 \<and> int (le_val (sc_mul (replicate 32 255) sc_1)) = (2 ^ 256 - 1) mod sc_order"
  using sc_arith_spec [of sc_0 sc_1 sc_0] sc_arith_spec [of "replicate 32 255" sc_1 sc_0]
  unfolding le_val_ones sc_constants sc_order_def by simp

text \<open>C29: \<open>sc_check\<close> returns 0 exactly for the canonical scalars, those below the group order, and \<open>sc_isnonzero\<close>
  returns 0 exactly for zero; so every result of the arithmetic passes the check that signatures are subjected to.\<close>

theorem sc_check_spec:
  assumes "length s = 32" "length t = 32"
  shows "(sc_check s = 0 \<longleftrightarrow> int (le_val s) < sc_order) \<and> (sc_isnonzero s = 0 \<longleftrightarrow> le_val s = 0) \<and>
    sc_check (sc_mul s t) = 0 \<and> sc_check (sc_reduce32 s) = 0"
proof (intro conjI)
  have m: "x mod sc_order < sc_order" for x by (rule pos_mod_bound) (simp add: sc_order_def)
  show "sc_check s = 0 \<longleftrightarrow> int (le_val s) < sc_order" "sc_isnonzero s = 0 \<longleftrightarrow> le_val s = 0"
    using sc_check_correct [OF assms(1)] sc_isnonzero_correct [OF assms(1)] by simp_all
  show "sc_check (sc_mul s t) = 0" "sc_check (sc_reduce32 s) = 0"
    using sc_mul_correct [OF assms] sc_reduce32_correct [OF assms(1)] m by (simp_all add: sc_check_correct)
qed

theorem sc_check_spec_witness:
  "sc_check (replicate 32 255) \<noteq> 0 \<and> sc_check (sc_mul (replicate 32 255) sc_1) = 0 \<and> sc_isnonzero sc_1 \<noteq> 0"
  using sc_check_spec [of "replicate 32 255" sc_1] sc_check_spec [of sc_1 sc_1]
  unfolding le_val_ones sc_constants sc_order_def by simp

text \<open>The laws of the ring hold bit by bit on the 32 byte results, and the response \<open>k - c * x\<close> that a signer
  computes with \<open>sc_mulsub\<close> is undone by the \<open>sc_muladd\<close> with the same factors.\<close>

theorem sc_ring_laws:
  assumes "length a = 32" "length b = 32" "length c = 32"
  shows "sc_mul a (sc_add b c) = sc_add (sc_mul a b) (sc_mul a c) \<and>
    sc_mul (sc_mul a b) c = sc_mul a (sc_mul b c) \<and> sc_mul a b = sc_mul b a \<and>
    sc_add (sc_sub a b) b = sc_reduce32 a \<and> sc_muladd a b c = sc_add (sc_mul a b) c \<and>
    sc_muladd a b (sc_mulsub a b c) = sc_reduce32 c"
  using assms by (intro conjI sc.mul_add_distrib sc.mul_assoc sc.mul_commute sc.sub_add sc.muladd_eq sc.muladd_mulsub; simp)

theorem sc_ring_laws_witness:
  "sc_muladd sc_1 (replicate 32 255) (sc_mulsub sc_1 (replicate 32 255) sc_0) = sc_reduce32 sc_0"
  using sc_ring_laws [of sc_1 "replicate 32 255" sc_0] by (simp add: sc_1_def sc_0_def)

end
