(* ===== verification/Field25519.thy ===== *)
theory Field25519
  imports Scalar25519
begin

text \<open>
  Arithmetic modulo \<open>2^255 - 19\<close>, the \<open>fe_\<close> functions of \<open>src/crypto/crypto-ops.c\<close>.  A field element is ten
  signed 32 bit limbs of alternately 26 and 25 bits, not unique for its value.  The comments of the source
  state for each function how large the limbs may be before it and are after it; here these bounds are the
  hypotheses and conclusions of the lemmas, together with the value modulo the prime.
\<close>

unbundle bit_operations_syntax

type_synonym fe = "int list"

subsection \<open>Linear operations\<close>

definition fe_0 :: fe where "fe_0 = [0, 0, 0, 0, 0, 0, 0, 0, 0, 0]"
definition fe_1 :: fe where "fe_1 = [1, 0, 0, 0, 0, 0, 0, 0, 0, 0]"

definition fe_add :: "fe \<Rightarrow> fe \<Rightarrow> fe" where
  "fe_add f g = map2 (\<lambda>x y. i32 (x + y)) f g"

definition fe_sub :: "fe \<Rightarrow> fe \<Rightarrow> fe" where
  "fe_sub f g = map2 (\<lambda>x y. i32 (x - y)) f g"

definition fe_neg :: "fe \<Rightarrow> fe" where
  "fe_neg f = map (\<lambda>x. i32 (- x)) f"

definition fe_copy :: "fe \<Rightarrow> fe" where
  "fe_copy f = f"

text \<open>The conditional move; the assertion on \<open>b\<close> is a failure value.\<close>

definition fe_cmov :: "fe \<Rightarrow> fe \<Rightarrow> u32 \<Rightarrow> fe option" where
  "fe_cmov f g b =
    (if ((b - 1) AND NOT b) OR ((b - 2) AND NOT (b - 1)) = - 1
     then Some (map2 (\<lambda>f g. f XOR ((f XOR g) AND sint (- b))) f g)
     else None)"

subsection \<open>Multiplication\<close>

text \<open>One product of the schoolbook multiplication: limb \<open>i\<close> is doubled when both limbs have odd index, and the
  products that pass the top limb take the factor 19.\<close>

definition fe_product :: "fe \<Rightarrow> fe \<Rightarrow> nat \<Rightarrow> nat \<Rightarrow> int" where
  "fe_product f g k i =
    (let j = (if i \<le> k then k - i else 10 + k - i)
     in i64 ((if odd i \<and> odd j then i32 (2 * f ! i) else f ! i) * (if i \<le> k then g ! j else i32 (19 * g ! j))))"

definition fe_mul_columns :: "fe \<Rightarrow> fe \<Rightarrow> int list" where
  "fe_mul_columns f g = map (\<lambda>k. i64 (\<Sum>i \<leftarrow> [0..<10]. fe_product f g k i)) [0..<10]"

text \<open>The carries; limb 9 carries into limb 0 with the factor 19.\<close>

definition fe_carry :: "nat \<Rightarrow> int list \<Rightarrow> int list" where
  "fe_carry i = (let b = (if even i then 26 else 25) in limb_carry b (2 ^ (b - 1)) (if i = 9 then 19 else 1) i (Suc i mod 10))"

definition fe_reduce :: "int list \<Rightarrow> fe" where
  "fe_reduce h = map i32 (fold fe_carry [0, 4, 1, 5, 2, 6, 3, 7, 4, 8, 9, 0] h)"

definition fe_mul :: "fe \<Rightarrow> fe \<Rightarrow> fe" where
  "fe_mul f g = fe_reduce (fe_mul_columns f g)"

text \<open>The squarings have their own products, with the equal ones joined.\<close>

definition fe_sq_columns :: "fe \<Rightarrow> int list" where
  "fe_sq_columns f =
    (let f0 = f ! 0; f1 = f ! 1; f2 = f ! 2; f3 = f ! 3; f4 = f ! 4;
         f5 = f ! 5; f6 = f ! 6; f7 = f ! 7; f8 = f ! 8; f9 = f ! 9;
         f0_2 = i32 (2 * f0); f1_2 = i32 (2 * f1); f2_2 = i32 (2 * f2); f3_2 = i32 (2 * f3);
         f4_2 = i32 (2 * f4); f5_2 = i32 (2 * f5); f6_2 = i32 (2 * f6); f7_2 = i32 (2 * f7);
         f5_38 = i32 (38 * f5); f6_19 = i32 (19 * f6); f7_38 = i32 (38 * f7);
         f8_19 = i32 (19 * f8); f9_38 = i32 (38 * f9)
     in map (\<lambda>ps. i64 (\<Sum>(x, y) \<leftarrow> ps. i64 (x * y)))
       [[(f0, f0), (f1_2, f9_38), (f2_2, f8_19), (f3_2, f7_38), (f4_2, f6_19), (f5, f5_38)],
        [(f0_2, f1), (f2, f9_38), (f3_2, f8_19), (f4, f7_38), (f5_2, f6_19)],
        [(f0_2, f2), (f1_2, f1), (f3_2, f9_38), (f4_2, f8_19), (f5_2, f7_38), (f6, f6_19)],
        [(f0_2, f3), (f1_2, f2), (f4, f9_38), (f5_2, f8_19), (f6, f7_38)],
        [(f0_2, f4), (f1_2, f3_2), (f2, f2), (f5_2, f9_38), (f6_2, f8_19), (f7, f7_38)],
        [(f0_2, f5), (f1_2, f4), (f2_2, f3), (f6, f9_38), (f7_2, f8_19)],
        [(f0_2, f6), (f1_2, f5_2), (f2_2, f4), (f3_2, f3), (f7_2, f9_38), (f8, f8_19)],
        [(f0_2, f7), (f1_2, f6), (f2_2, f5), (f3_2, f4), (f8, f9_38)],
        [(f0_2, f8), (f1_2, f7_2), (f2_2, f6), (f3_2, f5_2), (f4, f4), (f9, f9_38)],
        [(f0_2, f9), (f1_2, f8), (f2_2, f7), (f3_2, f6), (f4_2, f5)]])"

definition fe_sq :: "fe \<Rightarrow> fe" where
  "fe_sq f = fe_reduce (fe_sq_columns f)"

definition fe_sq2 :: "fe \<Rightarrow> fe" where
  "fe_sq2 f = fe_reduce (map (\<lambda>h. i64 (h + h)) (fe_sq_columns f))"

subsection \<open>Powers\<close>

definition fe_sqn :: "nat \<Rightarrow> fe \<Rightarrow> fe" where
  "fe_sqn n t = (fe_sq ^^ n) t"

definition fe_invert :: "fe \<Rightarrow> fe" where
  "fe_invert z =
    (let t0 = fe_sq z;
         t1 = fe_sq t0;
         t1 = fe_sq t1;
         t1 = fe_mul z t1;
         t0 = fe_mul t0 t1;
         t2 = fe_sq t0;
         t1 = fe_mul t1 t2;
         t2 = fe_sq t1;
         t2 = fe_sqn 4 t2;
         t1 = fe_mul t2 t1;
         t2 = fe_sq t1;
         t2 = fe_sqn 9 t2;
         t2 = fe_mul t2 t1;
         t3 = fe_sq t2;
         t3 = fe_sqn 19 t3;
         t2 = fe_mul t3 t2;
         t2 = fe_sq t2;
         t2 = fe_sqn 9 t2;
         t1 = fe_mul t2 t1;
         t2 = fe_sq t1;
         t2 = fe_sqn 49 t2;
         t2 = fe_mul t2 t1;
         t3 = fe_sq t2;
         t3 = fe_sqn 99 t3;
         t2 = fe_mul t3 t2;
         t2 = fe_sq t2;
         t2 = fe_sqn 49 t2;
         t1 = fe_mul t2 t1;
         t1 = fe_sq t1;
         t1 = fe_sqn 4 t1
     in fe_mul t1 t0)"

definition fe_divpowm1 :: "fe \<Rightarrow> fe \<Rightarrow> fe" where
  "fe_divpowm1 u v =
    (let v3 = fe_sq v;
         v3 = fe_mul v3 v;
         uv7 = fe_sq v3;
         uv7 = fe_mul uv7 v;
         uv7 = fe_mul uv7 u;
         t0 = fe_sq uv7;
         t1 = fe_sq t0;
         t1 = fe_sq t1;
         t1 = fe_mul uv7 t1;
         t0 = fe_mul t0 t1;
         t0 = fe_sq t0;
         t0 = fe_mul t1 t0;
         t1 = fe_sq t0;
         t1 = fe_sqn 4 t1;
         t0 = fe_mul t1 t0;
         t1 = fe_sq t0;
         t1 = fe_sqn 9 t1;
         t1 = fe_mul t1 t0;
         t2 = fe_sq t1;
         t2 = fe_sqn 19 t2;
         t1 = fe_mul t2 t1;
         t1 = fe_sqn 10 t1;
         t0 = fe_mul t1 t0;
         t1 = fe_sq t0;
         t1 = fe_sqn 49 t1;
         t1 = fe_mul t1 t0;
         t2 = fe_sq t1;
         t2 = fe_sqn 99 t2;
         t1 = fe_mul t2 t1;
         t1 = fe_sqn 50 t1;
         t0 = fe_mul t1 t0;
         t0 = fe_sq t0;
         t0 = fe_sq t0;
         t0 = fe_mul t0 uv7;
         t0 = fe_mul t0 v3
     in fe_mul t0 u)"

subsection \<open>Bytes\<close>

text \<open>The quotient by the prime, limb by limb, and the carries of the canonical form, all in \<open>int32_t\<close>.\<close>

definition fe_quotient :: "fe \<Rightarrow> int" where
  "fe_quotient h =
    fold (\<lambda>i q. drop_bit (if even i then 26 else 25) (i32 (h ! i + q))) [0..<10]
      (drop_bit 25 (i32 (i32 (19 * h ! 9) + 2 ^ 24)))"

definition fe_floor :: "nat \<Rightarrow> fe \<Rightarrow> fe" where
  "fe_floor i h =
    (let b = (if even i then 26 else 25); carry = drop_bit b (h ! i);
         h = (if i < 9 then h[Suc i := i32 (h ! Suc i + carry)] else h)
     in h[i := i32 (h ! i - i32 (push_bit b carry))])"

definition fe_canonical :: "fe \<Rightarrow> fe" where
  "fe_canonical h = (let q = fe_quotient h in fold fe_floor [0..<10] (h[0 := i32 (h ! 0 + i32 (19 * q))]))"

definition fe_store :: "fe \<Rightarrow> bytes" where
  "fe_store h =
    (let h0 = h ! 0; h1 = h ! 1; h2 = h ! 2; h3 = h ! 3; h4 = h ! 4;
         h5 = h ! 5; h6 = h ! 6; h7 = h ! 7; h8 = h ! 8; h9 = h ! 9
     in map of_int
       [drop_bit 0 h0, drop_bit 8 h0, drop_bit 16 h0, drop_bit 24 h0 OR push_bit 2 h1,
        drop_bit 6 h1, drop_bit 14 h1, drop_bit 22 h1 OR push_bit 3 h2,
        drop_bit 5 h2, drop_bit 13 h2, drop_bit 21 h2 OR push_bit 5 h3,
        drop_bit 3 h3, drop_bit 11 h3, drop_bit 19 h3 OR push_bit 6 h4,
        drop_bit 2 h4, drop_bit 10 h4, drop_bit 18 h4,
        drop_bit 0 h5, drop_bit 8 h5, drop_bit 16 h5, drop_bit 24 h5 OR push_bit 1 h6,
        drop_bit 7 h6, drop_bit 15 h6, drop_bit 23 h6 OR push_bit 3 h7,
        drop_bit 5 h7, drop_bit 13 h7, drop_bit 21 h7 OR push_bit 4 h8,
        drop_bit 4 h8, drop_bit 12 h8, drop_bit 20 h8 OR push_bit 6 h9,
        drop_bit 2 h9, drop_bit 10 h9, drop_bit 18 h9])"

definition fe_tobytes :: "fe \<Rightarrow> bytes" where
  "fe_tobytes h = fe_store (fe_canonical h)"

definition fe_load :: "bytes \<Rightarrow> int list" where
  "fe_load s = map sint
    [load_4 s, push_bit 6 (load_3 (drop 4 s)), push_bit 5 (load_3 (drop 7 s)), push_bit 3 (load_3 (drop 10 s)),
     push_bit 2 (load_3 (drop 13 s)), load_4 (drop 16 s), push_bit 7 (load_3 (drop 20 s)),
     push_bit 5 (load_3 (drop 23 s)), push_bit 4 (load_3 (drop 26 s)), push_bit 2 (load_3 (drop 29 s) AND 8388607)]"

definition fe_frombytes_vartime :: "bytes \<Rightarrow> fe option" where
  "fe_frombytes_vartime s =
    (let h = fe_load s
     in if h ! 9 = 33554428 \<and> h ! 8 = 268435440 \<and> h ! 7 = 536870880 \<and> h ! 6 = 2147483520 \<and>
           h ! 5 = 4294967295 \<and> h ! 4 = 67108860 \<and> h ! 3 = 134217720 \<and> h ! 2 = 536870880 \<and>
           h ! 1 = 1073741760 \<and> h ! 0 \<ge> 4294967277
        then None
        else Some (map i32 (fold fe_carry [9, 1, 3, 5, 7, 0, 2, 4, 6, 8] h)))"

subsection \<open>Predicates\<close>

definition fe_isnonzero :: "fe \<Rightarrow> int" where
  "fe_isnonzero f = (let s = fe_tobytes f in drop_bit 8 (uint (fold (\<lambda>i acc. acc OR s ! i) [1..<32] (s ! 0)) - 1) + 1)"

definition fe_isnegative :: "fe \<Rightarrow> int" where
  "fe_isnegative f = uint (fe_tobytes f ! 0 AND 1)"

text \<open>The constant-time comparison is an argument: it is a function of another library.\<close>

definition fe_equals :: "(bytes \<Rightarrow> bytes \<Rightarrow> int) \<Rightarrow> fe \<Rightarrow> fe \<Rightarrow> bool" where
  "fe_equals crypto_verify_32 a b = (crypto_verify_32 (fe_tobytes a) (fe_tobytes b) = 0)"

definition fe_batch_prefix :: "fe list \<Rightarrow> fe list" where
  "fe_batch_prefix inp = fold (\<lambda>x out. out @ [fe_mul (last out) x]) (tl inp) [fe_copy (hd inp)]"

definition fe_batch_step :: "fe list \<Rightarrow> nat \<Rightarrow> fe \<times> fe list \<Rightarrow> fe \<times> fe list" where
  "fe_batch_step inp = (\<lambda>i (a, out). (fe_mul a (inp ! (i - 1)), out[i - 1 := fe_mul a (out ! (i - 2))]))"

definition fe_batch_invert :: "fe list \<Rightarrow> fe list option" where
  "fe_batch_invert inp =
    (let n = length inp
     in if n = 0 then Some []
        else let out = fe_batch_prefix inp
             in if fe_isnonzero (out ! (n - 1)) = 0 then None
                else let (a, out) = fold (fe_batch_step inp) (rev [2..<Suc n]) (fe_invert (out ! (n - 1)), out)
                     in Some (out[0 := fe_copy a]))"

subsection \<open>Values and bounds\<close>

definition fe_p :: int where "fe_p = 2 ^ 255 - 19"

definition fe_w :: "nat \<Rightarrow> nat" where "fe_w i = 26 * (Suc i div 2) + 25 * (i div 2)"

text \<open>The residue a field element stands for.\<close>

definition fe_num :: "fe \<Rightarrow> int" where "fe_num f = limb_val fe_w f mod fe_p"

text \<open>Limbs of odd index are at most \<open>c\<close> in size and the others twice that; the bounds of the source are all of
  this form.\<close>

definition fe_bounded :: "int \<Rightarrow> fe \<Rightarrow> bool" where
  "fe_bounded c f \<longleftrightarrow> length f = 10 \<and> (\<forall>i < 10. \<bar>f ! i\<bar> \<le> (if even i then 2 * c else c))"

lemma fe_boundedD: "fe_bounded c f \<Longrightarrow> i < 10 \<Longrightarrow> \<bar>f ! i\<bar> \<le> (if even i then 2 * c else c)"
  by (simp add: fe_bounded_def)

lemma fe_bounded_length: "fe_bounded c f \<Longrightarrow> length f = 10"
  by (simp add: fe_bounded_def)

lemma fe_bounded_mono: "fe_bounded c f \<Longrightarrow> c \<le> d \<Longrightarrow> fe_bounded d f"
  by (force simp: fe_bounded_def)

lemma fe_bounded_pos: "fe_bounded c f \<Longrightarrow> 0 \<le> c"
  using fe_boundedD [of c f 1] by force

lemma limb_val_10: "length f = 10 \<Longrightarrow> limb_val fe_w f = (\<Sum>i<10. f ! i * 2 ^ fe_w i)"
  by (simp add: limb_val_def)

subsection \<open>Linear operations\<close>

lemma fe_map2_correct:
  assumes f: "fe_bounded a f" and g: "fe_bounded b g" and c: "2 * (a + b) < 2 ^ 31"
    and op: "\<And>x y. \<bar>op x y\<bar> \<le> \<bar>x\<bar> + \<bar>y\<bar>"
  shows "fe_bounded (a + b) (map2 (\<lambda>x y. i32 (op x y)) f g)"
    "map2 (\<lambda>x y. i32 (op x y)) f g = map (\<lambda>i. op (f ! i) (g ! i)) [0..<10]"
proof -
  have l: "length f = 10" "length g = 10" using f g by (simp_all add: fe_bounded_length)
  have p: "0 \<le> a" "0 \<le> b" using f g by (auto dest: fe_bounded_pos)
  have s: "\<bar>op (f ! i) (g ! i)\<bar> \<le> (if even i then 2 * (a + b) else a + b)" if "i < 10" for i
    using fe_boundedD [OF f that] fe_boundedD [OF g that] op [of "f ! i" "g ! i"] by (auto split: if_splits)
  have "i32 (op (f ! i) (g ! i)) = op (f ! i) (g ! i)" if "i < 10" for i
  proof -
    have "\<bar>op (f ! i) (g ! i)\<bar> \<le> 2 * (a + b)" using s [OF that] p by (auto split: if_splits)
    then show ?thesis using c by (intro i32_id) linarith+
  qed
  then show eq: "map2 (\<lambda>x y. i32 (op x y)) f g = map (\<lambda>i. op (f ! i) (g ! i)) [0..<10]"
    unfolding map2_nth_upt [OF l] by simp
  show "fe_bounded (a + b) (map2 (\<lambda>x y. i32 (op x y)) f g)" unfolding eq using s by (simp add: fe_bounded_def)
qed

lemma limb_val_pointwise:
  assumes "length f = 10" "length g = 10" "\<And>x y. op x y = x + s * (y :: int)"
  shows "limb_val fe_w (map (\<lambda>i. op (f ! i) (g ! i)) [0..<10]) = limb_val fe_w f + s * limb_val fe_w g"
  unfolding limb_val_10 [OF assms(1)] limb_val_10 [OF assms(2)] limb_val_def assms(3)
  by (simp add: assms(1,2) distrib_right sum.distrib sum_distrib_left mult.assoc)

lemma fe_add_correct:
  assumes "fe_bounded a f" "fe_bounded b g" "2 * (a + b) < 2 ^ 31"
  shows "fe_bounded (a + b) (fe_add f g)" "fe_num (fe_add f g) = (fe_num f + fe_num g) mod fe_p"
proof -
  note r = fe_map2_correct [where op = "(+)", OF assms]
  show "fe_bounded (a + b) (fe_add f g)" unfolding fe_add_def by (rule r) simp
  have "fe_add f g = map (\<lambda>i. f ! i + g ! i) [0..<10]" unfolding fe_add_def by (rule r) simp
  then show "fe_num (fe_add f g) = (fe_num f + fe_num g) mod fe_p"
    using limb_val_pointwise [of f g "(+)" 1] assms by (simp add: fe_num_def fe_bounded_length mod_simps)
qed

lemma fe_sub_correct:
  assumes "fe_bounded a f" "fe_bounded b g" "2 * (a + b) < 2 ^ 31"
  shows "fe_bounded (a + b) (fe_sub f g)" "fe_num (fe_sub f g) = (fe_num f - fe_num g) mod fe_p"
proof -
  note r = fe_map2_correct [where op = "(-)", OF assms]
  show "fe_bounded (a + b) (fe_sub f g)" unfolding fe_sub_def by (rule r) simp
  have "fe_sub f g = map (\<lambda>i. f ! i - g ! i) [0..<10]" unfolding fe_sub_def by (rule r) simp
  then show "fe_num (fe_sub f g) = (fe_num f - fe_num g) mod fe_p"
    using limb_val_pointwise [of f g "(-)" "- 1"] assms by (simp add: fe_num_def fe_bounded_length mod_simps)
qed

lemma fe_neg_correct:
  assumes "fe_bounded a f" "2 * a < 2 ^ 31"
  shows "fe_bounded a (fe_neg f)" "fe_num (fe_neg f) = (- fe_num f) mod fe_p"
proof -
  have l: "length f = 10" and p: "0 \<le> a" using assms(1) by (auto dest: fe_bounded_length fe_bounded_pos)
  have "\<bar>f ! i\<bar> \<le> 2 * a" if "i < 10" for i using fe_boundedD [OF assms(1) that] p by (auto split: if_splits)
  then have "i32 (- f ! i) = - f ! i" if "i < 10" for i using assms(2) that by (intro i32_id) fastforce+
  then have eq: "fe_neg f = map (\<lambda>i. - f ! i) [0..<10]" using l by (intro nth_equalityI) (simp_all add: fe_neg_def)
  show "fe_bounded a (fe_neg f)" unfolding eq using assms(1) by (simp add: fe_bounded_def)
  have "limb_val fe_w (fe_neg f) = - limb_val fe_w f"
    unfolding eq limb_val_10 [OF l] by (simp add: limb_val_def sum_negf)
  then show "fe_num (fe_neg f) = (- fe_num f) mod fe_p" by (simp add: fe_num_def mod_simps)
qed

lemma fe_constants: "fe_bounded 1 fe_0" "fe_bounded 1 fe_1" "fe_num fe_0 = 0" "fe_num fe_1 = 1"
proof -
  show "fe_bounded 1 fe_0" "fe_bounded 1 fe_1"
    by (auto simp: fe_bounded_def fe_0_def fe_1_def nth_Cons' split: if_splits)
  show "fe_num fe_0 = 0" "fe_num fe_1 = 1"
    by (simp_all add: fe_num_def limb_val_def fe_0_def fe_1_def fe_w_def fe_p_def lessThan_Suc numeral_eq_Suc)
qed

text \<open>The assertion of the conditional move holds for 0 and 1 only.\<close>

lemma trailing_ones: "odd (x :: u32) \<Longrightarrow> (x - 1) AND NOT x = 0"
proof -
  assume x: "odd x"
  have "(x AND NOT 1) + 1 = (x AND NOT 1) OR 1" by (rule disjunctive_add_eq_or) (simp add: and.assoc)
  also have "\<dots> = x" by (rule bit_word_eqI) (use x in \<open>auto simp: bit_simps bit_1_iff bit_0\<close>)
  finally have "x - 1 = x AND NOT 1" by (metis add_diff_cancel)
  then show ?thesis by (simp add: bit_eq_iff bit_simps)
qed

lemma and_all_ones: "x AND y = - 1 \<longleftrightarrow> x = - 1 \<and> y = (- 1 :: u32)"
  by (auto simp: bit_eq_iff bit_simps)

lemma cmov_assertion: "((b - 1) AND NOT b) OR ((b - 2) AND NOT (b - 1)) = - 1 \<longleftrightarrow> b = 0 \<or> b = (1 :: u32)"
proof (cases "even b")
  case True
  then have "(b - 1 - 1) AND NOT (b - 1) = 0" by (intro trailing_ones) simp
  then have z: "(b - 2) AND NOT (b - 1) = 0" by (simp add: diff_diff_eq)
  have "b \<noteq> 1" using True by auto
  moreover have "NOT b = - 1 \<longleftrightarrow> b = 0" by (metis bit.double_compl bit.compl_zero)
  ultimately show ?thesis unfolding z or.right_neutral and_all_ones by auto
next
  case False
  then have z: "(b - 1) AND NOT b = 0" by (rule trailing_ones)
  have "b \<noteq> 0" using False by auto
  moreover have "NOT (b - 1) = - 1 \<longleftrightarrow> b = 1" by (metis bit.double_compl bit.compl_zero eq_iff_diff_eq_0)
  ultimately show ?thesis unfolding z or.left_neutral and_all_ones by auto
qed

lemma fe_cmov_correct:
  assumes "length f = 10" "length g = 10"
  shows "fe_cmov f g b = (if b = 0 then Some f else if b = 1 then Some g else None)"
  unfolding fe_cmov_def cmov_assertion using assms
  by (auto simp: map2_nth_upt intro!: nth_equalityI)

subsection \<open>Columns\<close>

text \<open>The same products in the integers.\<close>

definition fe_coeff :: "nat \<Rightarrow> nat \<Rightarrow> int" where
  "fe_coeff i j = (if odd i \<and> odd j then 2 else 1) * (if i + j < 10 then 1 else 19)"

definition fe_index :: "nat \<Rightarrow> nat \<Rightarrow> nat" where
  "fe_index k i = (if i \<le> k then k - i else 10 + k - i)"

definition fe_column :: "int list \<Rightarrow> int list \<Rightarrow> nat \<Rightarrow> int" where
  "fe_column f g k = (\<Sum>i \<leftarrow> [0..<10]. fe_coeff i (fe_index k i) * (f ! i * g ! fe_index k i))"

abbreviation fe_mul_bound :: int where "fe_mul_bound \<equiv> 55364812"
abbreviation fe_out_bound :: int where "fe_out_bound \<equiv> 16944988"

lemma fe_index_range: "k < 10 \<Longrightarrow> i < 10 \<Longrightarrow> fe_index k i < 10 \<and> (i + fe_index k i < 10 \<longleftrightarrow> i \<le> k)"
  by (auto simp: fe_index_def)

lemma limb_sizes:
  assumes "fe_bounded fe_mul_bound f" "i < 10"
  shows "\<bar>f ! i\<bar> \<le> 110729624" "odd i \<Longrightarrow> \<bar>f ! i\<bar> \<le> 55364812"
  using fe_boundedD [OF assms] by (auto split: if_splits)

lemma abs_prod_bound: "\<bar>x\<bar> \<le> a \<Longrightarrow> \<bar>y\<bar> \<le> b \<Longrightarrow> \<bar>x * y\<bar> \<le> a * (b :: int)"
  unfolding abs_mult by (rule mult_mono) (auto intro: order_trans [OF abs_ge_zero])

lemma i64_abs: "\<bar>x\<bar> \<le> 9223372036854775807 \<Longrightarrow> i64 x = x"
  by (intro i64_id) (simp_all add: abs_le_iff)

lemma i32_abs: "\<bar>x\<bar> \<le> 2147483647 \<Longrightarrow> i32 x = x"
  by (intro i32_id) (simp_all add: abs_le_iff)

lemma fe_product_exact:
  assumes f: "fe_bounded fe_mul_bound f" and g: "fe_bounded fe_mul_bound g" and "k < 10" "i < 10"
  shows "fe_product f g k i = fe_coeff i (fe_index k i) * (f ! i * g ! fe_index k i)"
proof -
  define j where "j = fe_index k i"
  have j: "j < 10" "i + j < 10 \<longleftrightarrow> i \<le> k" unfolding j_def using assms(3,4) by (simp_all add: fe_index_range)
  define x where "x = (if odd i \<and> odd j then 2 * f ! i else f ! i)"
  define y where "y = (if i \<le> k then g ! j else 19 * g ! j)"
  have x: "\<bar>x\<bar> \<le> 110729624" unfolding x_def using limb_sizes [OF f assms(4)] by (auto simp: abs_mult)
  have y: "\<bar>y\<bar> \<le> 2103862856" unfolding y_def using limb_sizes [OF g j(1)] by (auto simp: abs_mult)
  have "fe_product f g k i = i64 (i32 x * i32 y)"
    unfolding fe_product_def Let_def fe_index_def [symmetric] j_def [symmetric] x_def y_def
    using limb_sizes [OF f assms(4)] limb_sizes [OF g j(1)] by (simp add: i32_abs)
  also have "\<dots> = i64 (x * y)" using x y by (simp add: i32_abs)
  also have "\<dots> = x * y" using abs_prod_bound [OF x y] by (intro i64_abs) simp
  also have "\<dots> = fe_coeff i j * (f ! i * g ! j)" using j(2) by (simp add: x_def y_def fe_coeff_def)
  finally show ?thesis by (simp add: j_def)
qed

text \<open>The size of a column is at most the column of the bounds, which is evaluated.\<close>

lemma fe_coeff_pos: "0 \<le> fe_coeff i j"
  by (simp add: fe_coeff_def)

definition fe_size :: "int list" where
  "fe_size = [110729624, 55364812, 110729624, 55364812, 110729624, 55364812, 110729624, 55364812, 110729624, 55364812]"

lemma fe_size_bound: "fe_bounded fe_mul_bound f \<Longrightarrow> i < 10 \<Longrightarrow> \<bar>f ! i\<bar> \<le> fe_size ! i"
proof -
  assume f: "fe_bounded fe_mul_bound f" "i < 10"
  have "\<forall>i \<in> set [0..<10]. fe_size ! i = (if even i then 110729624 else 55364812)" by code_simp
  then show ?thesis using fe_boundedD [OF f] f(2) by (auto split: if_splits)
qed

lemma fe_size_columns: "k < 10 \<Longrightarrow> fe_column fe_size fe_size k \<le> 1729382256910270464"
proof -
  have "\<forall>k \<in> set [0..<10]. fe_column fe_size fe_size k \<le> 1729382256910270464" by code_simp
  then show "k < 10 \<Longrightarrow> ?thesis" by simp
qed

lemma fe_column_bound:
  assumes "fe_bounded fe_mul_bound f" "fe_bounded fe_mul_bound g" "k < 10"
  shows "\<bar>fe_column f g k\<bar> \<le> 1729382256910270464"
proof -
  have "\<bar>fe_column f g k\<bar> \<le> (\<Sum>i \<leftarrow> [0..<10]. \<bar>fe_coeff i (fe_index k i) * (f ! i * g ! fe_index k i)\<bar>)"
    unfolding fe_column_def by (rule order_trans [OF sum_list_abs]) (simp add: comp_def)
  also have "\<dots> \<le> fe_column fe_size fe_size k"
    unfolding fe_column_def
  proof (rule sum_list_mono)
    fix i assume "i \<in> set [0..<10 :: nat]"
    then have i: "i < 10" by simp
    have "\<bar>f ! i * g ! fe_index k i\<bar> \<le> fe_size ! i * fe_size ! fe_index k i"
      using assms i by (intro abs_prod_bound fe_size_bound) (simp_all add: fe_index_range)
    then show "\<bar>fe_coeff i (fe_index k i) * (f ! i * g ! fe_index k i)\<bar> \<le> fe_coeff i (fe_index k i) * (fe_size ! i * fe_size ! fe_index k i)"
      by (simp add: abs_mult fe_coeff_pos mult_left_mono)
  qed
  also have "\<dots> \<le> 1729382256910270464" by (rule fe_size_columns [OF assms(3)])
  finally show ?thesis .
qed

lemma fe_mul_columns_exact:
  assumes "fe_bounded fe_mul_bound f" "fe_bounded fe_mul_bound g"
  shows "fe_mul_columns f g = map (fe_column f g) [0..<10]"
  unfolding fe_mul_columns_def
proof (rule map_cong [OF refl])
  fix k assume "k \<in> set [0..<10 :: nat]"
  then have k: "k < 10" by simp
  have "(\<Sum>i \<leftarrow> [0..<10]. fe_product f g k i) = fe_column f g k"
    unfolding fe_column_def using fe_product_exact [OF assms k] by (intro arg_cong [where f = sum_list] map_cong) simp_all
  then show "i64 (\<Sum>i \<leftarrow> [0..<10]. fe_product f g k i) = fe_column f g k"
    using fe_column_bound [OF assms k] by (simp add: i64_abs)
qed

text \<open>The weights match: a product of two limbs has the weight of its column up to the factors 2 and 19.\<close>

lemma fe_w_add: "fe_w i + fe_w j = fe_w (i + j) + (if odd i \<and> odd j then 1 else 0)"
proof (cases "odd i")
  case True
  then obtain a where a: "i = 2 * a + 1" by (rule oddE)
  show ?thesis
  proof (cases "odd j")
    case True
    then obtain b where "j = 2 * b + 1" by (rule oddE)
    then show ?thesis using a by (simp add: fe_w_def)
  next
    case False
    then obtain b where "j = 2 * b" by (auto elim: evenE)
    then show ?thesis using a by (simp add: fe_w_def)
  qed
next
  case False
  then obtain a where a: "i = 2 * a" by (auto elim: evenE)
  show ?thesis unfolding a fe_w_def by (cases "even j") (auto elim!: evenE oddE)
qed

lemma fe_w_wrap: "2 ^ fe_w (10 + k) mod fe_p = 19 * 2 ^ fe_w k mod fe_p"
proof -
  have "fe_w (10 + k) = 255 + fe_w k" unfolding fe_w_def by (cases "even k") (auto elim!: evenE oddE)
  moreover have "2 ^ 255 mod fe_p = 19 mod fe_p" unfolding fe_p_def by simp
  ultimately show ?thesis unfolding power_add by (metis mod_mult_left_eq power_add)
qed

lemma fe_weights:
  assumes "i < 10" "j < 10"
  shows "(fe_coeff i j * 2 ^ fe_w ((i + j) mod 10)) mod fe_p = 2 ^ (fe_w i + fe_w j) mod fe_p"
proof (cases "i + j < 10")
  case True
  then show ?thesis unfolding fe_w_add by (simp add: fe_coeff_def)
next
  case False
  define k where "k = i + j - 10"
  have k: "i + j = 10 + k" "(i + j) mod 10 = k" using False assms by (auto simp: k_def mod_if)
  define d :: nat where "d = (if odd i \<and> odd j then 1 else 0)"
  have "2 ^ (fe_w i + fe_w j) mod fe_p = 2 ^ d * 2 ^ fe_w (10 + k) mod fe_p"
    unfolding fe_w_add k(1) d_def by (simp add: power_add mult.commute)
  also have "\<dots> = 2 ^ d * (19 * 2 ^ fe_w k) mod fe_p" using fe_w_wrap [of k] by (metis mod_mult_right_eq)
  also have "2 ^ d * (19 * 2 ^ fe_w k) = fe_coeff i j * 2 ^ fe_w ((i + j) mod 10)"
    using False k by (simp add: fe_coeff_def d_def)
  finally show ?thesis ..
qed

lemma fe_index_sum: "k < 10 \<Longrightarrow> i < 10 \<Longrightarrow> (i + fe_index k i) mod 10 = k"
  by (auto simp: fe_index_def)

lemma fe_columns_sum:
  "(\<Sum>k<10. fe_column f g k * 2 ^ fe_w k) =
   (\<Sum>(i, j) \<in> {..<10} \<times> {..<10}. f ! i * g ! j * (fe_coeff i j * 2 ^ fe_w ((i + j) mod 10)))"
proof -
  have "(\<Sum>k<10. fe_column f g k * 2 ^ fe_w k) =
      (\<Sum>k<10. \<Sum>i<10. fe_coeff i (fe_index k i) * (f ! i * g ! fe_index k i) * 2 ^ fe_w k)"
    unfolding fe_column_def by (simp only: interv_sum_list_conv_sum_set_nat set_upt sum_distrib_right atLeast0LessThan)
  also have "\<dots> = (\<Sum>(k, i) \<in> {..<10} \<times> {..<10}. fe_coeff i (fe_index k i) * (f ! i * g ! fe_index k i) * 2 ^ fe_w k)"
    by (simp only: sum.cartesian_product)
  also have "\<dots> = (\<Sum>(i, j) \<in> {..<10} \<times> {..<10}. f ! i * g ! j * (fe_coeff i j * 2 ^ fe_w ((i + j) mod 10)))"
    by (rule sum.reindex_bij_witness [where i = "\<lambda>(i, j). ((i + j) mod 10, i)" and j = "\<lambda>(k, i). (i, fe_index k i)"])
      (auto simp: fe_index_range fe_index_sum, auto simp: fe_index_def mod_if)
  finally show ?thesis .
qed

lemma sum_mod_cong: "(\<And>x. x \<in> A \<Longrightarrow> f x mod m = g x mod (m :: int)) \<Longrightarrow> sum f A mod m = sum g A mod m"
  by (subst (1 2) mod_sum_eq [symmetric]) (simp cong: sum.cong)

lemma fe_columns_val:
  assumes "length f = 10" "length g = 10"
  shows "limb_val fe_w (map (fe_column f g) [0..<10]) mod fe_p = (limb_val fe_w f * limb_val fe_w g) mod fe_p"
proof -
  have "limb_val fe_w (map (fe_column f g) [0..<10]) = (\<Sum>k<10. fe_column f g k * 2 ^ fe_w k)" by (simp add: limb_val_def)
  also have "\<dots> mod fe_p = (\<Sum>(i, j) \<in> {..<10} \<times> {..<10}. f ! i * g ! j * 2 ^ (fe_w i + fe_w j)) mod fe_p"
    unfolding fe_columns_sum
  proof (rule sum_mod_cong)
    fix x :: "nat \<times> nat" assume x: "x \<in> {..<10} \<times> {..<10}"
    obtain i j where ij: "x = (i, j)" by fastforce
    have "(fe_coeff i j * 2 ^ fe_w ((i + j) mod 10)) mod fe_p = 2 ^ (fe_w i + fe_w j) mod fe_p"
      using x ij by (simp add: fe_weights)
    then have "f ! i * g ! j * (fe_coeff i j * 2 ^ fe_w ((i + j) mod 10)) mod fe_p = f ! i * g ! j * 2 ^ (fe_w i + fe_w j) mod fe_p"
      by (metis mod_mult_right_eq)
    then show "(case x of (i, j) \<Rightarrow> f ! i * g ! j * (fe_coeff i j * 2 ^ fe_w ((i + j) mod 10))) mod fe_p =
        (case x of (i, j) \<Rightarrow> f ! i * g ! j * 2 ^ (fe_w i + fe_w j)) mod fe_p" by (simp add: ij)
  qed
  also have "(\<Sum>(i, j) \<in> {..<10} \<times> {..<10}. f ! i * g ! j * 2 ^ (fe_w i + fe_w j)) = limb_val fe_w f * limb_val fe_w g"
    unfolding limb_val_10 [OF assms(1)] limb_val_10 [OF assms(2)] sum_product sum.cartesian_product
    by (intro sum.cong) (auto simp: power_add)
  finally show ?thesis .
qed

subsection \<open>Carries\<close>

definition iv_fe_carry :: "nat \<Rightarrow> intervals \<Rightarrow> intervals option" where
  "iv_fe_carry i = (let b = (if even i then 26 else 25) in iv_carry b (2 ^ (b - 1)) (if i = 9 then 19 else 1) i (Suc i mod 10))"

lemma fe_carry_safe: "i < 10 \<Longrightarrow> safe_step fe_w fe_p (fe_carry i) (iv_fe_carry i)"
proof -
  assume i: "i < 10"
  have s: "fe_w i + (if even i then 26 else 25) = fe_w (Suc i)" by (auto simp: fe_w_def elim: evenE oddE)
  have "((if i = 9 then 19 else 1) * 2 ^ fe_w (Suc i mod 10) - 2 ^ fe_w (Suc i)) mod fe_p = 0"
  proof (cases "i = 9")
    case True
    then show ?thesis using fe_w_wrap [of 0] by (simp add: mod_eq_dvd_iff mod_eq_0_iff_dvd dvd_diff_commute)
  qed (use i in simp)
  then show ?thesis
    unfolding fe_carry_def iv_fe_carry_def Let_def by (intro safe_step_carry) (simp_all only: s carry_params_def, simp_all)
qed

lemma fe_carries_safe: "set is \<subseteq> {..<10} \<Longrightarrow> safe_step fe_w fe_p (fold fe_carry is) (opt_fold iv_fe_carry is)"
  by (intro safe_step_fold fe_carry_safe) auto

definition iv_sym :: "int \<Rightarrow> int \<Rightarrow> intervals" where
  "iv_sym e d = map (\<lambda>i. if even i then (- e, e) else (- d, d)) [0..<10]"

definition iv_sub :: "intervals \<Rightarrow> intervals \<Rightarrow> bool" where
  "iv_sub iv jv = list_all2 (\<lambda>(l, u) (l', u'). l' \<le> l \<and> u \<le> u') iv jv"

lemma iv_sub_within: "iv_sub iv jv \<Longrightarrow> within iv s \<Longrightarrow> within jv s"
  unfolding iv_sub_def within_def list_all2_conv_all_nth by (simp add: case_prod_beta) (metis order_trans)

lemma iv_sym_nth: "length (iv_sym e d) = 10 \<and> (\<forall>i < 10. iv_sym e d ! i = (if even i then (- e, e) else (- d, d)))"
  by (simp add: iv_sym_def)

lemma within_iv_sym: "within (iv_sym (2 * c) c) f \<longleftrightarrow> fe_bounded c f"
proof -
  have "fst (iv_sym (2 * c) c ! i) \<le> f ! i \<and> f ! i \<le> snd (iv_sym (2 * c) c ! i) \<longleftrightarrow> \<bar>f ! i\<bar> \<le> (if even i then 2 * c else c)"
    if "i < 10" for i using iv_sym_nth [of "2 * c" c] that by (auto simp: abs_le_iff)
  then show ?thesis using iv_sym_nth [of "2 * c" c] by (simp add: within_def fe_bounded_def)
qed

lemma fe_bounded_i32: "fe_bounded c f \<Longrightarrow> c \<le> 1073741823 \<Longrightarrow> map i32 f = f"
proof -
  assume f: "fe_bounded c f" and c: "c \<le> 1073741823"
  have "i32 (f ! i) = f ! i" if "i < 10" for i
    using fe_boundedD [OF f that] fe_bounded_pos [OF f] c by (intro i32_abs) (auto split: if_splits)
  then show ?thesis using fe_bounded_length [OF f] by (intro nth_equalityI) simp_all
qed

text \<open>The whole reduction, from columns of at most \<open>3 * 2 ^ 60\<close>.\<close>

lemma iv_fe_reduce:
  "\<exists>iv. opt_fold iv_fe_carry [0, 4, 1, 5, 2, 6, 3, 7, 4, 8, 9, 0] (iv_sym 3458764513820540928 3458764513820540928) = Some iv \<and>
    iv_sub iv (iv_sym (2 * fe_out_bound) fe_out_bound)"
  by (intro exI conjI) (code_simp, code_simp)

lemma fe_reduce_correct:
  assumes "length h = 10" "\<And>i. i < 10 \<Longrightarrow> \<bar>h ! i\<bar> \<le> 3458764513820540928"
  shows "fe_bounded fe_out_bound (fe_reduce h)" "fe_num (fe_reduce h) = limb_val fe_w h mod fe_p"
proof -
  obtain iv where iv: "opt_fold iv_fe_carry [0, 4, 1, 5, 2, 6, 3, 7, 4, 8, 9, 0] (iv_sym 3458764513820540928 3458764513820540928) = Some iv"
    "iv_sub iv (iv_sym (2 * fe_out_bound) fe_out_bound)" using iv_fe_reduce by blast
  define r where "r = fold fe_carry [0, 4, 1, 5, 2, 6, 3, 7, 4, 8, 9, 0] h"
  have "- 3458764513820540928 \<le> h ! i \<and> h ! i \<le> 3458764513820540928" if "i < 10" for i
    using assms(2) [OF that] by linarith
  then have "within (iv_sym 3458764513820540928 3458764513820540928) h"
    using assms(1) iv_sym_nth [of 3458764513820540928 3458764513820540928] by (simp add: within_def)
  then have r: "within iv r" "limb_val fe_w r mod fe_p = limb_val fe_w h mod fe_p"
    using safe_stepD [OF fe_carries_safe _ iv(1), of h] unfolding r_def by simp_all
  have b: "fe_bounded fe_out_bound r" using iv_sub_within [OF iv(2) r(1)] by (simp only: within_iv_sym)
  have "fe_reduce h = r" unfolding fe_reduce_def r_def [symmetric] using fe_bounded_i32 [OF b] by simp
  then show "fe_bounded fe_out_bound (fe_reduce h)" "fe_num (fe_reduce h) = limb_val fe_w h mod fe_p"
    using b r(2) by (simp_all add: fe_num_def)
qed

lemma fe_mul_correct:
  assumes "fe_bounded fe_mul_bound f" "fe_bounded fe_mul_bound g"
  shows "fe_bounded fe_out_bound (fe_mul f g)" "fe_num (fe_mul f g) = (fe_num f * fe_num g) mod fe_p"
proof -
  have "\<bar>fe_mul_columns f g ! i\<bar> \<le> 3458764513820540928" if "i < 10" for i
    using fe_column_bound [OF assms that] that by (simp add: fe_mul_columns_exact [OF assms])
  note r = fe_reduce_correct [OF _ this]
  show "fe_bounded fe_out_bound (fe_mul f g)" unfolding fe_mul_def using r by (simp add: fe_mul_columns_def)
  have "fe_num (fe_mul f g) = limb_val fe_w (fe_mul_columns f g) mod fe_p"
    unfolding fe_mul_def using r by (simp add: fe_mul_columns_def)
  also have "\<dots> = (limb_val fe_w f * limb_val fe_w g) mod fe_p"
    unfolding fe_mul_columns_exact [OF assms] using assms by (intro fe_columns_val) (simp_all add: fe_bounded_length)
  finally show "fe_num (fe_mul f g) = (fe_num f * fe_num g) mod fe_p" by (simp add: fe_num_def mod_simps)
qed

subsection \<open>Squares\<close>

lemma upt_10: "[0..<10] = [0, 1, 2, 3, 4, 5, 6, 7, 8, 9 :: nat]"
  by (simp add: upt_rec)

text \<open>The joined products are the columns of the multiplication of an element by itself.\<close>

lemma fe_square_columns:
  assumes "f = [f0, f1, f2, f3, f4, f5, f6, f7, f8, f9]"
  shows "map (fe_column f f) [0..<10] = map (\<lambda>ps. \<Sum>(x, y) \<leftarrow> ps. x * y)
    [[(f0, f0), (2 * f1, 38 * f9), (2 * f2, 19 * f8), (2 * f3, 38 * f7), (2 * f4, 19 * f6), (f5, 38 * f5)],
     [(2 * f0, f1), (f2, 38 * f9), (2 * f3, 19 * f8), (f4, 38 * f7), (2 * f5, 19 * f6)],
     [(2 * f0, f2), (2 * f1, f1), (2 * f3, 38 * f9), (2 * f4, 19 * f8), (2 * f5, 38 * f7), (f6, 19 * f6)],
     [(2 * f0, f3), (2 * f1, f2), (f4, 38 * f9), (2 * f5, 19 * f8), (f6, 38 * f7)],
     [(2 * f0, f4), (2 * f1, 2 * f3), (f2, f2), (2 * f5, 38 * f9), (2 * f6, 19 * f8), (f7, 38 * f7)],
     [(2 * f0, f5), (2 * f1, f4), (2 * f2, f3), (f6, 38 * f9), (2 * f7, 19 * f8)],
     [(2 * f0, f6), (2 * f1, 2 * f5), (2 * f2, f4), (2 * f3, f3), (2 * f7, 38 * f9), (f8, 19 * f8)],
     [(2 * f0, f7), (2 * f1, f6), (2 * f2, f5), (2 * f3, f4), (f8, 38 * f9)],
     [(2 * f0, f8), (2 * f1, 2 * f7), (2 * f2, f6), (2 * f3, 2 * f5), (f4, f4), (f9, 38 * f9)],
     [(2 * f0, f9), (2 * f1, f8), (2 * f2, f7), (2 * f3, f6), (2 * f4, f5)]]"
proof -
  have nths: "f ! 0 = f0" "f ! 1 = f1" "f ! 2 = f2" "f ! 3 = f3" "f ! 4 = f4" "f ! 5 = f5" "f ! 6 = f6" "f ! 7 = f7"
    "f ! 8 = f8" "f ! 9 = f9" "f ! Suc 0 = f1" by (simp_all add: assms)
  show ?thesis
    unfolding upt_10 list.map list.inject fe_column_def
    by (intro conjI; simp add: fe_coeff_def fe_index_def nths)
qed

lemma i32_range: "\<bar>i32 x\<bar> \<le> 2147483648"
  using signed_take_bit_int_less_exp [of 31 x] signed_take_bit_int_greater_eq_minus_exp [of 31 x]
  by (simp add: i32_def abs_le_iff)

lemma columns_i64:
  assumes f: "fe_bounded fe_mul_bound f" and cols: "map (fe_column f f) [0..<10] = map (\<lambda>ps. \<Sum>(x, y) \<leftarrow> ps. x * y) pss"
    and fits: "\<forall>ps \<in> set pss. \<forall>(x, y) \<in> set ps. i32 x = x \<and> i32 y = y"
  shows "map (\<lambda>ps. i64 (\<Sum>(x, y) \<leftarrow> ps. i64 (x * y))) pss = map (fe_column f f) [0..<10]"
proof (rule nth_equalityI)
  have l: "length pss = 10" using arg_cong [OF cols, of length] by simp
  then show "length (map (\<lambda>ps. i64 (\<Sum>(x, y) \<leftarrow> ps. i64 (x * y))) pss) = length (map (fe_column f f) [0..<10])" by simp
  fix k assume "k < length (map (\<lambda>ps. i64 (\<Sum>(x, y) \<leftarrow> ps. i64 (x * y))) pss)"
  then have k: "k < 10" using l by simp
  have "i64 (x * y) = x * y" if "(x, y) \<in> set (pss ! k)" for x y
  proof -
    have "i32 x = x" "i32 y = y" using fits that k l by (auto dest: nth_mem)
    then have "\<bar>x\<bar> \<le> 2147483648" "\<bar>y\<bar> \<le> 2147483648" by (metis i32_range)+
    then show ?thesis using abs_prod_bound [of x 2147483648 y 2147483648] by (intro i64_abs) simp
  qed
  then have "(\<Sum>(x, y) \<leftarrow> pss ! k. i64 (x * y)) = (\<Sum>(x, y) \<leftarrow> pss ! k. x * y)"
    by (intro arg_cong [where f = sum_list] map_cong refl) auto
  also have "\<dots> = fe_column f f k" using arg_cong [OF cols, of "\<lambda>xs. xs ! k"] k l by simp
  finally show "map (\<lambda>ps. i64 (\<Sum>(x, y) \<leftarrow> ps. i64 (x * y))) pss ! k = map (fe_column f f) [0..<10] ! k"
    using k l fe_column_bound [OF f f k] by (simp add: i64_abs)
qed

lemma i32_multiple: "\<bar>x\<bar> \<le> a \<Longrightarrow> 0 \<le> c \<Longrightarrow> c * a \<le> 2147483647 \<Longrightarrow> i32 (c * x) = c * x"
  using mult_left_mono [of "\<bar>x\<bar>" a c] by (intro i32_abs) (simp add: abs_mult)

lemma fe_sq_columns_exact:
  assumes "fe_bounded fe_mul_bound f"
  shows "fe_sq_columns f = map (fe_column f f) [0..<10]"
proof -
  obtain f0 f1 f2 f3 f4 f5 f6 f7 f8 f9 where f: "f = [f0, f1, f2, f3, f4, f5, f6, f7, f8, f9]"
    using fe_bounded_length [OF assms] by (auto simp: length_Suc_conv numeral_eq_Suc)
  have nths: "f ! 0 = f0" "f ! 1 = f1" "f ! 2 = f2" "f ! 3 = f3" "f ! 4 = f4" "f ! 5 = f5" "f ! 6 = f6" "f ! 7 = f7"
    "f ! 8 = f8" "f ! 9 = f9" by (simp_all add: f)
  note m = i32_multiple [OF fe_boundedD [OF assms]]
  have id: "i32 (f ! i) = f ! i" if "i < 10" for i using m [OF that, of 1] by (simp split: if_splits)
  have fits: "i32 (2 * f0) = 2 * f0" "i32 (2 * f1) = 2 * f1" "i32 (2 * f2) = 2 * f2" "i32 (2 * f3) = 2 * f3"
    "i32 (2 * f4) = 2 * f4" "i32 (2 * f5) = 2 * f5" "i32 (2 * f6) = 2 * f6" "i32 (2 * f7) = 2 * f7"
    "i32 (38 * f5) = 38 * f5" "i32 (19 * f6) = 19 * f6" "i32 (38 * f7) = 38 * f7" "i32 (19 * f8) = 19 * f8"
    "i32 (38 * f9) = 38 * f9"
    using m [of 0 2] m [of 1 2] m [of 2 2] m [of 3 2] m [of 4 2] m [of 5 2] m [of 6 2] m [of 7 2]
      m [of 5 38] m [of 6 19] m [of 7 38] m [of 8 19] m [of 9 38] unfolding nths by simp_all
  have ids: "i32 f0 = f0" "i32 f1 = f1" "i32 f2 = f2" "i32 f3 = f3" "i32 f4 = f4" "i32 f5 = f5" "i32 f6 = f6"
    "i32 f7 = f7" "i32 f8 = f8" "i32 f9 = f9"
    using id [of 0] id [of 1] id [of 2] id [of 3] id [of 4] id [of 5] id [of 6] id [of 7] id [of 8] id [of 9]
    unfolding nths by simp_all
  show ?thesis
    unfolding fe_sq_columns_def Let_def nths fits
    by (rule columns_i64 [OF assms fe_square_columns [OF f]]) (simp only: list.set ball_simps prod.case fits ids simp_thms)
qed

lemma fe_sq_correct:
  assumes "fe_bounded fe_mul_bound f"
  shows "fe_bounded fe_out_bound (fe_sq f)" "fe_num (fe_sq f) = (fe_num f * fe_num f) mod fe_p"
proof -
  have "fe_sq f = fe_mul f f"
    unfolding fe_sq_def fe_mul_def fe_sq_columns_exact [OF assms] fe_mul_columns_exact [OF assms assms] ..
  then show "fe_bounded fe_out_bound (fe_sq f)" "fe_num (fe_sq f) = (fe_num f * fe_num f) mod fe_p"
    using fe_mul_correct [OF assms assms] by simp_all
qed

lemma fe_sq2_correct:
  assumes "fe_bounded fe_mul_bound f"
  shows "fe_bounded fe_out_bound (fe_sq2 f)" "fe_num (fe_sq2 f) = (2 * (fe_num f * fe_num f)) mod fe_p"
proof -
  define h where "h = map (\<lambda>k. 2 * fe_column f f k) [0..<10]"
  have b: "\<bar>2 * fe_column f f k\<bar> \<le> 3458764513820540928" if "k < 10" for k
    using fe_column_bound [OF assms assms that] by (simp add: abs_mult)
  have "i64 (fe_column f f k + fe_column f f k) = 2 * fe_column f f k" if "k < 10" for k
    using b [OF that] by (subst i64_abs) simp_all
  then have eq: "map (\<lambda>h. i64 (h + h)) (fe_sq_columns f) = h"
    unfolding fe_sq_columns_exact [OF assms] h_def by simp
  have r: "fe_bounded fe_out_bound (fe_reduce h)" "fe_num (fe_reduce h) = limb_val fe_w h mod fe_p"
    using b by (intro fe_reduce_correct; simp add: h_def)+
  have "limb_val fe_w h = 2 * limb_val fe_w (map (fe_column f f) [0..<10])"
    unfolding limb_val_def h_def by (simp add: sum_distrib_left mult.assoc)
  then have "limb_val fe_w h mod fe_p = 2 * (limb_val fe_w f * limb_val fe_w f) mod fe_p"
    using fe_columns_val [of f f] fe_bounded_length [OF assms] by (metis mod_mult_right_eq)
  also have "\<dots> = 2 * (fe_num f * fe_num f) mod fe_p" unfolding fe_num_def by (metis mod_mult_eq mod_mult_right_eq)
  finally show "fe_bounded fe_out_bound (fe_sq2 f)" "fe_num (fe_sq2 f) = (2 * (fe_num f * fe_num f)) mod fe_p"
    using r unfolding fe_sq2_def eq by simp_all
qed

subsection \<open>Powers\<close>

text \<open>The element \<open>t\<close> is the power \<open>e\<close> of the residue \<open>x\<close>, small enough to be multiplied.\<close>

definition fe_power :: "int \<Rightarrow> nat \<Rightarrow> fe \<Rightarrow> bool" where
  "fe_power x e t \<longleftrightarrow> fe_bounded fe_mul_bound t \<and> fe_num t = x ^ e mod fe_p"

lemma out_mul_bound: "fe_bounded fe_out_bound f \<Longrightarrow> fe_bounded fe_mul_bound f"
  by (erule fe_bounded_mono) simp

lemma fe_power_1: "fe_bounded fe_mul_bound z \<Longrightarrow> fe_power (fe_num z) 1 z"
  by (simp add: fe_power_def fe_num_def)

lemma fe_power_mul: "fe_power x a s \<Longrightarrow> fe_power x b t \<Longrightarrow> fe_power x (a + b) (fe_mul s t)"
  unfolding fe_power_def by (auto simp: fe_mul_correct out_mul_bound power_add mod_simps)

lemma fe_power_sq: "fe_power x a t \<Longrightarrow> fe_power x (2 * a) (fe_sq t)"
  unfolding fe_power_def by (auto simp: fe_sq_correct out_mul_bound mod_simps mult_2 power_add)

lemma fe_power_sqn: "fe_power x a t \<Longrightarrow> fe_power x (2 ^ n * a) (fe_sqn n t)"
proof (induction n)
  case (Suc n)
  then show ?case using fe_power_sq [of x "2 ^ n * a" "fe_sqn n t"] by (simp add: fe_sqn_def mult.assoc)
qed (simp add: fe_sqn_def)

lemma fe_power_cong: "fe_power x a t \<Longrightarrow> a = b \<Longrightarrow> fe_power x b t"
  by simp

lemma fe_invert_correct:
  assumes "fe_bounded fe_mul_bound z"
  shows "fe_bounded fe_out_bound (fe_invert z)" "fe_num (fe_invert z) = fe_num z ^ nat (fe_p - 2) mod fe_p"
proof -
  let ?P = "fe_power (fe_num z)"
  define t0 where "t0 = fe_sq z"
  define t1 where "t1 = fe_mul z (fe_sq (fe_sq t0))"
  define t0' where "t0' = fe_mul t0 t1"
  define t1a where "t1a = fe_mul t1 (fe_sq t0')"
  define t1b where "t1b = fe_mul (fe_sqn 4 (fe_sq t1a)) t1a"
  define t2a where "t2a = fe_mul (fe_sqn 9 (fe_sq t1b)) t1b"
  define t2b where "t2b = fe_mul (fe_sqn 19 (fe_sq t2a)) t2a"
  define t1c where "t1c = fe_mul (fe_sqn 9 (fe_sq t2b)) t1b"
  define t2c where "t2c = fe_mul (fe_sqn 49 (fe_sq t1c)) t1c"
  define t2d where "t2d = fe_mul (fe_sqn 99 (fe_sq t2c)) t2c"
  define t1d where "t1d = fe_mul (fe_sqn 49 (fe_sq t2d)) t1c"
  define t1e where "t1e = fe_sqn 4 (fe_sq t1d)"
  note pow = fe_power_mul fe_power_sq fe_power_sqn
  have z: "?P 1 z" by (rule fe_power_1 [OF assms])
  have p0: "?P 2 t0" unfolding t0_def using fe_power_sq [OF z] by simp
  have p1: "?P 9 t1" unfolding t1_def by (rule fe_power_cong, (rule pow z p0)+) simp
  have p0': "?P 11 t0'" unfolding t0'_def by (rule fe_power_cong, (rule pow p1 p0)+) simp
  have p1a: "?P (2 ^ 5 - 1) t1a" unfolding t1a_def by (rule fe_power_cong, (rule pow p1 p0')+) simp
  have p1b: "?P (2 ^ 10 - 1) t1b" unfolding t1b_def by (rule fe_power_cong, (rule pow p1a)+) simp
  have p2a: "?P (2 ^ 20 - 1) t2a" unfolding t2a_def by (rule fe_power_cong, (rule pow p1b)+) simp
  have p2b: "?P (2 ^ 40 - 1) t2b" unfolding t2b_def by (rule fe_power_cong, (rule pow p2a)+) simp
  have p1c: "?P (2 ^ 50 - 1) t1c" unfolding t1c_def by (rule fe_power_cong, (rule pow p2b p1b)+) simp
  have p2c: "?P (2 ^ 100 - 1) t2c" unfolding t2c_def by (rule fe_power_cong, (rule pow p1c)+) simp
  have p2d: "?P (2 ^ 200 - 1) t2d" unfolding t2d_def by (rule fe_power_cong, (rule pow p2c)+) simp
  have p1d: "?P (2 ^ 250 - 1) t1d" unfolding t1d_def by (rule fe_power_cong, (rule pow p2d p1c)+) simp
  have p1e: "?P (2 ^ 255 - 2 ^ 5) t1e" unfolding t1e_def by (rule fe_power_cong, (rule pow p1d)+) simp
  have eq: "fe_invert z = fe_mul t1e t0'"
    unfolding fe_invert_def Let_def t0_def t1_def t0'_def t1a_def t1b_def t2a_def t2b_def t1c_def t2c_def t2d_def t1d_def
      t1e_def ..
  show "fe_bounded fe_out_bound (fe_invert z)"
    unfolding eq using p1e p0' by (intro fe_mul_correct) (simp_all add: fe_power_def)
  have "?P (nat (fe_p - 2)) (fe_mul t1e t0')" by (rule fe_power_cong, (rule pow p1e p0')+) (simp add: fe_p_def)
  then show "fe_num (fe_invert z) = fe_num z ^ nat (fe_p - 2) mod fe_p" unfolding eq by (simp add: fe_power_def)
qed

lemma fe_divpowm1_correct:
  assumes u: "fe_bounded fe_mul_bound u" and v: "fe_bounded fe_mul_bound v"
  shows "fe_bounded fe_out_bound (fe_divpowm1 u v)"
    "fe_num (fe_divpowm1 u v) = (fe_num u * fe_num v ^ 3 * (fe_num u * fe_num v ^ 7) ^ nat ((fe_p - 5) div 8)) mod fe_p"
proof -
  define v3 where "v3 = fe_mul (fe_sq v) v"
  define w where "w = fe_mul (fe_mul (fe_sq v3) v) u"
  let ?P = "fe_power (fe_num w)" and ?V = "fe_power (fe_num v)"
  define t0 where "t0 = fe_sq w"
  define t1 where "t1 = fe_mul w (fe_sq (fe_sq t0))"
  define t0a where "t0a = fe_mul t1 (fe_sq (fe_mul t0 t1))"
  define t0b where "t0b = fe_mul (fe_sqn 4 (fe_sq t0a)) t0a"
  define t1b where "t1b = fe_mul (fe_sqn 9 (fe_sq t0b)) t0b"
  define t1c where "t1c = fe_mul (fe_sqn 19 (fe_sq t1b)) t1b"
  define t0c where "t0c = fe_mul (fe_sqn 10 t1c) t0b"
  define t1d where "t1d = fe_mul (fe_sqn 49 (fe_sq t0c)) t0c"
  define t1e where "t1e = fe_mul (fe_sqn 99 (fe_sq t1d)) t1d"
  define t0d where "t0d = fe_mul (fe_sqn 50 t1e) t0c"
  define t0e where "t0e = fe_mul (fe_sq (fe_sq t0d)) w"
  note pow = fe_power_mul fe_power_sq fe_power_sqn
  have pv: "?V 1 v" by (rule fe_power_1 [OF v])
  have v3: "?V 3 v3" unfolding v3_def by (rule fe_power_cong, (rule pow pv)+) simp
  have v7: "?V 7 (fe_mul (fe_sq v3) v)" by (rule fe_power_cong, (rule pow v3 pv)+) simp
  have w: "fe_bounded fe_mul_bound w" "fe_num w = fe_num u * fe_num v ^ 7 mod fe_p"
    unfolding w_def using v7 u by (auto simp: fe_power_def fe_mul_correct out_mul_bound mod_simps mult.commute)
  have pw: "?P 1 w" by (rule fe_power_1 [OF w(1)])
  have p0: "?P 2 t0" unfolding t0_def using fe_power_sq [OF pw] by simp
  have p1: "?P 9 t1" unfolding t1_def by (rule fe_power_cong, (rule pow pw p0)+) simp
  have p0a: "?P (2 ^ 5 - 1) t0a" unfolding t0a_def by (rule fe_power_cong, (rule pow p1 p0)+) simp
  have p0b: "?P (2 ^ 10 - 1) t0b" unfolding t0b_def by (rule fe_power_cong, (rule pow p0a)+) simp
  have p1b: "?P (2 ^ 20 - 1) t1b" unfolding t1b_def by (rule fe_power_cong, (rule pow p0b)+) simp
  have p1c: "?P (2 ^ 40 - 1) t1c" unfolding t1c_def by (rule fe_power_cong, (rule pow p1b)+) simp
  have p0c: "?P (2 ^ 50 - 1) t0c" unfolding t0c_def by (rule fe_power_cong, (rule pow p1c p0b)+) simp
  have p1d: "?P (2 ^ 100 - 1) t1d" unfolding t1d_def by (rule fe_power_cong, (rule pow p0c)+) simp
  have p1e: "?P (2 ^ 200 - 1) t1e" unfolding t1e_def by (rule fe_power_cong, (rule pow p1d)+) simp
  have p0d: "?P (2 ^ 250 - 1) t0d" unfolding t0d_def by (rule fe_power_cong, (rule pow p1e p0c)+) simp
  have p0e: "?P (nat ((fe_p - 5) div 8)) t0e"
    unfolding t0e_def by (rule fe_power_cong, (rule pow p0d pw)+) (simp add: fe_p_def)
  have eq: "fe_divpowm1 u v = fe_mul (fe_mul t0e v3) u"
    unfolding fe_divpowm1_def Let_def v3_def w_def t0_def t1_def t0a_def t0b_def t1b_def t1c_def t0c_def t1d_def t1e_def
      t0d_def t0e_def ..
  have b: "fe_bounded fe_mul_bound t0e" "fe_bounded fe_mul_bound v3" using p0e v3 by (simp_all add: fe_power_def)
  show "fe_bounded fe_out_bound (fe_divpowm1 u v)"
    unfolding eq using b u by (simp add: fe_mul_correct out_mul_bound)
  have "fe_num t0e = (fe_num u * fe_num v ^ 7) ^ nat ((fe_p - 5) div 8) mod fe_p"
    using p0e unfolding fe_power_def w(2) by (simp only: power_mod)
  moreover have "fe_num v3 = fe_num v ^ 3 mod fe_p" using v3 by (simp add: fe_power_def)
  ultimately show "fe_num (fe_divpowm1 u v) =
      (fe_num u * fe_num v ^ 3 * (fe_num u * fe_num v ^ 7) ^ nat ((fe_p - 5) div 8)) mod fe_p"
    unfolding eq using fe_mul_correct [OF b] u
    by (simp add: fe_mul_correct out_mul_bound mod_simps ac_simps)
qed

subsection \<open>The canonical form\<close>

abbreviation fe_bytes_bound :: int where "fe_bytes_bound \<equiv> 36909875"

abbreviation fe_bits :: "nat \<Rightarrow> nat" where "fe_bits i \<equiv> if even i then 26 else 25"

lemma fe_w_Suc: "fe_w (Suc i) = fe_w i + fe_bits i"
  by (auto simp: fe_w_def elim: evenE oddE)

lemma fe_w_mono: "mono fe_w"
  by (rule mono_iff_le_Suc [THEN iffD2]) (simp add: fe_w_Suc)

lemma fe_w_values: "fe_w 0 = 0" "fe_w 9 = 230" "fe_w 10 = 255"
  by (simp_all add: fe_w_def)

lemma div_small:
  assumes "\<bar>x\<bar> \<le> 88080384" shows "\<bar>x div 2 ^ fe_bits i\<bar> \<le> (3 :: int)"
proof -
  define m :: int where "m = 2 ^ fe_bits i"
  have m: "33554432 \<le> m" unfolding m_def by simp
  define k where "k = x div m"
  have "x = k * m + x mod m" by (simp add: k_def)
  moreover have "0 \<le> x mod m" "x mod m < m" using m by simp_all
  ultimately have u: "k * m \<le> 88080384" and l: "- 88080384 < k * m + m" using assms by linarith+
  have "k \<le> 3"
  proof (rule ccontr)
    assume "\<not> k \<le> 3"
    then have "4 * m \<le> k * m" using m by (intro mult_right_mono) simp_all
    then show False using u m by linarith
  qed
  moreover have "- 3 \<le> k"
  proof (rule ccontr)
    assume "\<not> - 3 \<le> k"
    then have "k * m \<le> - 4 * m" using m by (intro mult_right_mono) simp_all
    then show False using l m by linarith
  qed
  ultimately show ?thesis unfolding m_def [symmetric] k_def [symmetric] by simp
qed

lemma fe_quotient_chain:
  assumes h: "fe_bounded fe_bytes_bound h" and q0: "\<bar>q0\<bar> \<le> 22" and "n \<le> 10"
  defines "q \<equiv> fold (\<lambda>i q. drop_bit (fe_bits i) (i32 (h ! i + q))) [0..<n] q0"
  shows "q = ((\<Sum>i<n. h ! i * 2 ^ fe_w i) + q0) div 2 ^ fe_w n \<and> \<bar>q\<bar> \<le> 22"
  using assms(3) unfolding q_def
proof (induction n)
  case 0
  then show ?case using q0 by (simp add: fe_w_values)
next
  case (Suc n)
  define q' where "q' = fold (\<lambda>i q. drop_bit (fe_bits i) (i32 (h ! i + q))) [0..<n] q0"
  define S where "S = (\<Sum>i<n. h ! i * 2 ^ fe_w i) + q0"
  have IH: "q' = S div 2 ^ fe_w n" "\<bar>q'\<bar> \<le> 22" 
    unfolding q'_def S_def using Suc.IH [OF Suc_leD [OF Suc.prems]] by (rule conjunct1, rule conjunct2)
  have b: "\<bar>h ! n + q'\<bar> \<le> 88080384"
    using fe_boundedD [OF h, of n] Suc.prems IH(2) by (auto split: if_splits)
  then have "i32 (h ! n + q') = h ! n + q'" by (intro i32_abs) simp
  then have e: "drop_bit (fe_bits n) (i32 (h ! n + q')) = (h ! n + q') div 2 ^ fe_bits n" by (simp only: drop_bit_eq_div)
  have "h ! n + q' = (S + h ! n * 2 ^ fe_w n) div 2 ^ fe_w n" unfolding IH(1) by simp
  then have "(h ! n + q') div 2 ^ fe_bits n = (S + h ! n * 2 ^ fe_w n) div 2 ^ fe_w (Suc n)"
    unfolding fe_w_Suc power_add by (simp only: zdiv_zmult2_eq zero_le_power zero_le_numeral)
  moreover have "S + h ! n * 2 ^ fe_w n = (\<Sum>i<Suc n. h ! i * 2 ^ fe_w i) + q0" by (simp add: S_def)
  moreover have "fold (\<lambda>i q. drop_bit (fe_bits i) (i32 (h ! i + q))) [0..<Suc n] q0 = drop_bit (fe_bits n) (i32 (h ! n + q'))"
    by (simp add: q'_def)
  ultimately show ?case using e div_small [OF b, of n] by (simp only:) linarith
qed

lemma sum_low_bound:
  assumes h: "fe_bounded fe_bytes_bound h"
  shows "\<bar>\<Sum>i<9. h ! i * 2 ^ fe_w i\<bar> \<le> 2 ^ 231"
proof -
  have "\<bar>\<Sum>i<9. h ! i * 2 ^ fe_w i\<bar> \<le> (\<Sum>i<9. 2 * fe_bytes_bound * 2 ^ fe_w i)"
  proof (rule order_trans [OF sum_abs], rule sum_mono)
    fix i :: nat assume "i \<in> {..<9}"
    then have "\<bar>h ! i\<bar> \<le> 2 * fe_bytes_bound" using fe_boundedD [OF h, of i] by (auto split: if_splits)
    then show "\<bar>h ! i * 2 ^ fe_w i\<bar> \<le> 2 * fe_bytes_bound * 2 ^ fe_w i" by (simp add: abs_mult)
  qed
  also have "{..<9} = {0, 1, 2, 3, 4, 5, 6, 7, 8 :: nat}" by auto
  then have "(\<Sum>i<9. 2 * fe_bytes_bound * 2 ^ fe_w i) \<le> (2 :: int) ^ 231" by (simp add: fe_w_def)
  finally show ?thesis .
qed

text \<open>The argument of the comment before \<open>fe_tobytes\<close>, in integers.\<close>

lemma quotient_exact:
  fixes H h9 low :: int
  assumes H: "H = low + h9 * 2 ^ 230" and low: "\<bar>low\<bar> \<le> 2 ^ 231" and h9: "\<bar>h9\<bar> \<le> 36909875"
  shows "(H + (19 * h9 + 2 ^ 24) div 2 ^ 25) div 2 ^ 255 = H div fe_p" "\<bar>H div fe_p\<bar> \<le> 2"
proof -
  define q r where "q = H div fe_p" and "r = H mod fe_p"
  have p: "fe_p = 57896044618658097711785492504343953926634992332820282019728792003956564819949" by (simp add: fe_p_def)
  have qr: "H = fe_p * q + r" "0 \<le> r" "r < fe_p" unfolding q_def r_def p by simp_all
  have B: "\<bar>H\<bar> \<le> 36909877 * 2 ^ 230" using H low h9 by simp
  have "q \<le> 2" using B qr unfolding p by simp
  moreover have "- 2 \<le> q" using B qr unfolding p by simp
  ultimately show q: "\<bar>H div fe_p\<bar> \<le> 2" unfolding q_def by simp
  define z where "z = (19 * h9 + 2 ^ 24) div 2 ^ 25"
  define y where "y = (19 * h9 + 2 ^ 24) mod 2 ^ 25"
  have z: "19 * h9 + 2 ^ 24 = z * 2 ^ 25 + y" "0 \<le> y" "y < 2 ^ 25" unfolding z_def y_def by (simp_all only: div_mult_mod_eq pos_mod_sign pos_mod_bound zero_less_power zero_less_numeral)
  have "19 * q \<le> z" using H low qr q z unfolding p q_def [symmetric] by simp
  moreover have "z \<le> 19 * q + 19" using H low qr q z unfolding p q_def [symmetric] by simp
  ultimately have "0 \<le> r + (z - 19 * q)" "r + (z - 19 * q) < 2 ^ 255" using qr(2,3) unfolding p by simp_all
  moreover have "H + z = r + (z - 19 * q) + q * 2 ^ 255" using qr(1) unfolding p by simp
  ultimately show "(H + (19 * h9 + 2 ^ 24) div 2 ^ 25) div 2 ^ 255 = H div fe_p"
    unfolding z_def [symmetric] q_def [symmetric] by simp
qed

definition iv_small :: "intervals \<Rightarrow> bool" where
  "iv_small iv = list_all (\<lambda>(l, u). - 1073741824 \<le> l \<and> u \<le> 1073741823) iv"

definition iv_fe_floor :: "nat \<Rightarrow> intervals \<Rightarrow> intervals option" where
  "iv_fe_floor i iv = do {
     jv \<leftarrow> iv_carry (fe_bits i) 0 1 i (Suc i) iv;
     if i < 9 \<and> iv_small iv \<and> iv_small jv then Some jv else None }"

lemma iv_small_nth: "iv_small iv \<Longrightarrow> within iv s \<Longrightarrow> i < length s \<Longrightarrow> - 1073741824 \<le> s ! i \<and> s ! i \<le> 1073741823"
  unfolding iv_small_def list_all_length within_def by (fastforce simp: case_prod_beta)

lemma fe_floor_safe: "safe_step fe_w 0 (fe_floor i) (iv_fe_floor i)"
  unfolding safe_step_def
proof (intro allI impI)
  fix iv iv' s assume s: "within iv s" and r: "iv_fe_floor i iv = Some iv'"
  have c: "iv_carry (fe_bits i) 0 1 i (Suc i) iv = Some iv'" and i: "i < 9" and sm: "iv_small iv" "iv_small iv'"
    using r by (auto simp: iv_fe_floor_def split: Option.bind_splits if_splits)
  have pars: "carry_params (fe_bits i) 0 1" by (simp add: carry_params_def)
  note run = limb_carry_sound [OF pars s c]
  define k where "k = s ! i div 2 ^ fe_bits i"
  define t where "t = limb_carry (fe_bits i) 0 1 i (Suc i) s"
  have t: "within iv' t" "limb_val fe_w t = limb_val fe_w s" "t = s[Suc i := s ! Suc i + k, i := s ! i - k * 2 ^ fe_bits i]"
    unfolding t_def k_def using run(1) run(2) [of fe_w] run(3) by (simp_all add: fe_w_Suc)
  have x: "- 1073741824 \<le> s ! i" "s ! i \<le> 1073741823" using iv_small_nth [OF sm(1) s run(4)] by simp_all
  have y: "- 1073741824 \<le> s ! Suc i + k" "s ! Suc i + k \<le> 1073741823"
    using iv_small_nth [OF sm(2) t(1), of "Suc i"] run(4-6) by (simp_all add: t(3))
  have m: "0 \<le> s ! i mod 2 ^ fe_bits i" "s ! i mod 2 ^ fe_bits i < 2 ^ fe_bits i" "(2 :: int) ^ fe_bits i \<le> 67108864" by simp_all
  define d where "d = s ! i mod 2 ^ fe_bits i"
  have d: "k * 2 ^ fe_bits i = s ! i - d" by (simp add: k_def d_def minus_mod_eq_div_mult)
  have db: "0 \<le> d" "d < 67108864" using m unfolding d_def by linarith+
  have "i32 (push_bit (fe_bits i) k) = s ! i - d" "i32 d = d"
    using x db by (subst i32_id; simp add: push_bit_eq_mult d)+
  then have "fe_floor i s = t"
    unfolding fe_floor_def Let_def t(3) using i y run(4-6) d
    by (simp add: drop_bit_eq_div k_def [symmetric] i32_id)
  then show "within iv' (fe_floor i s) \<and> limb_val fe_w (fe_floor i s) mod 0 = limb_val fe_w s mod 0"
    using t by simp
qed

lemma iv_fe_canonical:
  "\<exists>iv. opt_fold iv_fe_floor [0..<9] (iv_sym 73819788 36909875) = Some iv \<and>
    iv_sub iv (map (\<lambda>i. (0, if even i then 67108863 else 33554431)) [0..<9] @ [(- 67108864, 67108864)])"
  by (intro exI conjI) (code_simp, code_simp)

lemma fe_quotient_correct:
  assumes h: "fe_bounded fe_bytes_bound h"
  shows "fe_quotient h = limb_val fe_w h div fe_p" "\<bar>fe_quotient h\<bar> \<le> 2"
proof -
  define q0 where "q0 = (19 * h ! 9 + 2 ^ 24) div 2 ^ 25"
  have h9: "\<bar>h ! 9\<bar> \<le> 36909875" using fe_boundedD [OF h, of 9] by simp
  then have "i32 (19 * h ! 9) = 19 * h ! 9" "i32 (19 * h ! 9 + 2 ^ 24) = 19 * h ! 9 + 2 ^ 24"
    by (intro i32_id; simp add: abs_le_iff)+
  then have e: "fe_quotient h = fold (\<lambda>i q. drop_bit (fe_bits i) (i32 (h ! i + q))) [0..<10] q0"
    unfolding fe_quotient_def q0_def by (simp only: drop_bit_eq_div)
  have "19 * h ! 9 + 2 ^ 24 \<le> 718064841" "- 684510409 \<le> 19 * h ! 9 + 2 ^ 24" using h9 by simp_all
  then have "q0 \<le> 718064841 div 2 ^ 25" "- 684510409 div 2 ^ 25 \<le> q0" unfolding q0_def by (intro zdiv_mono1; simp)+
  then have q0: "\<bar>q0\<bar> \<le> 22" by simp
  have V: "limb_val fe_w h = (\<Sum>i<9. h ! i * 2 ^ fe_w i) + h ! 9 * 2 ^ 230"
    unfolding limb_val_10 [OF fe_bounded_length [OF h]] using sum.lessThan_Suc [of "\<lambda>i. h ! i * 2 ^ fe_w i" 9]
    by (simp add: fe_w_values)
  note q = quotient_exact [OF V sum_low_bound [OF h] h9]
  have "fe_quotient h = (limb_val fe_w h + q0) div 2 ^ 255"
    unfolding e limb_val_10 [OF fe_bounded_length [OF h]] fe_w_values(3) [symmetric]
    using fe_quotient_chain [OF h q0, of 10] by simp
  then show "fe_quotient h = limb_val fe_w h div fe_p" "\<bar>fe_quotient h\<bar> \<le> 2" using q by (simp_all add: q0_def)
qed

lemma fe_canonical_correct:
  assumes h: "fe_bounded fe_bytes_bound h"
  shows "digits fe_w 9 (fe_canonical h)" "limb_val fe_w (fe_canonical h) = fe_num h"
proof -
  define q where "q = fe_quotient h"
  define g where "g = h[0 := h ! 0 + 19 * q]"
  note quot = fe_quotient_correct [OF h, folded q_def]
  have len: "length h = 10" by (rule fe_bounded_length [OF h])
  have "i32 (19 * q) = 19 * q" using quot(2) by (intro i32_abs) (simp add: abs_mult)
  moreover have g0: "\<bar>h ! 0 + 19 * q\<bar> \<le> 73819788" using fe_boundedD [OF h, of 0] quot(2) by simp
  ultimately have e: "fe_canonical h = fold fe_floor [0..<10] g"
    unfolding fe_canonical_def Let_def q_def [symmetric] g_def by (simp add: i32_abs)
  have "fst (iv_sym 73819788 36909875 ! i) \<le> g ! i \<and> g ! i \<le> snd (iv_sym 73819788 36909875 ! i)" if "i < 10" for i
    using fe_boundedD [OF h that] g0 len that iv_sym_nth [of 73819788 36909875]
    by (cases "i = 0") (auto simp: g_def abs_le_iff split: if_splits)
  then have g: "within (iv_sym 73819788 36909875) g"
    using iv_sym_nth [of 73819788 36909875] len by (simp add: within_def g_def)
  obtain iv where iv: "opt_fold iv_fe_floor [0..<9] (iv_sym 73819788 36909875) = Some iv"
    "iv_sub iv (map (\<lambda>i. (0, if even i then 67108863 else 33554431)) [0..<9] @ [(- 67108864, 67108864)])"
    using iv_fe_canonical by blast
  define t where "t = fold fe_floor [0..<9] g"
  have t: "within iv t" "limb_val fe_w t = limb_val fe_w g"
    using safe_stepD [OF safe_step_fold [OF fe_floor_safe] g iv(1)] by (simp_all add: t_def)
  note tw = iv_sub_within [OF iv(2) t(1)]
  have tl: "length t = 10" using tw by (simp add: within_def)
  have td: "\<forall>i < 9. 0 \<le> t ! i \<and> t ! i < 2 ^ (fe_w (Suc i) - fe_w i)"
  proof (intro allI impI)
    fix i :: nat assume i: "i < 9"
    have "0 \<le> t ! i" "t ! i \<le> (if even i then 67108863 else 33554431)"
      using within_nth [OF tw, of i] i by (simp_all add: nth_append)
    then show "0 \<le> t ! i \<and> t ! i < 2 ^ (fe_w (Suc i) - fe_w i)" unfolding fe_w_Suc by (simp split: if_splits)
  qed
  have t9: "- 67108864 \<le> t ! 9" "t ! 9 \<le> 67108864" using within_nth [OF tw, of 9] by (simp_all add: nth_append)
  define r where "r = t ! 9 mod 2 ^ 25"
  have r: "0 \<le> r" "r < 2 ^ 25" unfolding r_def by simp_all
  have r9: "t ! 9 div 2 ^ 25 * 2 ^ 25 = t ! 9 - r" unfolding r_def by (simp add: minus_mod_eq_div_mult)
  have "i32 (push_bit 25 (t ! 9 div 2 ^ 25)) = t ! 9 - r"
    unfolding push_bit_eq_mult r9 using r t9 by (intro i32_id) simp_all
  moreover have "i32 r = r" using r by (intro i32_id) simp_all
  ultimately have f9: "fe_floor 9 t = t[9 := r]" unfolding fe_floor_def Let_def by (simp add: drop_bit_eq_div)
  have "[0..<10] = [0..<9] @ [9 :: nat]" by (simp add: upt_rec)
  then have c: "fe_canonical h = t[9 := r]" using e f9 by (simp only: t_def fold_append comp_apply fold_simps)
  show "digits fe_w 9 (fe_canonical h)" unfolding c digits_def using td tl r by (simp add: nth_list_update)
  define L where "L = (\<Sum>i<9. t ! i * 2 ^ fe_w i)"
  have L: "0 \<le> L" "L < 2 ^ 230" using digits_low_sum [OF fe_w_mono fe_w_values(1) td] by (simp_all add: L_def fe_w_values)
  have vt: "limb_val fe_w t = L + t ! 9 * 2 ^ 230"
    unfolding limb_val_10 [OF tl] L_def using sum.lessThan_Suc [of "\<lambda>i. t ! i * 2 ^ fe_w i" 9] by (simp add: fe_w_values)
  have vc: "limb_val fe_w (t[9 := r]) = L + r * 2 ^ 230" using vt tl by (simp add: limb_val_update fe_w_values algebra_simps)
  have "limb_val fe_w g = limb_val fe_w h + 19 * q" unfolding g_def using len by (simp add: limb_val_update fe_w_values)
  then have "limb_val fe_w t = fe_num h + q * 2 ^ 255"
    using t(2) quot(1) mult_div_mod_eq [of fe_p "limb_val fe_w h"] by (simp add: fe_num_def fe_p_def)
  then have "L + r * 2 ^ 230 = fe_num h + (q - t ! 9 div 2 ^ 25) * 2 ^ 255" using vt r9 by (simp add: algebra_simps)
  moreover have "0 \<le> fe_num h" "fe_num h < 2 ^ 255" unfolding fe_num_def fe_p_def by simp_all
  ultimately have "L + r * 2 ^ 230 = fe_num h" using L r by simp
  then show "limb_val fe_w (fe_canonical h) = fe_num h" unfolding c vc .
qed

lemma fe_store_eq:
  assumes "digits fe_w 9 s"
  shows "fe_store s = map (\<lambda>k. of_int (drop_bit (8 * k) (limb_val fe_w s))) [0..<32]"
proof -
  note single = byte_single [OF fe_w_mono fe_w_values(1) assms] and pair = byte_pair [OF fe_w_mono fe_w_values(1) assms]
  show ?thesis
    unfolding fe_store_def Let_def upt_32 list.map list.inject
    by (intro conjI refl; (rule single | rule pair); simp add: fe_w_def)
qed

lemma fe_num_range: "0 \<le> fe_num f" "fe_num f < fe_p"
  unfolding fe_num_def fe_p_def by simp_all

lemma fe_tobytes_correct:
  assumes "fe_bounded fe_bytes_bound h"
  shows "int (le_val (fe_tobytes h)) = fe_num h" "length (fe_tobytes h) = 32"
proof -
  note c = fe_canonical_correct [OF assms]
  have "fe_num h < 2 ^ (8 * 32)" using fe_num_range(2) [of h] by (simp add: fe_p_def)
  then show "int (le_val (fe_tobytes h)) = fe_num h"
    unfolding fe_tobytes_def fe_store_eq [OF c(1)] c(2) using fe_num_range(1) by (intro le_val_of_bits)
  show "length (fe_tobytes h) = 32" unfolding fe_tobytes_def fe_store_eq [OF c(1)] by simp
qed

lemma fe_tobytes_inject:
  assumes "fe_bounded fe_bytes_bound f" "fe_bounded fe_bytes_bound g"
  shows "fe_tobytes f = fe_tobytes g \<longleftrightarrow> fe_num f = fe_num g"
  using fe_tobytes_correct [OF assms(1)] fe_tobytes_correct [OF assms(2)] le_val_inject [of "fe_tobytes f" "fe_tobytes g"]
  by auto

lemma fe_isnonzero_correct:
  assumes "fe_bounded fe_bytes_bound f" shows "fe_isnonzero f = (if fe_num f = 0 then 0 else 1)"
  using sc_isnonzero_correct [of "fe_tobytes f"] fe_tobytes_correct [OF assms]
  unfolding fe_isnonzero_def sc_isnonzero_def Let_def by simp

lemma fe_isnegative_correct:
  assumes "fe_bounded fe_bytes_bound f" shows "fe_isnegative f = fe_num f mod 2"
proof -
  obtain b bs where s: "fe_tobytes f = b # bs" using fe_tobytes_correct(2) [OF assms] by (cases "fe_tobytes f") auto
  have "fe_num f = uint b + 256 * int (le_val bs)" using fe_tobytes_correct(1) [OF assms] s by simp
  moreover have "uint (b AND 1) = uint b mod 2" by (simp add: and_one_eq uint_mod)
  moreover have "(uint b + 256 * x) mod 2 = uint b mod 2" for x :: int using mod_mult_self2 [of "uint b" 2 "128 * x"] by simp
  ultimately show ?thesis unfolding fe_isnegative_def s by simp
qed

subsection \<open>Reading bytes\<close>

lemma le_val_load_3: "3 \<le> length s \<Longrightarrow> int (le_val s) = uint (load_3 s) + 2 ^ 24 * int (le_val (drop 3 s))"
proof -
  assume l: "3 \<le> length s"
  have "uint (load_3 s) = int (le_val (take 3 s))"
    using l load_top [of 3 0 "take 3 s" 0] by (simp add: load_3_le_word)
  moreover have "le_val s = le_val (take 3 s) + 2 ^ 24 * le_val (drop 3 s)"
    using l le_val_append [of "take 3 s" "drop 3 s"] by simp
  ultimately show ?thesis by simp
qed

lemma uint_load_3: "3 \<le> length s \<Longrightarrow> 0 \<le> uint (load_3 s) \<and> uint (load_3 s) < 2 ^ 24"
  using load_top [of 3 0 "take 3 s" 0] le_val_less [of "take 3 s"] by (simp add: load_3_le_word)

lemma sint_push_small:
  fixes x :: u64
  assumes "uint x < 2 ^ 24" "sh \<le> 7" shows "sint (push_bit sh x) = uint x * 2 ^ sh"
proof -
  have p: "(2 :: int) ^ sh \<le> 2 ^ 7" using assms(2) by (intro power_increasing) simp_all
  have r: "0 \<le> uint x * 2 ^ sh" "uint x * 2 ^ sh < 2 ^ 31"
    using mult_less_le_imp_less [OF assms(1) p] by simp_all
  have u: "uint (push_bit sh x) = uint x * 2 ^ sh"
    unfolding unsigned_push_bit_eq unfolding push_bit_eq_mult take_bit_eq_mod using r
    by (intro mod_pos_pos_trivial) simp_all
  have "uint x * 2 ^ sh < 2 ^ (LENGTH(64) - Suc 0)" using r by simp
  moreover have "- (2 ^ (LENGTH(64) - Suc 0)) \<le> uint x * 2 ^ sh" by (rule order_trans [OF _ r(1)]) simp
  ultimately show ?thesis unfolding sint_uint u by (intro signed_take_bit_int_eq_self)
qed

lemma sint_small: "uint (x :: u64) < 2 ^ 32 \<Longrightarrow> sint x = uint x"
proof -
  assume "uint x < 2 ^ 32"
  then have "uint x < 2 ^ (LENGTH(64) - Suc 0)" by simp
  moreover have "- (2 ^ (LENGTH(64) - Suc 0)) \<le> uint x" by (rule order_trans [OF _ uint_ge_0]) simp
  ultimately show ?thesis unfolding sint_uint by (intro signed_take_bit_int_eq_self)
qed

lemma fe_load_parts:
  assumes "length s = 32"
  obtains l0 l1 l2 l3 l4 l5 l6 l7 l8 l9 where
    "fe_load s = [l0, l1 * 2 ^ 6, l2 * 2 ^ 5, l3 * 2 ^ 3, l4 * 2 ^ 2, l5, l6 * 2 ^ 7, l7 * 2 ^ 5, l8 * 2 ^ 4, l9 * 2 ^ 2]"
    "0 \<le> l0 \<and> l0 < 2 ^ 32" "0 \<le> l1 \<and> l1 < 2 ^ 24" "0 \<le> l2 \<and> l2 < 2 ^ 24" "0 \<le> l3 \<and> l3 < 2 ^ 24" "0 \<le> l4 \<and> l4 < 2 ^ 24"
    "0 \<le> l5 \<and> l5 < 2 ^ 32" "0 \<le> l6 \<and> l6 < 2 ^ 24" "0 \<le> l7 \<and> l7 < 2 ^ 24" "0 \<le> l8 \<and> l8 < 2 ^ 24" "0 \<le> l9 \<and> l9 < 2 ^ 23"
    "int (le_val s) mod 2 ^ 255 = l0 + 2 ^ 32 * l1 + 2 ^ 56 * l2 + 2 ^ 80 * l3 + 2 ^ 104 * l4 + 2 ^ 128 * l5 + 2 ^ 160 * l6 +
      2 ^ 184 * l7 + 2 ^ 208 * l8 + 2 ^ 232 * l9"
proof -
  define L where "L k = uint (load_3 (drop k s))" for k
  define M where "M k = uint (load_4 (drop k s))" for k
  define v where "v k = int (le_val (drop k s))" for k
  have l: "v k = L k + 2 ^ 24 * v (k + 3)" "0 \<le> L k" "L k < 2 ^ 24" if "k \<le> 29" for k
    using that assms le_val_load_3 [of "drop k s"] uint_load_3 [of "drop k s"] by (simp_all add: v_def L_def add.commute)
  have m: "v k = M k + 2 ^ 32 * v (k + 4)" "0 \<le> M k" "M k < 2 ^ 32" if "k \<le> 28" for k
    using that assms le_val_words [of "drop k s"] uint_load_4 [of "drop k s"] by (simp_all add: v_def M_def add.commute)
  have k: "(8388607 :: u64) = mask 23" by (simp add: mask_eq_exp_minus_1)
  have a: "uint (load_3 (drop 29 s) AND 8388607) = L 29 mod 2 ^ 23"
    unfolding k L_def take_bit_eq_mask [symmetric] unsigned_take_bit_eq by (simp add: take_bit_eq_mod)
  have p: "sint (push_bit sh (load_3 (drop k s))) = L k * 2 ^ sh" if "k \<le> 29" "sh \<le> 7" for k sh
    using l [OF that(1)] that(2) unfolding L_def by (intro sint_push_small)
  have q: "sint (load_4 (drop k s)) = M k" if "k \<le> 28" for k using m [OF that] unfolding M_def by (intro sint_small)
  have p9: "sint (push_bit 2 (load_3 (drop 29 s) AND 8388607)) = (L 29 mod 2 ^ 23) * 2 ^ 2"
    using sint_push_small [of "load_3 (drop 29 s) AND 8388607" 2] a by simp
  have load: "fe_load s = [M 0, L 4 * 2 ^ 6, L 7 * 2 ^ 5, L 10 * 2 ^ 3, L 13 * 2 ^ 2, M 16, L 20 * 2 ^ 7, L 23 * 2 ^ 5,
    L 26 * 2 ^ 4, (L 29 mod 2 ^ 23) * 2 ^ 2]"
    unfolding fe_load_def list.map using q [of 0] by (simp only: p9) (simp add: p q)
  have "v 32 = 0" using assms by (simp add: v_def)
  then have V: "v 0 = M 0 + 2 ^ 32 * (L 4 + 2 ^ 24 * (L 7 + 2 ^ 24 * (L 10 + 2 ^ 24 * (L 13 + 2 ^ 24 * (M 16 + 2 ^ 32 * (L 20 +
      2 ^ 24 * (L 23 + 2 ^ 24 * (L 26 + 2 ^ 24 * L 29))))))))"
    using m(1) [of 0] l(1) [of 4] l(1) [of 7] l(1) [of 10] l(1) [of 13] m(1) [of 16] l(1) [of 20] l(1) [of 23] l(1) [of 26]
      l(1) [of 29] by simp
  define y z where "y = L 29 div 2 ^ 23" and "z = L 29 mod 2 ^ 23"
  have L29: "L 29 = 2 ^ 23 * y + z" unfolding y_def z_def by simp
  have top: "0 \<le> z" "z < 2 ^ 23" unfolding z_def by simp_all
  define R where "R = M 0 + 2 ^ 32 * L 4 + 2 ^ 56 * L 7 + 2 ^ 80 * L 10 + 2 ^ 104 * L 13 + 2 ^ 128 * M 16 + 2 ^ 160 * L 20 +
      2 ^ 184 * L 23 + 2 ^ 208 * L 26 + 2 ^ 232 * z"
  have e: "v 0 = R + 2 ^ 255 * y" using V unfolding R_def L29 by simp
  have "0 \<le> R" "R < 2 ^ 255"
    using m(2,3) [of 0] l(2,3) [of 4] l(2,3) [of 7] l(2,3) [of 10] l(2,3) [of 13] m(2,3) [of 16] l(2,3) [of 20] l(2,3) [of 23]
      l(2,3) [of 26] top unfolding R_def by simp_all
  then have "v 0 mod 2 ^ 255 = R" unfolding e by simp
  then have "int (le_val s) mod 2 ^ 255 = R" by (simp add: v_def)
  then show ?thesis
    using that [OF load [folded z_def]] m(2,3) [of 0] l(2,3) [of 4] l(2,3) [of 7] l(2,3) [of 10] l(2,3) [of 13] m(2,3) [of 16] l(2,3) [of 20]
      l(2,3) [of 23] l(2,3) [of 26] top unfolding R_def by simp
qed

lemma fe_w_list: "fe_w 0 = 0" "fe_w 1 = 26" "fe_w 2 = 51" "fe_w 3 = 77" "fe_w 4 = 102" "fe_w 5 = 128" "fe_w 6 = 153" "fe_w 7 = 179"
  "fe_w 8 = 204" "fe_w 9 = 230"
  by (simp_all add: fe_w_def)

lemma limb_val_list10:
  "limb_val fe_w [a0, a1, a2, a3, a4, a5, a6, a7, a8, a9] =
   a0 + a1 * 2 ^ 26 + a2 * 2 ^ 51 + a3 * 2 ^ 77 + a4 * 2 ^ 102 + a5 * 2 ^ 128 + a6 * 2 ^ 153 + a7 * 2 ^ 179 + a8 * 2 ^ 204 + a9 * 2 ^ 230"
proof -
  have u: "{..<10} = {0, 1, 2, 3, 4, 5, 6, 7, 8, 9 :: nat}" by auto
  show ?thesis by (subst limb_val_10, simp, subst u) (simp add: fe_w_list fe_w_list(2) [unfolded One_nat_def])
qed

lemma fe_load_val:
  assumes "length s = 32" shows "limb_val fe_w (fe_load s) = int (le_val s) mod 2 ^ 255"
  by (rule fe_load_parts [OF assms]) (simp only: limb_val_list10, simp)

lemma canonical_test:
  fixes l0 l1 l2 l3 l4 l5 l6 l7 l8 l9 :: int
  assumes "0 \<le> l0 \<and> l0 < 2 ^ 32" "0 \<le> l1 \<and> l1 < 2 ^ 24" "0 \<le> l2 \<and> l2 < 2 ^ 24" "0 \<le> l3 \<and> l3 < 2 ^ 24" "0 \<le> l4 \<and> l4 < 2 ^ 24"
    "0 \<le> l5 \<and> l5 < 2 ^ 32" "0 \<le> l6 \<and> l6 < 2 ^ 24" "0 \<le> l7 \<and> l7 < 2 ^ 24" "0 \<le> l8 \<and> l8 < 2 ^ 24" "0 \<le> l9 \<and> l9 < 2 ^ 23"
  shows "2 ^ 255 - 19 \<le> l0 + 2 ^ 32 * l1 + 2 ^ 56 * l2 + 2 ^ 80 * l3 + 2 ^ 104 * l4 + 2 ^ 128 * l5 + 2 ^ 160 * l6 +
      2 ^ 184 * l7 + 2 ^ 208 * l8 + 2 ^ 232 * l9 \<longleftrightarrow>
    l9 = 8388607 \<and> l8 = 16777215 \<and> l7 = 16777215 \<and> l6 = 16777215 \<and> l5 = 4294967295 \<and> l4 = 16777215 \<and> l3 = 16777215 \<and>
    l2 = 16777215 \<and> l1 = 16777215 \<and> 4294967277 \<le> l0" (is "?L \<longleftrightarrow> ?R")
proof
  assume ?L
  then have L: "57896044618658097711785492504343953926634992332820282019728792003956564819949 \<le> l0 + 4294967296 * l1 +
      72057594037927936 * l2 + 1208925819614629174706176 * l3 + 20282409603651670423947251286016 * l4 +
      340282366920938463463374607431768211456 * l5 + 1461501637330902918203684832716283019655932542976 * l6 +
      24519928653854221733733552434404946937899825954937634816 * l7 +
      411376139330301510538742295639337626245683966408394965837152256 * l8 +
      6901746346790563787434755862277025452451108972170386555162524223799296 * l9" by simp
  have b: "l0 \<le> 4294967295" "l1 \<le> 16777215" "l2 \<le> 16777215" "l3 \<le> 16777215" "l4 \<le> 16777215" "l5 \<le> 4294967295"
    "l6 \<le> 16777215" "l7 \<le> 16777215" "l8 \<le> 16777215" "l9 \<le> 8388607" using assms by simp_all
  have l9: "8388607 \<le> l9" using L b by linarith
  have l8: "16777215 \<le> l8" using L b by linarith
  have l7: "16777215 \<le> l7" using L b by linarith
  have l6: "16777215 \<le> l6" using L b by linarith
  have l5: "4294967295 \<le> l5" using L b by linarith
  have l4: "16777215 \<le> l4" using L b by linarith
  have l3: "16777215 \<le> l3" using L b by linarith
  have l2: "16777215 \<le> l2" using L b by linarith
  have l1: "16777215 \<le> l1" using L b by linarith
  have l0: "4294967277 \<le> l0" using L b by linarith
  show ?R using b l0 l1 l2 l3 l4 l5 l6 l7 l8 l9 by (intro conjI antisym)
qed simp

lemma iv_fe_frombytes:
  "\<exists>iv. opt_fold iv_fe_carry [9, 1, 3, 5, 7, 0, 2, 4, 6, 8]
      (map (\<lambda>b. (0, 2 ^ b - 1)) [32, 30, 29, 27, 26, 32, 31, 29, 28, 25]) = Some iv \<and>
    iv_sub iv (iv_sym (2 * fe_out_bound) fe_out_bound)"
  by (intro exI conjI) (code_simp, code_simp)

lemma fe_load_within:
  assumes "length s = 32"
  shows "within (map (\<lambda>b. (0, 2 ^ b - 1)) [32, 30, 29, 27, 26, 32, 31, 29, 28, 25]) (fe_load s)"
  by (rule fe_load_parts [OF assms]) (simp add: within_Cons within_Nil)

lemma fe_frombytes_correct:
  assumes "length s = 32"
  shows "fe_frombytes_vartime s = None \<longleftrightarrow> fe_p \<le> int (le_val s) mod 2 ^ 255"
    "fe_frombytes_vartime s = Some f \<Longrightarrow> fe_bounded fe_out_bound f \<and> fe_num f = int (le_val s) mod 2 ^ 255"
proof -
  show n: "fe_frombytes_vartime s = None \<longleftrightarrow> fe_p \<le> int (le_val s) mod 2 ^ 255"
    by (rule fe_load_parts [OF assms]) (simp only: fe_frombytes_vartime_def Let_def fe_p_def canonical_test, simp)
  obtain iv where iv: "opt_fold iv_fe_carry [9, 1, 3, 5, 7, 0, 2, 4, 6, 8]
      (map (\<lambda>b. (0, 2 ^ b - 1)) [32, 30, 29, 27, 26, 32, 31, 29, 28, 25]) = Some iv"
    "iv_sub iv (iv_sym (2 * fe_out_bound) fe_out_bound)" using iv_fe_frombytes by blast
  define r where "r = fold fe_carry [9, 1, 3, 5, 7, 0, 2, 4, 6, 8] (fe_load s)"
  have r: "within iv r" "limb_val fe_w r mod fe_p = limb_val fe_w (fe_load s) mod fe_p"
    using safe_stepD [OF fe_carries_safe fe_load_within [OF assms] iv(1)] unfolding r_def by simp_all
  have b: "fe_bounded fe_out_bound r" using iv_sub_within [OF iv(2) r(1)] by (simp only: within_iv_sym)
  assume f: "fe_frombytes_vartime s = Some f"
  then have "f = r" using fe_bounded_i32 [OF b] by (simp add: fe_frombytes_vartime_def Let_def r_def split: if_splits)
  moreover have "int (le_val s) mod 2 ^ 255 < fe_p" using n f by auto
  ultimately show "fe_bounded fe_out_bound f \<and> fe_num f = int (le_val s) mod 2 ^ 255"
    using b r(2) fe_load_val [OF assms] by (simp add: fe_num_def)
qed

subsection \<open>Inverting many elements at once\<close>

definition fe_prod :: "fe list \<Rightarrow> int" where
  "fe_prod xs = prod_list (map fe_num xs)"

lemma bytes_mul_bound: "fe_bounded fe_bytes_bound f \<Longrightarrow> fe_bounded fe_mul_bound f"
  by (erule fe_bounded_mono) simp

lemma out_bytes_bound: "fe_bounded fe_out_bound f \<Longrightarrow> fe_bounded fe_bytes_bound f"
  by (erule fe_bounded_mono) simp

lemma fe_prefix_step:
  assumes "\<forall>i < length out. fe_bounded fe_bytes_bound (out ! i) \<and> fe_num (out ! i) = fe_prod (take (Suc i) ys) mod fe_p"
    "length out = length ys" "ys \<noteq> []" "fe_bounded fe_bytes_bound x"
  shows "\<forall>i < Suc (length out). fe_bounded fe_bytes_bound ((out @ [fe_mul (last out) x]) ! i) \<and>
    fe_num ((out @ [fe_mul (last out) x]) ! i) = fe_prod (take (Suc i) (ys @ [x])) mod fe_p"
proof (intro allI impI)
  fix i assume i: "i < Suc (length out)"
  have o: "out \<noteq> []" using assms(2,3) by auto
  then have l: "last out = out ! (length out - 1)" by (rule last_conv_nth)
  have n: "fe_bounded fe_bytes_bound (last out)" "fe_num (last out) = fe_prod ys mod fe_p"
    using assms(1) [rule_format, of "length out - 1"] o assms(2,3) unfolding l by simp_all
  show "fe_bounded fe_bytes_bound ((out @ [fe_mul (last out) x]) ! i) \<and>
    fe_num ((out @ [fe_mul (last out) x]) ! i) = fe_prod (take (Suc i) (ys @ [x])) mod fe_p"
  proof (cases "i < length out")
    case True
    then show ?thesis using assms(1,2) by (simp add: nth_append)
  next
    case False
    then have "i = length out" using i by simp
    then have e: "(out @ [fe_mul (last out) x]) ! i = fe_mul (last out) x" "take (Suc i) (ys @ [x]) = ys @ [x]"
      using assms(2) by (simp_all add: nth_append)
    show ?thesis unfolding e using fe_mul_correct [OF bytes_mul_bound [OF n(1)] bytes_mul_bound [OF assms(4)]] n(2)
      by (simp add: out_bytes_bound fe_prod_def mod_simps)
  qed
qed

lemma fe_batch_prefix_correct:
  assumes "xs \<noteq> []" "\<forall>x \<in> set xs. fe_bounded fe_bytes_bound x"
  shows "length (fe_batch_prefix xs) = length xs \<and> (\<forall>i < length xs. fe_bounded fe_bytes_bound (fe_batch_prefix xs ! i) \<and>
    fe_num (fe_batch_prefix xs ! i) = fe_prod (take (Suc i) xs) mod fe_p)"
proof -
  obtain y ys where xs: "xs = y # ys" using assms(1) by (cases xs) auto
  have "length (fold (\<lambda>x out. out @ [fe_mul (last out) x]) zs [y]) = Suc (length zs) \<and>
    (\<forall>i < Suc (length zs). fe_bounded fe_bytes_bound (fold (\<lambda>x out. out @ [fe_mul (last out) x]) zs [y] ! i) \<and>
      fe_num (fold (\<lambda>x out. out @ [fe_mul (last out) x]) zs [y] ! i) = fe_prod (take (Suc i) (y # zs)) mod fe_p)"
    if "\<forall>x \<in> set (y # zs). fe_bounded fe_bytes_bound x" for zs
    using that
  proof (induction zs rule: rev_induct)
    case Nil
    then show ?case by (simp add: fe_prod_def fe_num_def)
  next
    case (snoc z zs)
    then show ?case using fe_prefix_step [of "fold (\<lambda>x out. out @ [fe_mul (last out) x]) zs [y]" "y # zs" z] by simp
  qed
  then show ?thesis using assms(2) unfolding fe_batch_prefix_def xs by (simp add: fe_copy_def)
qed

lemma fe_prod_split: "i < length xs \<Longrightarrow> fe_prod (take i xs) * fe_num (xs ! i) * fe_prod (drop (Suc i) xs) = fe_prod xs"
  unfolding fe_prod_def by (subst (4) id_take_nth_drop [of i xs]) (simp_all add: mult.assoc)

lemma fe_prod_drop: "i < length xs \<Longrightarrow> fe_prod (drop i xs) = fe_num (xs ! i) * fe_prod (drop (Suc i) xs)"
  unfolding fe_prod_def by (simp add: Cons_nth_drop_Suc [symmetric])

text \<open>The second loop: an entry that is done times its input is the same number for all entries.\<close>

definition batch_done :: "fe list \<Rightarrow> int \<Rightarrow> fe \<Rightarrow> nat \<Rightarrow> bool" where
  "batch_done xs e f k \<longleftrightarrow> fe_bounded fe_mul_bound f \<and> (fe_num f * fe_num (xs ! k)) mod fe_p = (e * fe_prod xs) mod fe_p"

definition batch_state :: "fe list \<Rightarrow> int \<Rightarrow> fe list \<Rightarrow> nat \<Rightarrow> fe \<times> fe list \<Rightarrow> bool" where
  "batch_state xs e pre m = (\<lambda>(a, out).
    fe_bounded fe_mul_bound a \<and> fe_num a = (e * fe_prod (drop m xs)) mod fe_p \<and> length out = length xs \<and>
    (\<forall>k < m. out ! k = pre ! k) \<and> (\<forall>k. m \<le> k \<and> k < length xs \<longrightarrow> batch_done xs e (out ! k) k))"

lemma batch_step:
  assumes st: "batch_state xs e pre (Suc m) (a, out)" and m: "0 < m" "m < length xs"
    and xs: "\<forall>x \<in> set xs. fe_bounded fe_mul_bound x"
    and pre: "\<forall>i < length xs. fe_bounded fe_mul_bound (pre ! i) \<and> fe_num (pre ! i) = fe_prod (take (Suc i) xs) mod fe_p"
  shows "batch_state xs e pre m (fe_mul a (xs ! m), out[m := fe_mul a (out ! (m - 1))])"
proof -
  have a: "fe_bounded fe_mul_bound a" "fe_num a = (e * fe_prod (drop (Suc m) xs)) mod fe_p" and len: "length out = length xs"
    and eq: "\<forall>k < Suc m. out ! k = pre ! k" and dn: "\<forall>k. Suc m \<le> k \<and> k < length xs \<longrightarrow> batch_done xs e (out ! k) k"
    using st by (simp_all add: batch_state_def)
  have x: "fe_bounded fe_mul_bound (xs ! m)" using xs m by simp
  have p: "fe_bounded fe_mul_bound (out ! (m - 1))" "fe_num (out ! (m - 1)) = fe_prod (take m xs) mod fe_p"
    using eq [rule_format, of "m - 1"] pre [rule_format, of "m - 1"] m by simp_all
  have "(e * fe_prod (drop (Suc m) xs)) * fe_prod (take m xs) * fe_num (xs ! m) = e * fe_prod xs"
    using fe_prod_split [OF m(2)] by (simp add: ac_simps)
  then have "(fe_num a * fe_num (out ! (m - 1))) mod fe_p * fe_num (xs ! m) mod fe_p = (e * fe_prod xs) mod fe_p"
    unfolding a(2) p(2) by (simp only: mod_simps)
  then have d: "batch_done xs e (fe_mul a (out ! (m - 1))) m"
    unfolding batch_done_def using fe_mul_correct [OF a(1) p(1)] by (simp add: out_mul_bound)
  have dk: "batch_done xs e (out[m := fe_mul a (out ! (m - 1))] ! k) k" if "m \<le> k" "k < length xs" for k
  proof (cases "k = m")
    case True
    then show ?thesis using d m len by simp
  next
    case False
    then show ?thesis using dn that by simp
  qed
  have "fe_num (fe_mul a (xs ! m)) = (e * fe_prod (drop m xs)) mod fe_p"
    unfolding fe_prod_drop [OF m(2)] using fe_mul_correct(2) [OF a(1) x] a(2) by (simp add: mod_simps ac_simps)
  then show ?thesis
    unfolding batch_state_def using fe_mul_correct(1) [OF a(1) x] len eq dk by (simp add: out_mul_bound)
qed

lemma batch_loop:
  assumes st: "batch_state xs e pre (length xs) s" and "xs \<noteq> []" and xs: "\<forall>x \<in> set xs. fe_bounded fe_mul_bound x"
    and pre: "\<forall>i < length xs. fe_bounded fe_mul_bound (pre ! i) \<and> fe_num (pre ! i) = fe_prod (take (Suc i) xs) mod fe_p"
  shows "batch_state xs e pre 1 (fold (fe_batch_step xs) (rev [2..<Suc (length xs)]) s)"
proof -
  have "batch_state xs e pre (m - 1) (fold (fe_batch_step xs) (rev [m..<Suc (length xs)]) s)" if "2 \<le> m" "m \<le> Suc (length xs)" for m
    using that(2,1)
  proof (induction rule: inc_induct)
    case base
    then show ?case using st by simp
  next
    case (step n)
    obtain a out where s: "fold (fe_batch_step xs) (rev [Suc n..<Suc (length xs)]) s = (a, out)" by fastforce
    have "batch_state xs e pre (Suc (n - 1)) (a, out)" using step s by simp
    from batch_step [OF this _ _ xs pre] have "batch_state xs e pre (n - 1) (fe_batch_step xs n (a, out))"
      using step by (simp add: fe_batch_step_def numeral_2_eq_2)
    moreover have "[n..<Suc (length xs)] = n # [Suc n..<Suc (length xs)]" using step by (simp add: upt_conv_Cons)
    ultimately show ?case using s by simp
  qed
  from this [of 2] show ?thesis using assms(2) by (cases xs) simp_all
qed

lemma fe_batch_invert_correct:
  assumes "xs \<noteq> []" "\<forall>x \<in> set xs. fe_bounded fe_bytes_bound x"
  shows "fe_batch_invert xs = None \<longleftrightarrow> fe_prod xs mod fe_p = 0"
    and "fe_batch_invert xs = Some ys \<Longrightarrow> length ys = length xs \<and>
      (\<forall>k < length xs. fe_bounded fe_mul_bound (ys ! k) \<and>
        (fe_num (ys ! k) * fe_num (xs ! k)) mod fe_p = (fe_prod xs ^ nat (fe_p - 2) * fe_prod xs) mod fe_p)"
proof -
  define n pre where "n = length xs" and "pre = fe_batch_prefix xs"
  define e where "e = fe_prod xs ^ nat (fe_p - 2)"
  have xs: "\<forall>x \<in> set xs. fe_bounded fe_mul_bound x" using assms(2) by (auto intro: fe_bounded_mono)
  have n: "0 < n" using assms(1) by (simp add: n_def)
  note p = fe_batch_prefix_correct [OF assms, folded pre_def n_def]
  have last: "fe_num (pre ! (n - 1)) = fe_prod xs mod fe_p" and lb: "fe_bounded fe_bytes_bound (pre ! (n - 1))"
    using p n by (simp_all add: n_def)
  have pm: "\<forall>i < length xs. fe_bounded fe_mul_bound (pre ! i) \<and> fe_num (pre ! i) = fe_prod (take (Suc i) xs) mod fe_p"
    using p by (simp add: bytes_mul_bound n_def)
  show "fe_batch_invert xs = None \<longleftrightarrow> fe_prod xs mod fe_p = 0"
    using n fe_isnonzero_correct [OF lb] last
    by (simp add: fe_batch_invert_def Let_def n_def [symmetric] pre_def [symmetric] split: prod.splits)
  assume r: "fe_batch_invert xs = Some ys"
  obtain a out where loop: "fold (fe_batch_step xs) (rev [2..<Suc (length xs)]) (fe_invert (pre ! (n - 1)), pre) = (a, out)" by fastforce
  have ys: "ys = out[0 := a]"
    using r n loop unfolding fe_batch_invert_def Let_def n_def [symmetric] pre_def [symmetric]
    by (simp del: upt_Suc add: fe_copy_def split: if_splits)
  have "batch_state xs e pre (length xs) (fe_invert (pre ! (n - 1)), pre)"
    using fe_invert_correct [OF bytes_mul_bound [OF lb]] last p by (auto simp: batch_state_def out_mul_bound e_def fe_prod_def n_def power_mod)
  from batch_loop [OF this assms(1) xs pm] loop have st: "batch_state xs e pre 1 (a, out)" by simp
  have "batch_done xs e a 0"
    using st fe_prod_drop [of 0 xs] n by (simp add: batch_state_def batch_done_def n_def mod_simps ac_simps)
  then have "batch_done xs e (ys ! k) k" if "k < length xs" for k
    using st that unfolding ys by (cases k) (simp_all add: batch_state_def)
  then show "length ys = length xs \<and> (\<forall>k < length xs. fe_bounded fe_mul_bound (ys ! k) \<and>
        (fe_num (ys ! k) * fe_num (xs ! k)) mod fe_p = (fe_prod xs ^ nat (fe_p - 2) * fe_prod xs) mod fe_p)"
    using st unfolding ys by (simp add: batch_state_def batch_done_def e_def)
qed

subsection \<open>Properties\<close>

text \<open>C30: The multiplication and the squarings: for operands within the bounds stated in their comments
  (\<open>1.65 * 2^26\<close> for even and \<open>1.65 * 2^25\<close> for odd limbs) no 32 bit factor, 64 bit product or column overflows, the
  result is within the stated \<open>1.01 * 2^25\<close> and \<open>1.01 * 2^24\<close>, and its residue modulo \<open>2^255 - 19\<close> is the product,
  the square and twice the square.\<close>

theorem fe_mul_spec:
  assumes "fe_bounded fe_mul_bound f" "fe_bounded fe_mul_bound g"
  shows "fe_bounded fe_out_bound (fe_mul f g) \<and> fe_num (fe_mul f g) = (fe_num f * fe_num g) mod fe_p \<and>
    fe_bounded fe_out_bound (fe_sq f) \<and> fe_num (fe_sq f) = (fe_num f) ^ 2 mod fe_p \<and>
    fe_bounded fe_out_bound (fe_sq2 f) \<and> fe_num (fe_sq2 f) = 2 * (fe_num f) ^ 2 mod fe_p"
  using assms by (simp add: fe_mul_correct fe_sq_correct fe_sq2_correct power2_eq_square)

theorem fe_mul_spec_witness: "fe_num (fe_mul (fe_add fe_1 fe_1) fe_1) = 2 \<and> fe_num (fe_sq2 (fe_add fe_1 fe_1)) = 8"
proof -
  have s: "fe_bounded 2 (fe_add fe_1 fe_1)" "fe_num (fe_add fe_1 fe_1) = 2"
    using fe_add_correct [OF fe_constants(2) fe_constants(2)] by (simp_all add: fe_constants fe_p_def)
  have b: "fe_bounded fe_mul_bound fe_1" "fe_bounded fe_mul_bound (fe_add fe_1 fe_1)"
    using s fe_constants(2) by (auto intro: fe_bounded_mono)
  show ?thesis using fe_mul_spec [OF b(2) b(1)] s(2) by (simp add: fe_constants fe_p_def)
qed

text \<open>C32: The addition chains: \<open>fe_invert\<close> computes the power \<open>q - 2\<close>, and \<open>fe_divpowm1\<close> computes
  \<open>u v^3 (u v^7)^((q - 5) / 8)\<close>, as their comments say, for every operand that may be multiplied.\<close>

theorem fe_powers_spec:
  assumes "fe_bounded fe_mul_bound u" "fe_bounded fe_mul_bound v"
  shows "fe_num (fe_invert u) = fe_num u ^ nat (fe_p - 2) mod fe_p \<and>
    fe_num (fe_divpowm1 u v) = (fe_num u * fe_num v ^ 3 * (fe_num u * fe_num v ^ 7) ^ nat ((fe_p - 5) div 8)) mod fe_p \<and>
    fe_bounded fe_out_bound (fe_invert u) \<and> fe_bounded fe_out_bound (fe_divpowm1 u v)"
  using fe_invert_correct [OF assms(1)] fe_divpowm1_correct [OF assms] by simp

theorem fe_powers_spec_witness: "fe_num (fe_invert fe_1) = 1 \<and> fe_num (fe_divpowm1 fe_0 fe_1) = 0"
proof -
  have b: "fe_bounded fe_mul_bound fe_1" "fe_bounded fe_mul_bound fe_0" using fe_constants(1,2) by (auto intro: fe_bounded_mono)
  show ?thesis
    using fe_powers_spec [OF b(1) b(1)] fe_powers_spec [OF b(2) b(1)] by (simp add: fe_constants fe_p_def)
qed

text \<open>C31: Reading and writing bytes.  \<open>fe_frombytes_vartime\<close> refuses exactly the strings whose low 255 bits are not below
  the prime; \<open>fe_tobytes\<close> writes the unique representative below the prime, so that reading is undone up to the sign
  bit and writing is undone up to the choice of limbs.\<close>

theorem fe_bytes_spec:
  assumes s: "length s = 32" and f: "fe_bounded fe_bytes_bound f"
  shows "(fe_frombytes_vartime s = None \<longleftrightarrow> fe_p \<le> int (le_val s) mod 2 ^ 255) \<and>
    (\<forall>g. fe_frombytes_vartime s = Some g \<longrightarrow> int (le_val (fe_tobytes g)) = int (le_val s) mod 2 ^ 255) \<and>
    (\<exists>g. fe_frombytes_vartime (fe_tobytes f) = Some g \<and> fe_num g = fe_num f)"
proof (intro conjI allI impI)
  show "fe_frombytes_vartime s = None \<longleftrightarrow> fe_p \<le> int (le_val s) mod 2 ^ 255" by (rule fe_frombytes_correct(1) [OF s])
  show "int (le_val (fe_tobytes g)) = int (le_val s) mod 2 ^ 255" if "fe_frombytes_vartime s = Some g" for g
    using fe_frombytes_correct(2) [OF s that] fe_tobytes_correct(1) [OF out_bytes_bound] by simp
  note t = fe_tobytes_correct [OF f]
  have "fe_num f < 2 ^ 255" using fe_num_range(2) [of f] by (simp add: fe_p_def)
  then have m: "int (le_val (fe_tobytes f)) mod 2 ^ 255 = fe_num f" using t(1) fe_num_range(1) [of f] by simp
  then obtain g where g: "fe_frombytes_vartime (fe_tobytes f) = Some g"
    using fe_frombytes_correct(1) [OF t(2)] fe_num_range(2) [of f] by fastforce
  then show "\<exists>g. fe_frombytes_vartime (fe_tobytes f) = Some g \<and> fe_num g = fe_num f"
    using fe_frombytes_correct(2) [OF t(2) g] m by auto
qed

theorem fe_bytes_spec_witness:
  "fe_frombytes_vartime (replicate 32 255) = None \<and> (\<exists>g. fe_frombytes_vartime (fe_tobytes fe_1) = Some g \<and> fe_num g = 1)"
  using fe_bytes_spec [of "replicate 32 255" fe_1] fe_bounded_mono [OF fe_constants(2)]
  by (simp add: le_val_ones fe_constants fe_p_def)

text \<open>C33: Batch inversion (Montgomery's trick) fails exactly when the product of the inputs is 0, and otherwise every
  output times its input is one and the same number \<open>P^(q-2) P\<close>, where \<open>P\<close> is the product of all inputs: the number
  that a single inversion of \<open>P\<close> gives.\<close>

theorem fe_batch_invert_spec:
  assumes "xs \<noteq> []" "\<forall>x \<in> set xs. fe_bounded fe_bytes_bound x"
  shows "(fe_batch_invert xs = None \<longleftrightarrow> prod_list (map fe_num xs) mod fe_p = 0) \<and>
    (\<forall>ys. fe_batch_invert xs = Some ys \<longrightarrow> length ys = length xs \<and>
      (\<forall>k < length xs. fe_num (ys ! k) * fe_num (xs ! k) mod fe_p =
        prod_list (map fe_num xs) ^ nat (fe_p - 2) * prod_list (map fe_num xs) mod fe_p))"
  using fe_batch_invert_correct [OF assms] unfolding fe_prod_def by blast

theorem fe_batch_invert_spec_witness:
  "\<exists>ys. fe_batch_invert [fe_1, fe_1] = Some ys \<and> length ys = 2 \<and> fe_num (ys ! 1) * fe_num fe_1 mod fe_p = 1"
  using fe_batch_invert_spec [of "[fe_1, fe_1]"] fe_bounded_mono [OF fe_constants(2)]
  by (cases "fe_batch_invert [fe_1, fe_1]") (auto simp: fe_constants fe_p_def numeral_2_eq_2)

text \<open>C35: The conditional move returns its first operand for 0 and its second for 1, and its assertion fails for every
  other 32 bit flag.\<close>

theorem fe_cmov_spec:
  assumes "length f = 10" "length g = 10"
  shows "fe_cmov f g b = (if b = 0 then Some f else if b = 1 then Some g else None)"
  by (rule fe_cmov_correct [OF assms])

theorem fe_cmov_spec_witness: "fe_cmov fe_0 fe_1 1 = Some fe_1 \<and> fe_cmov fe_0 fe_1 2 = None"
  using fe_cmov_spec [of fe_0 fe_1] by (simp add: fe_0_def fe_1_def)

text \<open>C34: Two field elements compare equal, and an element is nonzero or odd, exactly as their residues are, whatever
  limbs represent them, given a comparison of 32 byte strings that returns 0 for equal strings only.\<close>

theorem fe_predicates_spec:
  assumes f: "fe_bounded fe_bytes_bound f" and g: "fe_bounded fe_bytes_bound g"
    and verify: "\<And>x y. length x = 32 \<Longrightarrow> length y = 32 \<Longrightarrow> crypto_verify_32 x y = 0 \<longleftrightarrow> x = y"
  shows "(fe_equals crypto_verify_32 f g \<longleftrightarrow> fe_num f = fe_num g) \<and> (fe_isnonzero f = 0 \<longleftrightarrow> fe_num f = 0) \<and>
    fe_isnegative f = fe_num f mod 2"
  using fe_tobytes_inject [OF f g] fe_isnonzero_correct [OF f] fe_isnegative_correct [OF f]
    verify [OF fe_tobytes_correct(2) [OF f] fe_tobytes_correct(2) [OF g]] by (simp add: fe_equals_def)

theorem fe_predicates_spec_witness:
  "\<not> fe_equals (\<lambda>x y. if x = y then 0 else - 1) fe_0 fe_1 \<and> fe_isnonzero fe_0 = 0"
  using fe_predicates_spec [of fe_0 fe_1 "\<lambda>x y. if x = y then 0 else - 1"] fe_bounded_mono [OF fe_constants(1)]
    fe_bounded_mono [OF fe_constants(2)] by (simp add: fe_constants)

end
