(* ===== verification/Residue_Ring.thy ===== *)
theory Residue_Ring
  imports Field25519
begin

text \<open>
  The ring of residues modulo \<open>2^255 - 19\<close> as a type, so that the ring laws and the library's simplification apply to
  the values of field elements; and the laws of the curve in its coordinate systems as identities of that ring: the
  unified addition and the doubling of the source map points of the curve to points of the curve.
\<close>

subsection \<open>The residues as a ring\<close>

text \<open>The ring the field elements stand for.\<close>

typedef fq = "{0..<fe_p}" morphisms fq_rep fq_abs
proof
  show "0 \<in> {0..<fe_p}" by (simp add: fe_p_def)
qed

setup_lifting type_definition_fq

lemma fe_p_gt: "1 < fe_p" "0 < fe_p"
  by (simp_all add: fe_p_def)

instantiation fq :: comm_ring_1
begin

lift_definition zero_fq :: fq is 0 using fe_p_gt by simp
lift_definition one_fq :: fq is 1 using fe_p_gt by simp
lift_definition plus_fq :: "fq \<Rightarrow> fq \<Rightarrow> fq" is "\<lambda>x y. (x + y) mod fe_p" using fe_p_gt by simp
lift_definition minus_fq :: "fq \<Rightarrow> fq \<Rightarrow> fq" is "\<lambda>x y. (x - y) mod fe_p" using fe_p_gt by simp
lift_definition uminus_fq :: "fq \<Rightarrow> fq" is "\<lambda>x. (- x) mod fe_p" using fe_p_gt by simp
lift_definition times_fq :: "fq \<Rightarrow> fq \<Rightarrow> fq" is "\<lambda>x y. (x * y) mod fe_p" using fe_p_gt by simp

instance
proof
  fix a b c :: fq
  show "a + b + c = a + (b + c)" by transfer (simp add: mod_simps add.assoc)
  show "a + b = b + a" by transfer (simp add: add.commute)
  show "0 + a = a" by transfer simp
  show "- a + a = 0" by transfer (simp add: mod_simps)
  show "a - b = a + - b" by transfer (simp add: mod_simps)
  show "a * b * c = a * (b * c)" by transfer (simp add: mod_simps mult.assoc)
  show "a * b = b * a" by transfer (simp add: mult.commute)
  show "1 * a = a" by transfer simp
  show "(a + b) * c = a * c + b * c" by transfer (simp add: mod_simps distrib_right)
  show "(0 :: fq) \<noteq> 1" by transfer simp
qed

end

lemma fq_rep_of_nat: "fq_rep (of_nat n) = int n mod fe_p"
proof (induction n)
  case 0
  then show ?case by (simp add: zero_fq.rep_eq)
next
  case (Suc n)
  then show ?case using fe_p_gt by (simp add: plus_fq.rep_eq one_fq.rep_eq mod_simps add.commute)
qed

lemma fq_rep_of_int: "fq_rep (of_int z) = z mod fe_p"
proof (cases z)
  case (nonneg n)
  then show ?thesis by (simp add: fq_rep_of_nat)
next
  case (neg n)
  then have "of_int z = - (of_nat (Suc n) :: fq)" by simp
  then have "fq_rep (of_int z) = (- (int (Suc n) mod fe_p)) mod fe_p" by (simp only: uminus_fq.rep_eq fq_rep_of_nat)
  then show ?thesis using neg by (simp add: mod_simps)
qed

lemma fq_of_int_eq: "(of_int x :: fq) = of_int y \<longleftrightarrow> x mod fe_p = y mod fe_p"
  by (simp add: fq_rep_inject [symmetric] fq_rep_of_int)

definition fe_fq :: "fe \<Rightarrow> fq" where "fe_fq f = of_int (limb_val fe_w f)"

lemma fe_fq_num: "fq_rep (fe_fq f) = fe_num f" "fe_fq f = of_int (fe_num f)"
  by (simp_all add: fe_fq_def fq_rep_of_int fe_num_def fq_of_int_eq)

lemma fe_fq_eq: "fe_fq f = fe_fq g \<longleftrightarrow> fe_num f = fe_num g"
  by (metis fe_fq_num)

lemma of_int_fe_num: "fe_num h = z mod fe_p \<Longrightarrow> fe_fq h = of_int z"
  by (simp add: fe_fq_num fq_of_int_eq)

text \<open>The rules of the arithmetic, in a form that computes the bounds.\<close>

lemma fe_mul_fq:
  assumes "fe_bounded a f" "fe_bounded b g" "a \<le> fe_mul_bound" "b \<le> fe_mul_bound"
  shows "fe_bounded fe_out_bound (fe_mul f g) \<and> fe_fq (fe_mul f g) = fe_fq f * fe_fq g"
proof -
  note b = fe_bounded_mono [OF assms(1,3)] fe_bounded_mono [OF assms(2,4)]
  show ?thesis using fe_mul_correct(1) [OF b] of_int_fe_num [OF fe_mul_correct(2) [OF b]] by (simp add: fe_fq_num)
qed

lemma fe_sq_fq:
  assumes "fe_bounded a f" "a \<le> fe_mul_bound"
  shows "fe_bounded fe_out_bound (fe_sq f) \<and> fe_fq (fe_sq f) = fe_fq f * fe_fq f"
proof -
  note b = fe_bounded_mono [OF assms]
  show ?thesis using fe_sq_correct(1) [OF b] of_int_fe_num [OF fe_sq_correct(2) [OF b]] by (simp add: fe_fq_num)
qed

lemma fe_sq2_fq:
  assumes "fe_bounded a f" "a \<le> fe_mul_bound"
  shows "fe_bounded fe_out_bound (fe_sq2 f) \<and> fe_fq (fe_sq2 f) = 2 * (fe_fq f * fe_fq f)"
proof -
  note b = fe_bounded_mono [OF assms]
  show ?thesis using fe_sq2_correct(1) [OF b] of_int_fe_num [OF fe_sq2_correct(2) [OF b]] by (simp add: fe_fq_num)
qed

lemma fe_add_fq:
  assumes "fe_bounded a f" "fe_bounded b g" "a + b \<le> fe_mul_bound"
  shows "fe_bounded (a + b) (fe_add f g) \<and> fe_fq (fe_add f g) = fe_fq f + fe_fq g"
proof -
  have c: "2 * (a + b) < 2 ^ 31" using assms(3) by simp
  show ?thesis using fe_add_correct(1) [OF assms(1,2) c] of_int_fe_num [OF fe_add_correct(2) [OF assms(1,2) c]]
    by (simp add: fe_fq_num)
qed

lemma fe_sub_fq:
  assumes "fe_bounded a f" "fe_bounded b g" "a + b \<le> fe_mul_bound"
  shows "fe_bounded (a + b) (fe_sub f g) \<and> fe_fq (fe_sub f g) = fe_fq f - fe_fq g"
proof -
  have c: "2 * (a + b) < 2 ^ 31" using assms(3) by simp
  show ?thesis using fe_sub_correct(1) [OF assms(1,2) c] of_int_fe_num [OF fe_sub_correct(2) [OF assms(1,2) c]]
    by (simp add: fe_fq_num)
qed

lemma fe_neg_fq:
  assumes "fe_bounded a f" "a \<le> fe_mul_bound"
  shows "fe_bounded a (fe_neg f) \<and> fe_fq (fe_neg f) = - fe_fq f"
proof -
  have c: "2 * a < 2 ^ 31" using assms(2) by simp
  show ?thesis using fe_neg_correct(1) [OF assms(1) c] of_int_fe_num [OF fe_neg_correct(2) [OF assms(1) c]]
    by (simp add: fe_fq_num)
qed

lemma fe_consts_fq: "fe_bounded fe_out_bound fe_0" "fe_bounded fe_out_bound fe_1" "fe_fq fe_0 = 0" "fe_fq fe_1 = 1"
  using fe_constants by (auto intro: fe_bounded_mono simp: fe_fq_num)

subsection \<open>The curve in the coordinate systems\<close>

text \<open>Extended coordinates \<open>(X : Y : Z : T)\<close>, projective ones \<open>(X : Y : Z)\<close>, and completed ones, in which the point is
  \<open>(X / Z, Y / T)\<close>.\<close>

definition curve_ext :: "fq \<Rightarrow> fq \<Rightarrow> fq \<Rightarrow> fq \<Rightarrow> fq \<Rightarrow> bool" where
  "curve_ext d X Y Z T \<longleftrightarrow> T * Z = X * Y \<and> Y * Y - X * X = Z * Z + d * (T * T)"

definition curve_proj :: "fq \<Rightarrow> fq \<Rightarrow> fq \<Rightarrow> fq \<Rightarrow> bool" where
  "curve_proj d X Y Z \<longleftrightarrow> (Y * Y - X * X) * (Z * Z) = Z * Z * (Z * Z) + d * (X * X * (Y * Y))"

definition curve_compl :: "fq \<Rightarrow> fq \<Rightarrow> fq \<Rightarrow> fq \<Rightarrow> fq \<Rightarrow> bool" where
  "curve_compl d X Y Z T \<longleftrightarrow> Y * Y * (Z * Z) - X * X * (T * T) = Z * Z * (T * T) + d * (X * X * (Y * Y))"

lemma curve_ext_proj: "curve_ext d X Y Z T \<Longrightarrow> curve_proj d X Y Z"
proof -
  assume e: "curve_ext d X Y Z T"
  then have "(Y * Y - X * X) * (Z * Z) = (Z * Z + d * (T * T)) * (Z * Z)" by (simp add: curve_ext_def)
  also have "\<dots> = Z * Z * (Z * Z) + d * ((T * Z) * (T * Z))" by (simp add: algebra_simps)
  also have "\<dots> = Z * Z * (Z * Z) + d * (X * X * (Y * Y))" using e by (simp add: curve_ext_def algebra_simps)
  finally show ?thesis unfolding curve_proj_def .
qed

lemma curve_compl_ext: "curve_compl d X Y Z T \<Longrightarrow> curve_ext d (X * T) (Y * Z) (Z * T) (X * Y)"
  by (simp add: curve_compl_def curve_ext_def algebra_simps)

text \<open>Doubling.\<close>

lemma curve_dbl:
  assumes "curve_proj d X Y Z"
  shows "curve_compl d ((X + Y) * (X + Y) - (Y * Y + X * X)) (Y * Y + X * X) (Y * Y - X * X) (2 * (Z * Z) - (Y * Y - X * X))"
proof -
  define s u v z where "s = Y * Y + X * X" and "u = Y * Y - X * X" and "v = X * Y" and "z = Z * Z"
  have suv: "s * s = u * u + 4 * (v * v)" unfolding s_def u_def v_def by (simp add: algebra_simps)
  have c: "u * z = z * z + d * (v * v)" using assms unfolding curve_proj_def u_def v_def z_def by (simp add: algebra_simps)
  have x: "(X + Y) * (X + Y) - s = 2 * v" unfolding s_def v_def by (simp add: algebra_simps)
  have "s * s * (u * u) - 2 * v * (2 * v) * ((2 * z - u) * (2 * z - u)) =
      u * u * ((2 * z - u) * (2 * z - u)) + d * (2 * v * (2 * v) * (s * s)) +
      4 * (s * s) * (u * z - z * z - d * (v * v)) + (s * s - u * u - 4 * (v * v)) * ((2 * z - u) * (2 * z - u))"
    by (simp add: algebra_simps)
  then show ?thesis
    unfolding curve_compl_def s_def [symmetric] x u_def [symmetric] z_def [symmetric] using suv c by simp
qed

text \<open>Addition, from the values the formulas compute: half the coordinates are \<open>N1\<close>, \<open>N2\<close>, \<open>G + e\<close> and \<open>G - e\<close>.\<close>

lemma curve_add_half:
  assumes "curve_ext d X1 Y1 Z1 T1" "curve_ext d X2 Y2 Z2 T2"
  defines "N1 \<equiv> X1 * Y2 + Y1 * X2" and "N2 \<equiv> Y1 * Y2 + X1 * X2" and "G \<equiv> Z1 * Z2" and "e \<equiv> d * (T1 * T2)"
  shows "curve_compl d N1 N2 (G + e) (G - e)"
proof -
  define u1 u2 s1 s2 v1 v2 where "u1 = Y1 * Y1 - X1 * X1" and "u2 = Y2 * Y2 - X2 * X2" and "s1 = Y1 * Y1 + X1 * X1"
    and "s2 = Y2 * Y2 + X2 * X2" and "v1 = X1 * Y1" and "v2 = X2 * Y2"
  define z1 z2 where "z1 = Z1 * Z1" and "z2 = Z2 * Z2"
  have diff: "N2 * N2 - N1 * N1 = u1 * u2" unfolding N1_def N2_def u1_def u2_def by (simp add: algebra_simps)
  have sum: "N2 * N2 + N1 * N1 = s1 * s2 + 4 * (v1 * v2)"
    unfolding N1_def N2_def s1_def s2_def v1_def v2_def by (simp add: algebra_simps)
  have prod: "N1 * N2 = v1 * s2 + v2 * s1" unfolding N1_def N2_def s1_def s2_def v1_def v2_def by (simp add: algebra_simps)
  have sq: "s1 * s1 = u1 * u1 + 4 * (v1 * v1)" "s2 * s2 = u2 * u2 + 4 * (v2 * v2)"
    unfolding s1_def s2_def u1_def u2_def v1_def v2_def by (simp_all add: algebra_simps)
  have v: "v1 = T1 * Z1" "v2 = T2 * Z2" using assms(1,2) by (simp_all add: curve_ext_def v1_def v2_def)
  have t: "d * (T1 * T1) = u1 - z1" "d * (T2 * T2) = u2 - z2"
    using assms(1,2) by (simp_all add: curve_ext_def u1_def u2_def z1_def z2_def)
  have Ge: "G * e = d * (v1 * v2)" unfolding G_def e_def v by (simp add: algebra_simps)
  have GG: "G * G = z1 * z2" unfolding G_def z1_def z2_def by (simp add: algebra_simps)
  have "e * e = (d * (T1 * T1)) * (d * (T2 * T2))" unfolding e_def by (simp add: algebra_simps)
  then have ee: "e * e = (u1 - z1) * (u2 - z2)" unfolding t .
  have "d * (v1 * v1) = (d * (T1 * T1)) * z1" "d * (v2 * v2) = (d * (T2 * T2)) * z2"
    unfolding v z1_def z2_def by (simp_all add: algebra_simps)
  then have dv: "d * (v1 * v1) = (u1 - z1) * z1" "d * (v2 * v2) = (u2 - z2) * z2" unfolding t .
  have "N2 * N2 * ((G + e) * (G + e)) - N1 * N1 * ((G - e) * (G - e)) =
      (N2 * N2 - N1 * N1) * (G * G + e * e) + 2 * (G * e) * (N2 * N2 + N1 * N1)" by (simp add: algebra_simps)
  also have "\<dots> = u1 * u2 * (z1 * z2 + (u1 - z1) * (u2 - z2)) + 2 * (d * (v1 * v2)) * (s1 * s2 + 4 * (v1 * v2))"
    unfolding diff sum GG ee Ge ..
  finally have L: "N2 * N2 * ((G + e) * (G + e)) - N1 * N1 * ((G - e) * (G - e)) =
      u1 * u2 * (z1 * z2 + (u1 - z1) * (u2 - z2)) + 2 * (d * (v1 * v2)) * (s1 * s2 + 4 * (v1 * v2))" .
  have "(G + e) * (G + e) * ((G - e) * (G - e)) = (G * G - e * e) * (G * G - e * e)" by (simp add: algebra_simps)
  then have R1: "(G + e) * (G + e) * ((G - e) * (G - e)) =
      (z1 * z2 - (u1 - z1) * (u2 - z2)) * (z1 * z2 - (u1 - z1) * (u2 - z2))" unfolding GG ee .
  have "d * (N1 * N1 * (N2 * N2)) = d * ((N1 * N2) * (N1 * N2))" by (simp add: algebra_simps)
  also have "\<dots> = (d * (v1 * v1)) * (s2 * s2) + (d * (v2 * v2)) * (s1 * s1) + 2 * (d * (v1 * v2)) * (s1 * s2)"
    unfolding prod by (simp add: algebra_simps)
  also have "\<dots> = (d * (v1 * v1)) * (u2 * u2) + (d * (v2 * v2)) * (u1 * u1) + 8 * (d * (v1 * v2)) * (v1 * v2) +
      2 * (d * (v1 * v2)) * (s1 * s2)"
    unfolding sq by (simp add: algebra_simps)
  finally have R2: "d * (N1 * N1 * (N2 * N2)) = (u1 - z1) * z1 * (u2 * u2) + (u2 - z2) * z2 * (u1 * u1) +
      8 * (d * (v1 * v2)) * (v1 * v2) + 2 * (d * (v1 * v2)) * (s1 * s2)" unfolding dv .
  show ?thesis unfolding curve_compl_def L R1 R2 by (simp add: algebra_simps)
qed

end
