(* ===== verification/GroupMult.thy ===== *)
theory GroupMult
  imports Group25519
begin

unbundle bit_operations_syntax

text \<open>
  The scalar multiplications of \<open>src/crypto/crypto-ops.c\<close>: the constant time table lookups, the signed digits of
  \<open>ge_scalarmult\<close> and \<open>ge_scalarmult_base\<close>, the sliding window recoding \<open>slide\<close>, and what the multiplications compute.
  The definitions are in \<open>Group25519\<close>; a multiplication is correct when the point it returns is reached by the addition
  law and stands for the combination of its arguments with the scalars' values as coefficients.
\<close>

subsection \<open>Constant time selection\<close>

lemma equal_ct_correct: "equal_ct b c = (if b = c then 1 else 0)"
proof (cases "b = c")
  case True
  then show ?thesis by (simp add: equal_ct_def)
next
  case False
  then have "b XOR c \<noteq> 0" by (metis xor.assoc xor.right_neutral xor_self_eq)
  define y :: u32 where "y = ucast (b XOR c)"
  have lt: "uint (b XOR c) < 256" using unsigned_less [of "b XOR c", where 'a = int] by simp
  have "uint y = uint (b XOR c)" using lt by (simp add: y_def unsigned_ucast_eq take_bit_int_eq_self_iff)
  then have "0 < uint y" "uint y < 256" using \<open>b XOR c \<noteq> 0\<close> lt uint_ge_0 [of "b XOR c"]
    by (simp_all add: unsigned_eq_0_iff less_le)
  then have u: "uint (y - 1) = uint y - 1" by (simp add: uint_word_ariths)
  have "uint (drop_bit 31 (y - 1)) = 0" using \<open>0 < uint y\<close> \<open>uint y < 256\<close> unfolding unsigned_drop_bit_eq u
    by (simp add: drop_bit_eq_div take_bit_eq_mod)
  then have "drop_bit 31 (y - 1) = 0" by (simp add: unsigned_eq_0_iff)
  then show ?thesis using False by (simp add: equal_ct_def Let_def y_def [symmetric])
qed

lemma negative_correct:
  assumes "- 128 \<le> b" "b < 128"
  shows "negative b = (if b < 0 then 1 else 0)"
proof -
  have "uint (drop_bit 63 (of_int b :: u64)) = (b mod 2 ^ 64) div 2 ^ 63"
    unfolding unsigned_drop_bit_eq by (simp add: unsigned_of_int drop_bit_eq_div take_bit_eq_mod)
  moreover have "b mod 2 ^ 64 = (if b < 0 then b + 2 ^ 64 else b)"
  proof (cases "b < 0")
    case True
    then have "(b + 2 ^ 64) mod 2 ^ 64 = b + 2 ^ 64" using assms by (intro mod_pos_pos_trivial) simp_all
    then show ?thesis using True by simp
  qed (use assms in simp)
  moreover have "(b + 2 ^ 64) div 2 ^ 63 = 1" if "b < 0" using assms that by (intro int_div_pos_eq [where r = "b + 2 ^ 63"]) simp_all
  ultimately have "uint (drop_bit 63 (of_int b :: u64)) = (if b < 0 then 1 else 0)" using assms by simp
  then have "drop_bit 63 (of_int b :: u64) = (if b < 0 then 1 else 0)" by (metis uint_0_eq uint_1_eq word_uint_eqI)
  then show ?thesis by (simp add: negative_def)
qed

lemma babs_correct:
  assumes "- 128 \<le> b" "b < 128"
  shows "babs b = of_int \<bar>b\<bar>"
  by (simp add: babs_def negative_correct [OF assms] push_bit_eq_mult del: push_bit_and)

lemma babs_eq:
  assumes "- 8 \<le> b" "b \<le> 8" "j < 8"
  shows "babs b = of_nat (Suc j) \<longleftrightarrow> \<bar>b\<bar> = int (Suc j)"
proof -
  have "uint (of_int \<bar>b\<bar> :: u8) = \<bar>b\<bar>" using assms by (simp add: unsigned_of_int take_bit_int_eq_self_iff)
  moreover have "uint (of_nat (Suc j) :: u8) = int (Suc j)" using assms(3)
    by (simp add: unsigned_of_nat take_bit_nat_eq_self_iff del: of_nat_Suc)
  moreover have "babs b = of_int \<bar>b\<bar>" using assms by (intro babs_correct) simp_all
  ultimately show ?thesis by (simp only: word_uint_eq_iff)
qed

text \<open>A loop of conditional moves keeps the last entry whose flag is set.\<close>

lemma cmov_loop:
  assumes step: "\<And>t j. j < n \<Longrightarrow> ok t \<Longrightarrow> f j t = Some (if c = int (Suc j) then g j else t)"
    and ok: "ok t0" "\<And>j. j < n \<Longrightarrow> ok (g j)" and c: "0 \<le> c" "c \<le> int n"
  shows "opt_fold f [0..<n] t0 = Some (if c = 0 then t0 else g (nat (c - 1)))"
proof -
  have "opt_fold f [0..<k] t0 = Some (if 0 < c \<and> c \<le> int k then g (nat (c - 1)) else t0)" if "k \<le> n" for k
    using that
  proof (induction k)
    case (Suc k)
    then have IH: "opt_fold f [0..<k] t0 = Some (if 0 < c \<and> c \<le> int k then g (nat (c - 1)) else t0)" by simp
    have k: "k < n" using Suc.prems by simp
    have "ok (if 0 < c \<and> c \<le> int k then g (nat (c - 1)) else t0)" using ok k by auto
    from step [OF k this] show ?case by (auto simp: opt_fold_append IH)
  qed (use c in auto)
  from this [of n] show ?thesis using c by (cases "c = 0") simp_all
qed

text \<open>Ten limbs in every coordinate, which the conditional move relies on, and the entry for a digit.\<close>

definition cached_len :: "ge_cached \<Rightarrow> bool" where
  "cached_len q \<longleftrightarrow> length (YplusX q) = 10 \<and> length (YminusX q) = 10 \<and> length (cached_Z q) = 10 \<and> length (T2d q) = 10"

definition cached_neg :: "ge_cached \<Rightarrow> ge_cached" where
  "cached_neg q = \<lparr>YplusX = YminusX q, YminusX = YplusX q, cached_Z = cached_Z q, T2d = fe_neg (T2d q)\<rparr>"

definition cached_digit :: "ge_cached list \<Rightarrow> int \<Rightarrow> ge_cached" where
  "cached_digit Ai b = (let t = (if b = 0 then ge_cached_0 else Ai ! nat (\<bar>b\<bar> - 1)) in if b < 0 then cached_neg t else t)"

definition precomp_len :: "ge_precomp \<Rightarrow> bool" where
  "precomp_len q \<longleftrightarrow> length (yplusx q) = 10 \<and> length (yminusx q) = 10 \<and> length (xy2d q) = 10"

definition precomp_neg :: "ge_precomp \<Rightarrow> ge_precomp" where
  "precomp_neg q = \<lparr>yplusx = yminusx q, yminusx = yplusx q, xy2d = fe_neg (xy2d q)\<rparr>"

definition precomp_digit :: "ge_precomp list \<Rightarrow> int \<Rightarrow> ge_precomp" where
  "precomp_digit row b = (let t = (if b = 0 then ge_precomp_0 else row ! nat (\<bar>b\<bar> - 1)) in if b < 0 then precomp_neg t else t)"

lemma length_fe_neg: "length (fe_neg f) = length f" by (simp add: fe_neg_def)

lemma cached_cmov:
  assumes "cached_len t" "cached_len u"
  shows "ge_cached_cmov t u (if c then 1 else 0) = Some (if c then u else t)"
  using assms by (simp add: ge_cached_cmov_def cached_len_def fe_cmov_correct)

lemma precomp_cmov:
  assumes "precomp_len t" "precomp_len u"
  shows "ge_precomp_cmov t u (if c then 1 else 0) = Some (if c then u else t)"
  using assms by (simp add: ge_precomp_cmov_def precomp_len_def fe_cmov_correct)

lemma cached_len_0: "cached_len ge_cached_0"
  by (simp add: cached_len_def ge_cached_0_def fe_0_def fe_1_def)

lemma precomp_len_0: "precomp_len ge_precomp_0"
  by (simp add: precomp_len_def ge_precomp_0_def fe_0_def fe_1_def)

lemma select_cached_correct:
  assumes "length Ai = 8" "\<And>q. q \<in> set Ai \<Longrightarrow> cached_len q" "- 8 \<le> b" "b \<le> 8"
  shows "select_cached Ai b = Some (cached_digit Ai b)"
proof -
  have len: "cached_len (Ai ! j)" if "j < 8" for j using assms that by simp
  have "opt_fold (\<lambda>j t. ge_cached_cmov t (Ai ! j) (equal_ct (babs b) (of_nat (Suc j)))) [0..<8] ge_cached_0 =
      Some (if \<bar>b\<bar> = 0 then ge_cached_0 else Ai ! nat (\<bar>b\<bar> - 1))"
  proof (rule cmov_loop [where ok = cached_len])
    fix t j assume j: "j < (8 :: nat)" and t: "cached_len t"
    show "ge_cached_cmov t (Ai ! j) (equal_ct (babs b) (of_nat (Suc j))) = Some (if \<bar>b\<bar> = int (Suc j) then Ai ! j else t)"
      unfolding equal_ct_correct babs_eq [OF assms(3,4) j] by (rule cached_cmov [OF t len [OF j]])
  qed (use assms len cached_len_0 in simp_all)
  moreover define t where "t = (if b = 0 then ge_cached_0 else Ai ! nat (\<bar>b\<bar> - 1))"
  ultimately have r: "opt_fold (\<lambda>j t. ge_cached_cmov t (Ai ! j) (equal_ct (babs b) (of_nat (Suc j)))) [0..<8] ge_cached_0 = Some t"
    by (simp only: abs_eq_0_iff)
  have "nat (\<bar>b\<bar> - 1) < 8" using assms by linarith
  then have t: "cached_len t" using cached_len_0 len by (simp add: t_def)
  then have t': "cached_len (cached_neg t)" by (simp add: cached_len_def cached_neg_def length_fe_neg)
  have n: "negative b = (if b < 0 then 1 else 0)" using assms by (intro negative_correct) simp_all
  show ?thesis unfolding select_cached_def r n using cached_cmov [OF t t', of "b < 0"]
    by (simp add: cached_neg_def fe_copy_def cached_digit_def Let_def t_def [symmetric])
qed

lemma select_base_correct:
  assumes "length row = 8" "\<And>q. q \<in> set row \<Longrightarrow> precomp_len q" "- 8 \<le> b" "b \<le> 8"
  shows "select_base row b = Some (precomp_digit row b)"
proof -
  have len: "precomp_len (row ! j)" if "j < 8" for j using assms that by simp
  have "opt_fold (\<lambda>j t. ge_precomp_cmov t (row ! j) (equal_ct (babs b) (of_nat (Suc j)))) [0..<8] ge_precomp_0 =
      Some (if \<bar>b\<bar> = 0 then ge_precomp_0 else row ! nat (\<bar>b\<bar> - 1))"
  proof (rule cmov_loop [where ok = precomp_len])
    fix t j assume j: "j < (8 :: nat)" and t: "precomp_len t"
    show "ge_precomp_cmov t (row ! j) (equal_ct (babs b) (of_nat (Suc j))) = Some (if \<bar>b\<bar> = int (Suc j) then row ! j else t)"
      unfolding equal_ct_correct babs_eq [OF assms(3,4) j] by (rule precomp_cmov [OF t len [OF j]])
  qed (use assms len precomp_len_0 in simp_all)
  moreover define t where "t = (if b = 0 then ge_precomp_0 else row ! nat (\<bar>b\<bar> - 1))"
  ultimately have r: "opt_fold (\<lambda>j t. ge_precomp_cmov t (row ! j) (equal_ct (babs b) (of_nat (Suc j)))) [0..<8] ge_precomp_0 = Some t"
    by (simp only: abs_eq_0_iff)
  have "nat (\<bar>b\<bar> - 1) < 8" using assms by linarith
  then have t: "precomp_len t" using precomp_len_0 len by (simp add: t_def)
  then have t': "precomp_len (precomp_neg t)" by (simp add: precomp_len_def precomp_neg_def length_fe_neg)
  have n: "negative b = (if b < 0 then 1 else 0)" using assms by (intro negative_correct) simp_all
  show ?thesis unfolding select_base_def r n using precomp_cmov [OF t t', of "b < 0"]
    by (simp add: precomp_neg_def fe_copy_def precomp_digit_def Let_def t_def [symmetric])
qed

subsection \<open>Signed digits\<close>

lemma i8_id: "- 128 \<le> x \<Longrightarrow> x < 128 \<Longrightarrow> i8 x = x"
  by (simp add: i8_def signed_take_bit_int_eq_self_iff)

text \<open>Rounding to a multiple of 16 leaves a digit between -8 and 7.\<close>

lemma round16:
  fixes x :: int
  obtains q r where "drop_bit 4 (x + 8) = q" "x = 16 * q + r" "- 8 \<le> r" "r < 8" "x - push_bit 4 q = r"
proof -
  define q where "q = (x + 8) div 16"
  have "x + 8 = 16 * q + (x + 8) mod 16" unfolding q_def by (simp add: mult.commute)
  moreover have "0 \<le> (x + 8) mod 16" "(x + 8) mod 16 < 16" by simp_all
  ultimately show thesis by (intro that [of q "x - 16 * q"]) (simp_all add: drop_bit_eq_div push_bit_eq_mult q_def)
qed

abbreviation horner :: "int \<Rightarrow> int list \<Rightarrow> int" where "horner \<equiv> horner_sum (\<lambda>x. x)"

lemma horner_snoc2: "horner 16 (e @ [x, y]) = horner 16 e + 16 ^ length e * (x + 16 * y)"
  by (simp add: horner_sum_append)

text \<open>The pairs of digits of \<open>ge_scalarmult\<close> after some bytes.\<close>

lemma scalarmult_pair_spec:
  assumes "\<forall>x \<in> set xs. 0 \<le> x \<and> x < 256"
  shows "\<exists>carry e. fold scalarmult_pair xs (0, []) = (carry, e) \<and> (carry = 0 \<or> carry = 1) \<and> length e = 2 * length xs \<and>
    (\<forall>d \<in> set e. - 8 \<le> d \<and> d < 8) \<and> horner 16 e + 16 ^ length e * carry = horner 256 xs"
  using assms
proof (induction xs rule: rev_induct)
  case (snoc x xs)
  then obtain carry e where IH: "fold scalarmult_pair xs (0, []) = (carry, e)" "carry = 0 \<or> carry = 1" "length e = 2 * length xs"
    "\<forall>d \<in> set e. - 8 \<le> d \<and> d < 8" "horner 16 e + 16 ^ length e * carry = horner 256 xs" by auto
  have x: "0 \<le> x" "x < 256" using snoc.prems by auto
  obtain q r where q: "drop_bit 4 (carry + x + 8) = q" "carry + x = 16 * q + r" "- 8 \<le> r" "r < 8" "carry + x - push_bit 4 q = r"
    by (rule round16)
  obtain q' r' where q': "drop_bit 4 (q + 8) = q'" "q = 16 * q' + r'" "- 8 \<le> r'" "r' < 8" "q - push_bit 4 q' = r'"
    by (rule round16)
  have f: "fold scalarmult_pair (xs @ [x]) (0, []) = (q', e @ [r, r'])"
    using q(3,4) q'(3,4) by (simp add: IH(1) scalarmult_pair_def Let_def q(1,5) q'(1,5) i8_id)
  have "q' = 0 \<or> q' = 1" using IH(2) x q(2-4) q'(2-4) by auto
  moreover have "horner 16 (e @ [r, r']) + 16 ^ length (e @ [r, r']) * q' = horner 256 (xs @ [x])"
  proof -
    have "horner 16 (e @ [r, r']) + 16 ^ length (e @ [r, r']) * q' =
        horner 16 e + 16 ^ length e * (r + 16 * (r' + 16 * q'))" by (simp add: horner_snoc2 algebra_simps)
    also have "r + 16 * (r' + 16 * q') = carry + x" using q(2) q'(2) by simp
    also have "horner 16 e + 16 ^ length e * (carry + x) = horner 256 xs + 16 ^ length e * x"
      by (simp add: IH(5) [symmetric] algebra_simps)
    also have "(16 :: int) ^ length e = 256 ^ length xs" by (simp add: IH(3) power_mult)
    finally show ?thesis by (simp add: horner_sum_append)
  qed
  ultimately show ?case unfolding f using IH(3,4) q(3,4) q'(3,4) by auto
qed simp

lemma sc_val_horner: "sc_val a = horner 256 (map uint a)"
  by (induction a) simp_all

lemma uint_u8: "0 \<le> uint (x :: u8) \<and> uint x < 256"
  using unsigned_less [of x, where 'a = int] by simp

definition signed_digits :: "int list \<Rightarrow> bool" where
  "signed_digits e \<longleftrightarrow> length e = 64 \<and> (\<forall>d \<in> set e. - 8 \<le> d \<and> d \<le> 8)"

lemma scalarmult_digits_correct:
  assumes "length a = 32" "a ! 31 \<le> 127"
  shows "signed_digits (scalarmult_digits a) \<and> horner 16 (scalarmult_digits a) = sc_val a"
proof -
  have a: "a = take 31 a @ [a ! 31]" using take_Suc_conv_app_nth [of 31 a] assms(1) by simp
  obtain carry e where e: "fold scalarmult_pair (map uint (take 31 a)) (0, []) = (carry, e)" "carry = 0 \<or> carry = 1"
    "length e = 62" "\<forall>d \<in> set e. - 8 \<le> d \<and> d < 8"
    "horner 16 e + 16 ^ length e * carry = horner 256 (map uint (take 31 a))"
  proof -
    have l: "length (map uint (take 31 a)) = 31" and r: "\<forall>x \<in> set (map uint (take 31 a)). 0 \<le> x \<and> x < 256"
      using assms(1) uint_u8 by auto
    from scalarmult_pair_spec [of "map uint (take 31 a)", OF r] show thesis unfolding l by (elim exE conjE) (rule that, (assumption | simp)+)
  qed
  have t: "0 \<le> uint (a ! 31)" "uint (a ! 31) \<le> 127" using assms(2) by (simp_all add: word_le_def)
  obtain q r where q: "drop_bit 4 (carry + uint (a ! 31) + 8) = q" "carry + uint (a ! 31) = 16 * q + r" "- 8 \<le> r" "r < 8"
      "carry + uint (a ! 31) - push_bit 4 q = r" by (rule round16)
  have "0 \<le> carry" "carry \<le> 1" using e(2) by auto
  then have "0 \<le> q" "q \<le> 8" using t q(2-4) by linarith+
  then have d: "scalarmult_digits a = e @ [r, q]" using q(3,4)
    by (simp add: scalarmult_digits_def e(1) Let_def q(1,5) i8_id)
  have "horner 16 (e @ [r, q]) = horner 16 e + 16 ^ length e * (carry + uint (a ! 31))" using q(2) by (simp add: horner_snoc2)
  also have "\<dots> = horner 256 (map uint (take 31 a)) + 16 ^ length e * uint (a ! 31)" by (simp add: e(5) [symmetric] algebra_simps)
  also have "\<dots> = horner 256 (map uint (take 31 a @ [a ! 31]))" using assms(1) by (simp add: e(3) horner_sum_append)
  finally have "horner 16 (scalarmult_digits a) = sc_val a" unfolding d a [symmetric] sc_val_horner .
  then show ?thesis using e(3,4) q(3,4) \<open>0 \<le> q\<close> \<open>q \<le> 8\<close> unfolding d signed_digits_def by auto
qed

lemma base_carry_spec:
  assumes "\<forall>x \<in> set xs. 0 \<le> x \<and> x < 16"
  shows "\<exists>carry e. fold base_carry xs (0, []) = (carry, e) \<and> (carry = 0 \<or> carry = 1) \<and> length e = length xs \<and>
    (\<forall>d \<in> set e. - 8 \<le> d \<and> d < 8) \<and> horner 16 e + 16 ^ length e * carry = horner 16 xs"
  using assms
proof (induction xs rule: rev_induct)
  case (snoc x xs)
  then obtain carry e where IH: "fold base_carry xs (0, []) = (carry, e)" "carry = 0 \<or> carry = 1" "length e = length xs"
    "\<forall>d \<in> set e. - 8 \<le> d \<and> d < 8" "horner 16 e + 16 ^ length e * carry = horner 16 xs" by auto
  have x: "0 \<le> x" "x < 16" using snoc.prems by auto
  obtain q r where q: "drop_bit 4 (x + carry + 8) = q" "x + carry = 16 * q + r" "- 8 \<le> r" "r < 8" "x + carry - push_bit 4 q = r"
    by (rule round16)
  have "i8 (x + carry) = x + carry" "i8 (x + carry + 8) = x + carry + 8" "i8 r = r"
    using IH(2) x q(3,4) by (auto intro!: i8_id)
  then have f: "fold base_carry (xs @ [x]) (0, []) = (q, e @ [r])" by (simp add: IH(1) base_carry_def Let_def q(1,5))
  have "q = 0 \<or> q = 1" using IH(2) x q(2-4) by auto
  moreover have "horner 16 (e @ [r]) + 16 ^ length (e @ [r]) * q = horner 16 (xs @ [x])"
  proof -
    have "horner 16 (e @ [r]) + 16 ^ length (e @ [r]) * q = horner 16 e + 16 ^ length e * (r + 16 * q)"
      by (simp add: horner_sum_append algebra_simps)
    also have "r + 16 * q = x + carry" using q(2) by simp
    also have "horner 16 e + 16 ^ length e * (x + carry) = horner 16 xs + 16 ^ length e * x"
      by (simp add: IH(5) [symmetric] algebra_simps)
    finally show ?thesis by (simp add: horner_sum_append IH(3))
  qed
  ultimately show ?case unfolding f using IH(3,4) q(3,4) by auto
qed simp

lemma nibbles:
  fixes x :: u8
  shows "uint x = uint (x AND 15) + 16 * uint (drop_bit 4 x AND 15)" "uint (x AND 15) < 16" "uint (drop_bit 4 x AND 15) < 16"
    "uint (drop_bit 4 x AND 15) = uint x div 16"
proof -
  have m: "y AND 15 = take_bit 4 y" for y :: u8 by (simp add: take_bit_eq_mask mask_eq_exp_minus_1)
  have lo: "uint (x AND 15) = uint x mod 16" unfolding m unsigned_take_bit_eq by (simp add: take_bit_eq_mod)
  have x: "0 \<le> uint x div 16" "uint x div 16 < 16" using uint_u8 [of x] by (simp_all add: pos_imp_zdiv_nonneg_iff div_less_iff_less_mult)
  have "uint (drop_bit 4 x AND 15) = (uint x div 16) mod 16"
    using uint_u8 [of x] unfolding m unsigned_take_bit_eq unsigned_drop_bit_eq by (simp add: drop_bit_eq_div take_bit_eq_mod)
  then have hi: "uint (drop_bit 4 x AND 15) = uint x div 16" unfolding mod_pos_pos_trivial [OF x] .
  show "uint x = uint (x AND 15) + 16 * uint (drop_bit 4 x AND 15)" "uint (x AND 15) < 16" "uint (drop_bit 4 x AND 15) < 16"
    "uint (drop_bit 4 x AND 15) = uint x div 16"
    unfolding lo hi using x by simp_all
qed

lemma base_nibbles_horner:
  "horner 16 (concat (map (\<lambda>x :: u8. [uint (x AND 15), uint (drop_bit 4 x AND 15)]) xs)) = horner 256 (map uint xs)"
  by (induction xs) (simp_all add: nibbles(1) [symmetric] distrib_left)

lemma base_nibbles_range: "x \<in> set (base_nibbles a) \<Longrightarrow> 0 \<le> x \<and> x < 16"
proof -
  assume "x \<in> set (base_nibbles a)"
  then obtain y :: u8 where "x = uint (y AND 15) \<or> x = uint (drop_bit 4 y AND 15)" by (auto simp: base_nibbles_def)
  then show ?thesis using nibbles(2,3) [of y] by auto
qed

lemma length_base_nibbles: "length a = 32 \<Longrightarrow> length (base_nibbles a) = 64"
  by (simp add: base_nibbles_def length_concat comp_def sum_list_triv)

lemma div_numeral_127: "127 div 16 = (7 :: int)" by simp

lemma base_digits_correct:
  assumes "length a = 32" "a ! 31 \<le> 127"
  shows "signed_digits (base_digits a) \<and> horner 16 (base_digits a) = sc_val a"
proof -
  define n where "n = base_nibbles a"
  have ln: "length n = 64" using assms(1) by (simp add: n_def length_base_nibbles)
  then have n: "n = take 63 n @ [n ! 63]" using take_Suc_conv_app_nth [of 63 n] by simp
  have hn: "horner 16 n = sc_val a" using assms(1) by (simp add: n_def base_nibbles_def base_nibbles_horner sc_val_horner)
  obtain carry e where e: "fold base_carry (take 63 n) (0, []) = (carry, e)" "carry = 0 \<or> carry = 1" "length e = 63"
    "\<forall>d \<in> set e. - 8 \<le> d \<and> d < 8" "horner 16 e + 16 ^ length e * carry = horner 16 (take 63 n)"
  proof -
    have l: "length (take 63 n) = 63" and r: "\<forall>x \<in> set (take 63 n). 0 \<le> x \<and> x < 16"
      using ln base_nibbles_range in_set_takeD [of _ 63 n] unfolding n_def by auto
    from base_carry_spec [of "take 63 n", OF r] show thesis unfolding l by (elim exE conjE) (rule that, (assumption | simp)+)
  qed
  have top: "0 \<le> n ! 63 \<and> n ! 63 \<le> 7"
  proof -
    have "a = take 31 a @ [a ! 31]" using take_Suc_conv_app_nth [of 31 a] assms(1) by simp
    then have "n = base_nibbles (take 31 a @ [a ! 31])" by (simp only: n_def)
    then have "n = base_nibbles (take 31 a) @ [uint (a ! 31 AND 15), uint (drop_bit 4 (a ! 31) AND 15)]"
      using assms(1) by (simp add: base_nibbles_def)
    moreover have "length (base_nibbles (take 31 a)) = 62"
      using assms(1) by (simp add: base_nibbles_def length_concat comp_def sum_list_triv)
    ultimately have "n ! 63 = uint (a ! 31) div 16" using nibbles(4) [of "a ! 31"] by (simp add: nth_append)
    moreover have "uint (a ! 31) \<le> 127" "0 \<le> uint (a ! 31)" using assms(2) by (simp_all add: word_le_def)
    ultimately show ?thesis by (metis pos_imp_zdiv_nonneg_iff zdiv_mono1 zero_less_numeral div_numeral_127)
  qed
  have d: "base_digits a = e @ [n ! 63 + carry]" using top e(2)
    by (auto simp: base_digits_def n_def [symmetric] Let_def e(1) intro!: i8_id)
  have "horner 16 (e @ [n ! 63 + carry]) = horner 16 (take 63 n) + 16 ^ length e * n ! 63"
    by (simp add: horner_sum_append e(5) [symmetric] distrib_left)
  also have "\<dots> = horner 16 (take 63 n @ [n ! 63])" using ln by (simp add: e(3) horner_sum_append)
  finally have "horner 16 (base_digits a) = sc_val a" unfolding d n [symmetric] hn .
  then show ?thesis using e(2,3,4) top unfolding d signed_digits_def by auto
qed

subsection \<open>Combinations of points\<close>

text \<open>
  What a scalar multiplication computes: a point reached from given points by the addition law, with the combination it
  stands for.  The points \<open>G\<close> come with labels in a commutative ring; a sum of points has the sum of their labels.
  Multiplication of the coordinates by a unit does not change the point.
\<close>

inductive curve_comb :: "('g::comm_ring_1 \<times> fq \<times> fq \<times> fq) set \<Rightarrow> 'g \<Rightarrow> fq \<Rightarrow> fq \<Rightarrow> fq \<Rightarrow> bool"
  for G :: "('g \<times> fq \<times> fq \<times> fq) set" where
  comb_zero: "curve_comb G 0 0 1 1"
| comb_gen: "(g, X, Y, Z) \<in> G \<Longrightarrow> curve_comb G g X Y Z"
| comb_neg: "curve_comb G g X Y Z \<Longrightarrow> curve_comb G (- g) (- X) Y Z"
| comb_scale: "curve_comb G g X Y Z \<Longrightarrow> c * c' = 1 \<Longrightarrow> curve_comb G g (c * X) (c * Y) (c * Z)"
| comb_add: "curve_comb G g X1 Y1 Z1 \<Longrightarrow> curve_comb G h X2 Y2 Z2 \<Longrightarrow> curve_ext dq X1 Y1 Z1 T1 \<Longrightarrow> curve_ext dq X2 Y2 Z2 T2 \<Longrightarrow>
    curve_comb G (g + h)
      ((X1 * Y2 + Y1 * X2) * (Z1 * Z2 - dq * (T1 * T2)))
      ((Y1 * Y2 + X1 * X2) * (Z1 * Z2 + dq * (T1 * T2)))
      ((Z1 * Z2 + dq * (T1 * T2)) * (Z1 * Z2 - dq * (T1 * T2)))"
| comb_dbl: "curve_comb G g X Y Z \<Longrightarrow> curve_proj dq X Y Z \<Longrightarrow>
    curve_comb G (g + g)
      (2 * (X * Y) * (2 * (Z * Z) - (Y * Y - X * X)))
      ((Y * Y + X * X) * (Y * Y - X * X))
      ((Y * Y - X * X) * (2 * (Z * Z) - (Y * Y - X * X)))"

definition p2_is :: "('g::comm_ring_1 \<times> fq \<times> fq \<times> fq) set \<Rightarrow> 'g \<Rightarrow> ge_p2 \<Rightarrow> bool" where
  "p2_is G g p \<longleftrightarrow> p2_ok p \<and> curve_comb G g (fe_fq (p2_X p)) (fe_fq (p2_Y p)) (fe_fq (p2_Z p))"

definition p3_is :: "('g::comm_ring_1 \<times> fq \<times> fq \<times> fq) set \<Rightarrow> 'g \<Rightarrow> ge_p3 \<Rightarrow> bool" where
  "p3_is G g p \<longleftrightarrow> p3_ok p \<and> curve_comb G g (fe_fq (p3_X p)) (fe_fq (p3_Y p)) (fe_fq (p3_Z p))"

definition p1p1_is :: "('g::comm_ring_1 \<times> fq \<times> fq \<times> fq) set \<Rightarrow> 'g \<Rightarrow> ge_p1p1 \<Rightarrow> bool" where
  "p1p1_is G g p \<longleftrightarrow> p1p1_ok p \<and>
    curve_comb G g (fe_fq (p1p1_X p) * fe_fq (p1p1_T p)) (fe_fq (p1p1_Y p) * fe_fq (p1p1_Z p)) (fe_fq (p1p1_Z p) * fe_fq (p1p1_T p))"

definition cached_is :: "('g::comm_ring_1 \<times> fq \<times> fq \<times> fq) set \<Rightarrow> 'g \<Rightarrow> ge_cached \<Rightarrow> bool" where
  "cached_is G g q \<longleftrightarrow> (\<exists>X Y Z T. cached_of q X Y Z T \<and> curve_ext dq X Y Z T \<and> curve_comb G g X Y Z)"

definition precomp_is :: "('g::comm_ring_1 \<times> fq \<times> fq \<times> fq) set \<Rightarrow> 'g \<Rightarrow> ge_precomp \<Rightarrow> bool" where
  "precomp_is G g q \<longleftrightarrow> (\<exists>x y. precomp_of q x y \<and> curve_ext dq x y 1 (x * y) \<and> curve_comb G g x y 1)"

lemma four_unit: "(4 :: fq) * of_int ((3 * fe_p + 1) div 4) = 1"
proof -
  have "(4 :: int) * ((3 * fe_p + 1) div 4) = 1 + fe_p * 3" by (simp add: fe_p_def)
  then have "(of_int (4 * ((3 * fe_p + 1) div 4)) :: fq) = of_int 1" by (simp only: fq_of_int_eq) simp
  then show ?thesis by simp
qed

lemma ge_p1p1_to_p3_is: "p1p1_is G g p \<Longrightarrow> p3_is G g (ge_p1p1_to_p3 p)"
  by (simp add: p1p1_is_def p3_is_def ge_p1p1_to_p3_ok)

lemma ge_p1p1_to_p2_is: "p1p1_is G g p \<Longrightarrow> p2_is G g (ge_p1p1_to_p2 p)"
  using p1p1_okD [of p] by (simp add: p1p1_is_def p2_is_def ge_p1p1_to_p2_ok) (simp add: ge_p1p1_to_p2_def fe_mul_fq)

lemma ge_p3_to_p2_is: "p3_is G g p \<Longrightarrow> p2_is G g (ge_p3_to_p2 p)"
  by (simp add: p3_is_def p2_is_def ge_p3_to_p2_ok) (simp add: ge_p3_to_p2_def fe_copy_def)

lemma ge_p3_to_cached_is: "p3_is G g p \<Longrightarrow> cached_is G g (ge_p3_to_cached p)"
  unfolding p3_is_def cached_is_def using ge_p3_to_cached_of p3_okD(5) by blast

lemma ge_0_is: "p2_is G 0 ge_p2_0" "p3_is G 0 ge_p3_0" "cached_is G 0 ge_cached_0" "precomp_is G 0 ge_precomp_0"
proof -
  have e: "curve_ext dq 0 1 1 0" "curve_ext dq 0 1 1 (0 * 1)" by (simp_all add: curve_ext_def)
  show "p2_is G 0 ge_p2_0" "p3_is G 0 ge_p3_0"
    using ge_0_ok comb_zero [of G] fe_consts_fq by (simp_all add: p2_is_def p3_is_def ge_p2_0_def ge_p3_0_def)
  show "cached_is G 0 ge_cached_0" "precomp_is G 0 ge_precomp_0"
    unfolding cached_is_def precomp_is_def using ge_0_ok comb_zero [of G] e by blast+
qed

lemma sum_of_is:
  assumes "sum_of r X1 Y1 Z1 T1 X2 Y2 Z2 T2" "curve_ext dq X1 Y1 Z1 T1" "curve_ext dq X2 Y2 Z2 T2"
    "curve_comb G g X1 Y1 Z1" "curve_comb G h X2 Y2 Z2"
  shows "p1p1_is G (g + h) r"
proof -
  have m: "2 * a * (2 * b) = 4 * (a * b)" for a b :: fq by simp
  have v: "fe_fq (p1p1_X r) * fe_fq (p1p1_T r) = 4 * ((X1 * Y2 + Y1 * X2) * (Z1 * Z2 - dq * (T1 * T2)))"
    "fe_fq (p1p1_Y r) * fe_fq (p1p1_Z r) = 4 * ((Y1 * Y2 + X1 * X2) * (Z1 * Z2 + dq * (T1 * T2)))"
    "fe_fq (p1p1_Z r) * fe_fq (p1p1_T r) = 4 * ((Z1 * Z2 + dq * (T1 * T2)) * (Z1 * Z2 - dq * (T1 * T2)))"
    using assms(1) unfolding sum_of_def by (simp_all only: m)
  show ?thesis unfolding p1p1_is_def v
    using sum_of_ok [OF assms(1-3)] comb_scale [OF comb_add [OF assms(4,5,2,3)] four_unit] by simp
qed

lemma ge_add_is: "p3_is G g p \<Longrightarrow> cached_is G h q \<Longrightarrow> p1p1_is G (g + h) (ge_add p q)"
  unfolding p3_is_def cached_is_def by (elim exE conjE) (rule sum_of_is [OF ge_add_sum(1) p3_okD(5)])

lemma ge_sub_is: "p3_is G g p \<Longrightarrow> cached_is G h q \<Longrightarrow> p1p1_is G (g + - h) (ge_sub p q)"
  unfolding p3_is_def cached_is_def by (elim exE conjE) (rule sum_of_is [OF ge_add_sum(2) p3_okD(5) curve_ext_neg _ comb_neg])

lemma ge_madd_is: "p3_is G g p \<Longrightarrow> precomp_is G h q \<Longrightarrow> p1p1_is G (g + h) (ge_madd p q)"
  unfolding p3_is_def precomp_is_def by (elim exE conjE) (rule sum_of_is [OF ge_madd_sum(1) p3_okD(5)])

lemma ge_msub_is: "p3_is G g p \<Longrightarrow> precomp_is G h q \<Longrightarrow> p1p1_is G (g + - h) (ge_msub p q)"
  unfolding p3_is_def precomp_is_def by (elim exE conjE) (rule sum_of_is [OF ge_madd_sum(2) p3_okD(5) curve_ext_neg _ comb_neg])

lemma ge_p2_dbl_is:
  assumes "p2_is G g p"
  shows "p1p1_is G (g + g) (ge_p2_dbl p)"
proof -
  have ok: "p2_ok p" using assms by (simp add: p2_is_def)
  have e: "(X + Y) * (X + Y) - (Y * Y + X * X) = 2 * (X * Y)" for X Y :: fq by (simp add: algebra_simps)
  show ?thesis unfolding p1p1_is_def
    using ge_p2_dbl_values [OF p2_ok_wide [OF ok], unfolded e] comb_dbl [of G g, OF _ p2_okD(4) [OF ok]] assms ge_p2_dbl_ok [OF ok]
    by (simp add: p2_is_def)
qed

lemma ge_p3_dbl_is: "p3_is G g p \<Longrightarrow> p1p1_is G (g + g) (ge_p3_dbl p)"
  unfolding ge_p3_dbl_def by (intro ge_p2_dbl_is ge_p3_to_p2_is)

lemma ge_mul8_is: "p2_is G g p \<Longrightarrow> p1p1_is G (8 * g) (ge_mul8 p)"
proof -
  assume p: "p2_is G g p"
  have "8 * g = ((g + g) + (g + g)) + ((g + g) + (g + g))" by (simp add: algebra_simps)
  then show ?thesis unfolding ge_mul8_def Let_def using p by (simp only:) (intro ge_p2_dbl_is ge_p1p1_to_p2_is)
qed

lemmas ge_is = ge_p1p1_to_p3_is ge_p1p1_to_p2_is ge_p3_to_p2_is ge_p3_to_cached_is ge_add_is ge_sub_is ge_madd_is ge_msub_is
  ge_p2_dbl_is ge_p3_dbl_is

subsection \<open>Scalar multiplication\<close>

lemma cached_is_len: "cached_is G g q \<Longrightarrow> cached_len q"
  by (auto simp: cached_is_def cached_of_def cached_len_def fe_bounded_def)

lemma cached_neg_is:
  assumes "cached_is G g q"
  shows "cached_is G (- g) (cached_neg q)"
proof -
  obtain X Y Z T where q: "cached_of q X Y Z T" "curve_ext dq X Y Z T" "curve_comb G g X Y Z" using assms by (auto simp: cached_is_def)
  have "cached_of (cached_neg q) (- X) Y Z (- T)"
    using q(1) fe_neg_fq [of fe_out_bound "T2d q"] by (simp add: cached_of_def cached_neg_def)
  then show ?thesis using curve_ext_neg [OF q(2)] comb_neg [OF q(3)] unfolding cached_is_def by blast
qed

text \<open>A table of multiples: the entry for a digit is the digit's multiple.\<close>

definition multiples :: "('g::comm_ring_1 \<times> fq \<times> fq \<times> fq) set \<Rightarrow> 'g \<Rightarrow> ge_cached list \<Rightarrow> bool" where
  "multiples G g Ai \<longleftrightarrow> (\<forall>j < length Ai. cached_is G (of_nat (Suc j) * g) (Ai ! j))"

lemma scalarmult_table_multiples:
  assumes "p3_is G g A"
  shows "length (scalarmult_table A) = 8 \<and> multiples G g (scalarmult_table A)"
proof -
  define f where "f = (\<lambda>i Ai. Ai @ [ge_p3_to_cached (ge_p1p1_to_p3 (ge_add A (Ai ! i)))])"
  have "length (fold f [0..<k] [ge_p3_to_cached A]) = Suc k \<and> multiples G g (fold f [0..<k] [ge_p3_to_cached A])" for k
  proof (induction k)
    case 0
    then show ?case using ge_p3_to_cached_is [OF assms] by (simp add: multiples_def)
  next
    case (Suc k)
    define r where "r = fold f [0..<k] [ge_p3_to_cached A]"
    have r: "length r = Suc k" "multiples G g r" using Suc.IH by (simp_all add: r_def)
    have "cached_is G (g + of_nat (Suc k) * g) (ge_p3_to_cached (ge_p1p1_to_p3 (ge_add A (r ! k))))"
      using r assms by (intro ge_is) (simp_all add: multiples_def)
    moreover have "g + of_nat (Suc k) * g = of_nat (Suc (Suc k)) * g" by (simp add: algebra_simps)
    moreover have "fold f [0..<Suc k] [ge_p3_to_cached A] = r @ [ge_p3_to_cached (ge_p1p1_to_p3 (ge_add A (r ! k)))]"
      by (simp add: r_def) (simp add: f_def)
    ultimately show ?case using r by (simp add: multiples_def nth_append less_Suc_eq)
  qed
  from this [of 7] show ?thesis by (simp add: scalarmult_table_def f_def)
qed

lemma cached_digit_is:
  assumes "length Ai = 8" "multiples G g Ai" "- 8 \<le> b" "b \<le> 8"
  shows "select_cached Ai b = Some (cached_digit Ai b)" "cached_is G (of_int b * g) (cached_digit Ai b)"
proof -
  have "cached_len q" if "q \<in> set Ai" for q using that assms(2) cached_is_len unfolding multiples_def by (metis in_set_conv_nth)
  then show "select_cached Ai b = Some (cached_digit Ai b)" using assms by (intro select_cached_correct)
  have t: "cached_is G (of_int \<bar>b\<bar> * g) (Ai ! nat (\<bar>b\<bar> - 1))" if "b \<noteq> 0"
  proof -
    have "nat (\<bar>b\<bar> - 1) < length Ai" using assms that by simp
    then have "cached_is G (of_nat (Suc (nat (\<bar>b\<bar> - 1))) * g) (Ai ! nat (\<bar>b\<bar> - 1))" using assms(2) by (simp only: multiples_def)
    moreover have "int (Suc (nat (\<bar>b\<bar> - 1))) = \<bar>b\<bar>" using that by simp
    ultimately show ?thesis by (metis of_int_of_nat_eq)
  qed
  show "cached_is G (of_int b * g) (cached_digit Ai b)"
  proof (cases "b < 0")
    case True
    then show ?thesis using cached_neg_is [OF t] by (simp add: cached_digit_def Let_def)
  next
    case False
    then show ?thesis using t ge_0_is(3) by (auto simp: cached_digit_def Let_def)
  qed
qed

lemma scalarmult_round_is:
  assumes "length Ai = 8" "multiples G g Ai" "- 8 \<le> b" "b \<le> 8" "p2_is G h r"
  shows "\<exists>t. scalarmult_round Ai b r = Some t \<and> p1p1_is G (16 * h + of_int b * g) t"
proof -
  define u where "u = ge_p1p1_to_p3 (ge_p2_dbl (ge_p1p1_to_p2 (ge_p2_dbl (ge_p1p1_to_p2 (ge_p2_dbl (ge_p1p1_to_p2 (ge_p2_dbl r)))))))"
  have "16 * h = (h + h + (h + h)) + (h + h + (h + h)) + ((h + h + (h + h)) + (h + h + (h + h)))" by (simp add: algebra_simps)
  then have "p3_is G (16 * h) u" unfolding u_def by (simp only:) (intro ge_is assms(5))
  from ge_add_is [OF this cached_digit_is(2) [OF assms(1-4)]]
  show ?thesis unfolding scalarmult_round_def cached_digit_is(1) [OF assms(1-4)] by (simp add: u_def Let_def)
qed

lemma scalarmult_loop:
  assumes "length Ai = 8" "multiples G g Ai" "signed_digits e" "k \<le> 64"
  shows "\<exists>r. opt_fold (\<lambda>i r. do { t \<leftarrow> scalarmult_round Ai (e ! i) r; Some (ge_p1p1_to_p2 t) }) (rev [k..<64]) ge_p2_0 = Some r \<and>
    p2_is G (of_int (horner 16 (drop k e)) * g) r"
  using assms(4)
proof (induction rule: inc_induct)
  case base
  then show ?case using assms(3) ge_0_is(1) by (simp add: signed_digits_def)
next
  case (step n)
  then obtain r where r: "opt_fold (\<lambda>i r. do { t \<leftarrow> scalarmult_round Ai (e ! i) r; Some (ge_p1p1_to_p2 t) }) (rev [Suc n..<64]) ge_p2_0 = Some r"
    "p2_is G (of_int (horner 16 (drop (Suc n) e)) * g) r" by auto
  have n: "n < length e" using step.hyps assms(3) by (simp add: signed_digits_def)
  then have "- 8 \<le> e ! n" "e ! n \<le> 8" using assms(3) by (simp_all add: signed_digits_def)
  from scalarmult_round_is [OF assms(1,2) this r(2)] obtain t where t: "scalarmult_round Ai (e ! n) r = Some t"
    "p1p1_is G (16 * (of_int (horner 16 (drop (Suc n) e)) * g) + of_int (e ! n) * g) t" by auto
  have "rev [n..<64] = rev [Suc n..<64] @ [n]" using step.hyps by (simp add: upt_conv_Cons)
  moreover have "16 * (of_int (horner 16 (drop (Suc n) e)) * g) + of_int (e ! n) * g = of_int (horner 16 (drop n e)) * g"
    using n by (simp add: Cons_nth_drop_Suc [symmetric] algebra_simps)
  ultimately show ?case using ge_p1p1_to_p2_is [OF t(2)] by (simp add: opt_fold_append r(1) t(1))
qed

lemma ge_scalarmult_is:
  assumes "p3_is G g A" "length a = 32" "a ! 31 \<le> 127"
  shows "\<exists>r. ge_scalarmult a A = Some r \<and> p2_is G (of_int (sc_val a) * g) r"
  using scalarmult_loop [of "scalarmult_table A" G g "scalarmult_digits a" 0] scalarmult_table_multiples [OF assms(1)]
    scalarmult_digits_correct [OF assms(2,3)] by (simp add: ge_scalarmult_def Let_def)

lemma ge_scalarmult_p3_is:
  assumes "p3_is G g A" "length a = 32" "a ! 31 \<le> 127"
  shows "\<exists>r. ge_scalarmult_p3 a A = Some r \<and> p3_is G (of_int (sc_val a) * g) r"
proof -
  define Ai e where "Ai = scalarmult_table A" and "e = scalarmult_digits a"
  have A: "length Ai = 8" "multiples G g Ai" using scalarmult_table_multiples [OF assms(1)] by (simp_all add: Ai_def)
  have e: "signed_digits e" "horner 16 e = sc_val a" using scalarmult_digits_correct [OF assms(2,3)] by (simp_all add: e_def)
  obtain r where r: "opt_fold (\<lambda>i r. do { t \<leftarrow> scalarmult_round Ai (e ! i) r; Some (ge_p1p1_to_p2 t) }) (rev [1..<64]) ge_p2_0 = Some r"
    "p2_is G (of_int (horner 16 (drop 1 e)) * g) r" using scalarmult_loop [OF A e(1), of 1] by auto
  have n: "0 < length e" "- 8 \<le> e ! 0" "e ! 0 \<le> 8" using e(1) by (simp_all add: signed_digits_def)
  from scalarmult_round_is [OF A n(2,3) r(2)] obtain t where t: "scalarmult_round Ai (e ! 0) r = Some t"
    "p1p1_is G (16 * (of_int (horner 16 (drop 1 e)) * g) + of_int (e ! 0) * g) t" by auto
  have "16 * (of_int (horner 16 (drop 1 e)) * g) + of_int (e ! 0) * g = of_int (sc_val a) * g"
    unfolding e(2) [symmetric] using n(1) by (cases e) (simp_all add: algebra_simps)
  then show ?thesis using ge_p1p1_to_p3_is [OF t(2)] r(1) t(1) by (simp add: ge_scalarmult_p3_def Let_def Ai_def [symmetric] e_def [symmetric])
qed

subsection \<open>The sliding window recoding\<close>

abbreviation bin_val :: "int list \<Rightarrow> int" where "bin_val \<equiv> limb_val (\<lambda>i. i)"

definition binary :: "int list \<Rightarrow> nat \<Rightarrow> bool" where
  "binary r k \<longleftrightarrow> (\<forall>j. k \<le> j \<longrightarrow> j < length r \<longrightarrow> r ! j = 0 \<or> r ! j = 1)"

text \<open>The carry adds \<open>2 ^ k\<close> when the number above \<open>k\<close> has room for it.\<close>

lemma slide_carry_spec:
  assumes "length r = 256" "binary r k" "k \<le> 255" "r ! 255 = 0"
  shows "length (slide_carry k r) = 256 \<and> binary (slide_carry k r) k \<and> bin_val (slide_carry k r) = bin_val r + 2 ^ k \<and>
    (\<forall>j < k. slide_carry k r ! j = r ! j) \<and> (r ! k \<noteq> 0 \<longrightarrow> slide_carry k r ! k = 0)"
  using assms
proof (induction k r rule: slide_carry.induct)
  case (1 k r)
  have b: "r ! j = 0 \<or> r ! j = 1" if "k \<le> j" "j < 256" for j using 1 that by (simp add: binary_def)
  show ?case
  proof (cases "r ! k = 0")
    case True
    then show ?thesis using 1 by (subst (1 2 3 4 5) slide_carry.simps) (auto simp: binary_def nth_list_update limb_val_update)
  next
    case False
    then have rk: "r ! k = 1" "k < 255" using b [of k] 1 by (auto simp: le_less)
    have e: "slide_carry k r = slide_carry (Suc k) (r[k := 0])" using 1 False by (subst slide_carry.simps) simp
    have "binary (r[k := 0]) (Suc k)" "(r[k := 0]) ! 255 = 0" using b 1 rk by (auto simp: binary_def nth_list_update)
    then have IH: "length (slide_carry (Suc k) (r[k := 0])) = 256" "binary (slide_carry (Suc k) (r[k := 0])) (Suc k)"
      "bin_val (slide_carry (Suc k) (r[k := 0])) = bin_val (r[k := 0]) + 2 ^ Suc k"
      "\<forall>j < Suc k. slide_carry (Suc k) (r[k := 0]) ! j = (r[k := 0]) ! j"
      using 1 rk False by simp_all
    have "bin_val (r[k := 0]) = bin_val r - 2 ^ k" using 1 rk by (simp add: limb_val_update)
    moreover have "slide_carry (Suc k) (r[k := 0]) ! k = 0" using IH(4) 1 by simp
    moreover have "binary (slide_carry (Suc k) (r[k := 0])) k"
      using IH(1,2) \<open>slide_carry (Suc k) (r[k := 0]) ! k = 0\<close> unfolding binary_def by (metis Suc_leI le_less)
    ultimately show ?thesis unfolding e using IH by auto
  qed
qed

definition low_val :: "nat \<Rightarrow> int list \<Rightarrow> int" where
  "low_val i r = (\<Sum>j<i. r ! j * 2 ^ j)"

text \<open>A positive lower part leaves the highest bit clear.\<close>

lemma top_clear:
  assumes "length r = 256" "binary r (Suc i)" "i < 255" "bin_val r < 2 ^ 255" "0 < low_val (Suc i) r"
  shows "r ! 255 = 0"
proof -
  have "bin_val r = (\<Sum>j<256. r ! j * 2 ^ j)" using assms(1) by (simp add: limb_val_def)
  also have "{..<256} = {..<Suc i} \<union> {Suc i..<256 :: nat}" using assms(3) by auto
  also have "(\<Sum>j\<in>{..<Suc i} \<union> {Suc i..<256}. r ! j * 2 ^ j) = low_val (Suc i) r + (\<Sum>j=Suc i..<256. r ! j * 2 ^ j)"
    unfolding low_val_def by (rule sum.union_disjoint) auto
  finally have v: "bin_val r = low_val (Suc i) r + (\<Sum>j=Suc i..<256. r ! j * 2 ^ j)" .
  have nn: "0 \<le> r ! j * 2 ^ j" if "j \<in> {Suc i..<256}" for j
  proof -
    have "r ! j = 0 \<or> r ! j = 1" using that assms(1,2) by (simp add: binary_def)
    then show ?thesis by auto
  qed
  have "r ! 255 * 2 ^ 255 \<le> (\<Sum>j=Suc i..<256. r ! j * 2 ^ j)"
    using nn assms(3) by (intro member_le_sum) auto
  then have "r ! 255 * 2 ^ 255 < 2 ^ 255" using v assms(4,5) by linarith
  moreover have "r ! 255 = 0 \<or> r ! 255 = 1" using assms(1-3) by (simp add: binary_def)
  ultimately show ?thesis by auto
qed

text \<open>The window of digit \<open>i\<close> at distance \<open>b\<close>: the digits between are 0, those above are bits.\<close>

definition window :: "int list \<Rightarrow> nat \<Rightarrow> nat \<Rightarrow> int list \<Rightarrow> bool" where
  "window r0 i b r \<longleftrightarrow> length r = 256 \<and> bin_val r = bin_val r0 \<and> (\<forall>j < i. r ! j = r0 ! j) \<and> binary r (Suc i) \<and>
    odd (r ! i) \<and> \<bar>r ! i\<bar> \<le> 15 \<and> (\<forall>j. i < j \<longrightarrow> j < i + b \<longrightarrow> j < 256 \<longrightarrow> r ! j = 0)"

lemma window_mono: "window r0 i b r \<Longrightarrow> c \<le> b \<Longrightarrow> window r0 i c r"
  by (auto simp: window_def)

lemma window_next: "window r0 i b r \<Longrightarrow> r ! (i + b) = 0 \<Longrightarrow> window r0 i (Suc b) r"
  by (auto simp: window_def less_Suc_eq)

lemma low_val_cong: "(\<And>j. j < i \<Longrightarrow> r ! j = s ! j) \<Longrightarrow> low_val i r = low_val i s"
  by (simp add: low_val_def)

lemma window_add:
  assumes "window r0 i b r" "1 \<le> b" "i + b < 256" "r ! (i + b) = 1" "\<bar>r ! i + 2 ^ b\<bar> \<le> 15"
  shows "window r0 i (Suc b) (r[i := r ! i + 2 ^ b, i + b := 0])"
proof -
  have l: "length r = 256" using assms by (simp add: window_def)
  have "bin_val (r[i := r ! i + 2 ^ b, i + b := 0]) = bin_val r"
    using assms(2-4) l by (simp add: limb_val_update power_add)
  moreover have "odd (r ! i + 2 ^ b)" using assms(1,2) by (simp add: window_def)
  moreover have "binary (r[i := r ! i + 2 ^ b, i + b := 0]) (Suc i)"
    using assms(1,3) by (auto simp: window_def binary_def nth_list_update)
  ultimately show ?thesis using assms by (auto simp: window_def nth_list_update less_Suc_eq)
qed

lemma window_sub:
  assumes "window r0 i b r" "1 \<le> b" "i + b < 256" "r ! (i + b) = 1" "\<bar>r ! i - 2 ^ b\<bar> \<le> 15" "0 < r ! i"
    and "bin_val r0 < 2 ^ 255" "\<bar>low_val i r0\<bar> < 2 ^ i"
  shows "window r0 i (Suc b) (slide_carry (i + b) (r[i := r ! i - 2 ^ b]))"
proof -
  have w: "length r = 256" "bin_val r = bin_val r0" "binary r (Suc i)" "\<And>j. j < i \<Longrightarrow> r ! j = r0 ! j"
    using assms(1) by (simp_all add: window_def)
  have "low_val i r = low_val i r0" using w(4) by (rule low_val_cong)
  moreover have "2 ^ i \<le> r ! i * 2 ^ i" using assms(6) by simp
  moreover have "low_val (Suc i) r = low_val i r + r ! i * 2 ^ i" by (simp add: low_val_def)
  ultimately have "0 < low_val (Suc i) r" using assms(8) by linarith
  then have top: "r ! 255 = 0" using w assms(2,3,7) by (intro top_clear [of r i]) simp_all
  define s where "s = r[i := r ! i - 2 ^ b]"
  have s: "length s = 256" "bin_val s = bin_val r - 2 ^ b * 2 ^ i" "s ! 255 = 0" "binary s (i + b)" "s ! (i + b) = 1" "s ! i = r ! i - 2 ^ b"
    "\<And>j. i < j \<Longrightarrow> s ! j = r ! j" "\<And>j. j < i \<Longrightarrow> s ! j = r ! j"
    using w top assms(2-4) by (auto simp: s_def limb_val_update nth_list_update binary_def)
  have c: "length (slide_carry (i + b) s) = 256" "binary (slide_carry (i + b) s) (i + b)"
    "bin_val (slide_carry (i + b) s) = bin_val s + 2 ^ (i + b)" "\<And>j. j < i + b \<Longrightarrow> slide_carry (i + b) s ! j = s ! j"
    "slide_carry (i + b) s ! (i + b) = 0"
    using slide_carry_spec [OF s(1,4) _ s(3)] assms(3) s(5) by auto
  have z: "\<And>j. i < j \<Longrightarrow> j < i + b \<Longrightarrow> r ! j = 0" using assms(1,3) by (simp add: window_def)
  have "binary (slide_carry (i + b) s) (Suc i)"
    unfolding binary_def
  proof (intro allI impI)
    fix j assume "Suc i \<le> j" "j < length (slide_carry (i + b) s)"
    then show "slide_carry (i + b) s ! j = 0 \<or> slide_carry (i + b) s ! j = 1"
      using c(2) z [of j] c(4) [of j] s(7) [of j] by (cases "j < i + b") (auto simp: binary_def)
  qed
  moreover have "bin_val (slide_carry (i + b) s) = bin_val r0" using c(3) s(2) w(2) by (simp add: power_add)
  moreover have "odd (slide_carry (i + b) s ! i)" "\<bar>slide_carry (i + b) s ! i\<bar> \<le> 15"
    using c(4) [of i] s(6) assms(1,2,5) by (simp_all add: window_def)
  moreover have "slide_carry (i + b) s ! j = 0" if "i < j" "j < i + Suc b" for j
    using that c(4) [of j] s(7) [of j] c(5) z [of j] by (cases "j = i + b") auto
  moreover have "slide_carry (i + b) s ! j = r0 ! j" if "j < i" for j using that c(4) [of j] s(8) [of j] w(4) by simp
  ultimately show ?thesis using c(1) unfolding window_def s_def [symmetric] by blast
qed

text \<open>Neither branch applies only from distance 5 on; the subtraction needs a positive digit.\<close>

lemma window_cases:
  fixes x :: int
  assumes "odd x" "\<bar>x\<bar> \<le> 15" "1 \<le> b" "b \<le> 6" "\<not> x + 2 ^ b \<le> 15"
  shows "x - 2 ^ b \<ge> - 15 \<Longrightarrow> 0 < x" "\<not> x - 2 ^ b \<ge> - 15 \<Longrightarrow> 5 \<le> b"
proof -
  have b: "b = 1 \<or> b = 2 \<or> b = 3 \<or> b = 4 \<or> b = 5 \<or> b = 6" using assms(3,4) by linarith
  have "x \<noteq> 0" using assms(1) by auto
  show "x - 2 ^ b \<ge> - 15 \<Longrightarrow> 0 < x" using b assms(2,5) \<open>x \<noteq> 0\<close> by auto
  show "\<not> x - 2 ^ b \<ge> - 15 \<Longrightarrow> 5 \<le> b" using b assms(2,5) \<open>x \<noteq> 0\<close> by auto
qed

lemma slide_window_spec:
  assumes "window r0 i b r" "1 \<le> b" "i < 256" "bin_val r0 < 2 ^ 255" "\<bar>low_val i r0\<bar> < 2 ^ i"
  shows "window r0 i 5 (slide_window i b r)"
  using assms
proof (induction i b r rule: slide_window.induct)
  case (1 i b r)
  have w: "odd (r ! i)" "\<bar>r ! i\<bar> \<le> 15" "binary r (Suc i)" "length r = 256" using 1(4) by (simp_all add: window_def)
  show ?case
  proof (cases "b \<le> 6 \<and> i + b < 256")
    case False
    then have "window r0 i 5 r" using 1(4) by (auto simp: window_def)
    then show ?thesis by (subst slide_window.simps) (simp only: False if_False)
  next
    case B: True
    show ?thesis
    proof (cases "r ! (i + b) = 0")
      case True
      then show ?thesis using B 1(3) 1(5-) window_next [OF 1(4)] by (subst slide_window.simps) simp
    next
      case nz: False
      have "Suc i \<le> i + b" using 1(5) by simp
      then have one: "r ! (i + b) = 1" using w(3,4) B nz unfolding binary_def by metis
      have p: "push_bit b (r ! (i + b)) = 2 ^ b" by (simp add: one push_bit_eq_mult)
      have pos: "(0 :: int) < 2 ^ b" by simp
      show ?thesis
      proof (cases "r ! i + 2 ^ b \<le> 15")
        case True
        then have "\<bar>r ! i + 2 ^ b\<bar> \<le> 15" using w(2) pos by linarith
        moreover from this have "i8 (r ! i + 2 ^ b) = r ! i + 2 ^ b" by (intro i8_id) simp_all
        ultimately show ?thesis using B nz True 1(1) [OF B nz] 1(5-) window_add [OF 1(4) 1(5) _ one]
          by (subst slide_window.simps) (simp only: p if_True if_False simp_thms Suc_le_mono le0 One_nat_def)
      next
        case F: False
        show ?thesis
        proof (cases "r ! i - 2 ^ b \<ge> - 15")
          case True
          then have "\<bar>r ! i - 2 ^ b\<bar> \<le> 15" using w(2) pos by linarith
          moreover from this have "i8 (r ! i - 2 ^ b) = r ! i - 2 ^ b" by (intro i8_id) simp_all
          moreover have "0 < r ! i" using window_cases(1) [OF w(1,2) 1(5) _ F True] B by simp
          ultimately show ?thesis using B nz True F 1(2) [OF B nz] 1(5-) window_sub [OF 1(4) 1(5) _ one]
            by (subst slide_window.simps) (simp only: p if_True if_False simp_thms Suc_le_mono le0 One_nat_def)
        next
          case False
          then have "5 \<le> b" using window_cases(2) [OF w(1,2) 1(5) _ F] B by simp
          then show ?thesis using B nz F False p window_mono [OF 1(4)] by (subst slide_window.simps) simp
        qed
      qed
    qed
  qed
qed

text \<open>The whole loop: the digits so far are 0 or odd, at most 15 in size and at least five apart; the digits so far add up to
  less than the weight of the next nonzero digit.\<close>

definition sparse :: "nat \<Rightarrow> int list \<Rightarrow> bool" where
  "sparse i r \<longleftrightarrow> (\<forall>j < i. r ! j \<noteq> 0 \<longrightarrow> odd (r ! j) \<and> \<bar>r ! j\<bar> \<le> 15 \<and> (\<forall>m. j < m \<longrightarrow> m < j + 5 \<longrightarrow> m < 256 \<longrightarrow> r ! m = 0))"

definition sliding :: "int \<Rightarrow> nat \<Rightarrow> int list \<Rightarrow> bool" where
  "sliding a i r \<longleftrightarrow> length r = 256 \<and> bin_val r = a \<and> binary r i \<and> sparse i r \<and>
    (\<forall>m. i \<le> m \<longrightarrow> m < 256 \<longrightarrow> r ! m \<noteq> 0 \<longrightarrow> \<bar>low_val i r\<bar> < 2 ^ m)"

lemma low_val_Suc: "low_val (Suc i) r = low_val i r + r ! i * 2 ^ i" by (simp add: low_val_def)

lemma slide_step_sliding:
  assumes "sliding a i r" "i < 256" "a < 2 ^ 255"
  shows "sliding a (Suc i) (slide_step i r)"
proof (cases "r ! i = 0")
  case True
  have "binary r (Suc i)" using assms(1) by (simp add: sliding_def binary_def)
  moreover have "sparse (Suc i) r" using assms(1) True unfolding sliding_def sparse_def by (metis less_Suc_eq)
  ultimately show ?thesis using assms(1) True by (simp add: slide_step_def sliding_def low_val_Suc)
next
  case False
  have r: "length r = 256" "bin_val r = a" "binary r i" "sparse i r" "\<bar>low_val i r\<bar> < 2 ^ i"
    using assms False by (simp_all add: sliding_def)
  have ri: "r ! i = 1" using r False assms(2) by (auto simp: binary_def)
  define s where "s = slide_window i 1 r"
  have "window r i 1 r" using r ri by (auto simp: window_def binary_def)
  then have s: "window r i 5 s" unfolding s_def using r assms(2,3) by (intro slide_window_spec) simp_all
  have lo: "s ! j = r ! j" if "j < i" for j using s that by (simp add: window_def)
  have si: "odd (s ! i)" "\<bar>s ! i\<bar> \<le> 15" "\<And>m. i < m \<Longrightarrow> m < i + 5 \<Longrightarrow> m < 256 \<Longrightarrow> s ! m = 0" using s by (simp_all add: window_def)
  have "sparse (Suc i) s"
    unfolding sparse_def
  proof (intro allI impI)
    fix j assume j: "j < Suc i" "s ! j \<noteq> 0"
    show "odd (s ! j) \<and> \<bar>s ! j\<bar> \<le> 15 \<and> (\<forall>m. j < m \<longrightarrow> m < j + 5 \<longrightarrow> m < 256 \<longrightarrow> s ! m = 0)"
    proof (cases "j = i")
      case True
      then show ?thesis using si by simp
    next
      case False
      then have ji: "j < i" "r ! j \<noteq> 0" using j lo by (auto simp: less_Suc_eq)
      then have q: "odd (r ! j)" "\<bar>r ! j\<bar> \<le> 15" "\<And>m. j < m \<Longrightarrow> m < j + 5 \<Longrightarrow> m < 256 \<Longrightarrow> r ! m = 0"
        using r(4) by (simp_all add: sparse_def)
      have "\<not> i < j + 5" using q(3) [of i] ji(1) ri assms(2) by auto
      then show ?thesis using q ji(1) lo by auto
    qed
  qed
  moreover have "\<bar>low_val (Suc i) s\<bar> < 2 ^ m" if "Suc i \<le> m" "m < 256" "s ! m \<noteq> 0" for m
  proof -
    have "low_val i s = low_val i r" using lo by (rule low_val_cong)
    moreover have "\<bar>s ! i * 2 ^ i\<bar> \<le> 15 * 2 ^ i" using si(2) by (simp add: abs_mult)
    ultimately have "\<bar>low_val (Suc i) s\<bar> < 16 * 2 ^ i" using r(5) unfolding low_val_Suc by linarith
    moreover have "i + 5 \<le> m" using that si(3) [of m] by (cases "m < i + 5") auto
    then have "(2 :: int) ^ (i + 4) \<le> 2 ^ m" by (intro power_increasing) simp_all
    ultimately show ?thesis by (simp add: power_add)
  qed
  moreover have "slide_step i r = s" using False by (simp add: slide_step_def s_def)
  ultimately show ?thesis using s r(2) by (simp add: sliding_def window_def)
qed

lemma bit_value: "uint (1 AND drop_bit k (x :: u8)) = of_bool (bit x k)"
  by (simp add: and_one_eq one_and_eq bit_iff_odd_drop_bit mod2_eq_if)

lemma byte_bits: "(\<Sum>k<8. of_bool (bit (x :: u8) k) * (2 :: int) ^ k) = uint x"
proof -
  have "(\<Sum>k<8. of_bool (bit (x :: u8) k) * (2 :: int) ^ k) = (\<Sum>k<8. of_bool (bit (uint x) k) * 2 ^ k)"
    by (intro sum.cong) (simp_all add: bit_uint_iff)
  also have "\<dots> = horner_sum of_bool 2 (map (bit (uint x)) [0..<8])"
    unfolding horner_sum_eq_sum by (intro sum.cong) (simp_all add: lessThan_atLeast0)
  also have "\<dots> = take_bit 8 (uint x)" by (rule horner_sum_bit_eq_take_bit)
  also have "\<dots> = uint x" using uint_u8 [of x] by (simp add: take_bit_int_eq_self_iff)
  finally show ?thesis .
qed

lemma sum_split: "(\<Sum>j<m + n. f j) = (\<Sum>j<m. f j) + (\<Sum>k<n. f (m + k) :: int)" for m n :: nat
  by (induction n) simp_all

lemma bits_val: "(\<Sum>j<length a * 8. of_bool (bit (a ! (j div 8)) (j mod 8)) * 2 ^ j) = sc_val a"
proof (induction a rule: rev_induct)
  case (snoc x a)
  have "(\<Sum>j<length (a @ [x]) * 8. of_bool (bit ((a @ [x]) ! (j div 8)) (j mod 8)) * (2 :: int) ^ j) =
      (\<Sum>j<length a * 8 + 8. of_bool (bit ((a @ [x]) ! (j div 8)) (j mod 8)) * 2 ^ j)" by (simp add: add.commute)
  also have "\<dots> = (\<Sum>j<length a * 8. of_bool (bit ((a @ [x]) ! (j div 8)) (j mod 8)) * 2 ^ j) +
      (\<Sum>k<8. of_bool (bit ((a @ [x]) ! ((length a * 8 + k) div 8)) ((length a * 8 + k) mod 8)) * 2 ^ (length a * 8 + k))"
    by (rule sum_split)
  also have "\<dots> = sc_val a + (\<Sum>k<8. of_bool (bit x k) * 2 ^ k) * 2 ^ (length a * 8)"
    unfolding snoc.IH [symmetric] sum_distrib_right
    by (intro arg_cong2 [where f = "(+)"] sum.cong) (auto simp: nth_append power_add)
  also have "\<dots> = sc_val (a @ [x])" unfolding byte_bits by (simp add: le_val_append mult.commute [of "length a"] power_mult)
  finally show ?case .
qed simp

lemma slide_bits_nth: "length (slide_bits a) = 256" "j < 256 \<Longrightarrow> slide_bits a ! j = of_bool (bit (a ! (j div 8)) (j mod 8))"
  by (simp_all add: slide_bits_def bit_value del: upt_rec_numeral)

lemma slide_bits_val: "length a = 32 \<Longrightarrow> bin_val (slide_bits a) = sc_val a"
  using bits_val [of a] by (simp add: limb_val_def slide_bits_nth)

lemma sc_val_lt:
  assumes "length a = 32" "a ! 31 \<le> 127"
  shows "sc_val a < 2 ^ 255"
proof -
  have "a = take 31 a @ [a ! 31]" using take_Suc_conv_app_nth [of 31 a] assms(1) by simp
  then have "le_val a = le_val (take 31 a @ [a ! 31])" by (rule arg_cong)
  then have "le_val a = le_val (take 31 a) + 256 ^ 31 * unat (a ! 31)" using assms(1) unfolding le_val_append by simp
  moreover have "le_val (take 31 a) < 256 ^ 31" using le_val_bound [of "take 31 a"] assms(1) by simp
  moreover have "unat (a ! 31) \<le> 127" using assms(2) by (simp add: word_le_nat_alt)
  moreover have "x + B * u < B * 128" if "x < B" "u \<le> 127" for x B u :: nat
    using that mult_le_mono2 [OF that(2), of B] by linarith
  ultimately have "le_val a < 256 ^ 31 * 128" by presburger
  then have "int (le_val a) < int (256 ^ 31 * 128)" by (simp only: of_nat_less_iff)
  also have "int (256 ^ 31 * 128) = 2 ^ 255" by simp
  finally show ?thesis .
qed

lemma slide_correct:
  assumes "length a = 32" "a ! 31 \<le> 127"
  shows "sliding (sc_val a) 256 (slide a)"
proof -
  have "sc_val a < 2 ^ 255" using assms by (rule sc_val_lt)
  have "sliding (sc_val a) 0 (slide_bits a)"
    using assms(1) by (simp add: sliding_def slide_bits_val sparse_def low_val_def slide_bits_nth binary_def)
  have "sliding (sc_val a) k (fold slide_step [0..<k] (slide_bits a))" if "k \<le> 256" for k
    using that
  proof (induction k)
    case (Suc k)
    then show ?case using slide_step_sliding [of "sc_val a" k] \<open>sc_val a < 2 ^ 255\<close> by simp
  qed (use \<open>sliding (sc_val a) 0 (slide_bits a)\<close> in simp)
  from this [OF order.refl] show ?thesis by (simp only: slide_def)
qed

subsection \<open>Sliding window multiplications\<close>

definition odd_multiples :: "('g::comm_ring_1 \<times> fq \<times> fq \<times> fq) set \<Rightarrow> 'g \<Rightarrow> ge_cached list \<Rightarrow> bool" where
  "odd_multiples G g Ai \<longleftrightarrow> length Ai = 8 \<and> (\<forall>j < 8. cached_is G (of_int (2 * int j + 1) * g) (Ai ! j))"

lemma ge_dsm_precomp_odd:
  assumes "p3_is G g A"
  shows "odd_multiples G g (ge_dsm_precomp A)"
proof -
  define s2 where "s2 = ge_p1p1_to_p3 (ge_p3_dbl A)"
  have s2: "p3_is G (g + g) s2" unfolding s2_def by (intro ge_is assms)
  define f where "f = (\<lambda>i r. r @ [ge_p3_to_cached (ge_p1p1_to_p3 (ge_add s2 (r ! i)))])"
  have "length (fold f [0..<k] [ge_p3_to_cached A]) = Suc k \<and>
      (\<forall>j < Suc k. cached_is G (of_int (2 * int j + 1) * g) (fold f [0..<k] [ge_p3_to_cached A] ! j))" for k
  proof (induction k)
    case 0
    then show ?case using ge_p3_to_cached_is [OF assms] by simp
  next
    case (Suc k)
    define r where "r = fold f [0..<k] [ge_p3_to_cached A]"
    have r: "length r = Suc k" "\<And>j. j < Suc k \<Longrightarrow> cached_is G (of_int (2 * int j + 1) * g) (r ! j)"
      using Suc.IH by (simp_all add: r_def)
    have "cached_is G (g + g + of_int (2 * int k + 1) * g) (ge_p3_to_cached (ge_p1p1_to_p3 (ge_add s2 (r ! k))))"
      using r s2 by (intro ge_is) simp_all
    moreover have "g + g + of_int (2 * int k + 1) * g = of_int (2 * int (Suc k) + 1) * g" by (simp add: algebra_simps)
    moreover have "fold f [0..<Suc k] [ge_p3_to_cached A] = r @ [ge_p3_to_cached (ge_p1p1_to_p3 (ge_add s2 (r ! k)))]"
      by (simp add: r_def) (simp add: f_def)
    ultimately show ?case using r by (simp add: nth_append less_Suc_eq del: of_int_add of_int_mult)
  qed
  from this [of 7] show ?thesis by (simp add: odd_multiples_def ge_dsm_precomp_def Let_def f_def s2_def)
qed

text \<open>The digits that \<open>slide\<close> yields.\<close>

definition slide_digit :: "int \<Rightarrow> bool" where "slide_digit d \<longleftrightarrow> d = 0 \<or> odd d \<and> \<bar>d\<bar> \<le> 15"

lemma slide_digit_table:
  assumes "slide_digit d" "d \<noteq> 0"
  shows "nat (\<bar>d\<bar> div 2) < 8 \<and> 2 * int (nat (\<bar>d\<bar> div 2)) + 1 = \<bar>d\<bar>"
proof -
  have d: "odd \<bar>d\<bar>" "\<bar>d\<bar> \<le> 15" using assms by (auto simp: slide_digit_def)
  obtain k where k: "\<bar>d\<bar> = 2 * k + 1" using d(1) by (rule oddE)
  then have "0 \<le> k" "k \<le> 7" using d(2) by linarith+
  then show ?thesis using k by simp
qed

lemma dsm_add_is:
  assumes "odd_multiples G g Ai" "slide_digit d" "p1p1_is G h t"
  shows "p1p1_is G (h + of_int d * g) (dsm_add Ai d t)"
proof (cases "d = 0")
  case True
  then show ?thesis using assms(3) by (simp add: dsm_add_def)
next
  case False
  define j where "j = nat (\<bar>d\<bar> div 2)"
  have j: "j < 8" "2 * int j + 1 = \<bar>d\<bar>" using slide_digit_table [OF assms(2) False] by (simp_all add: j_def)
  then have q: "cached_is G (of_int \<bar>d\<bar> * g) (Ai ! j)" using assms(1) unfolding odd_multiples_def by metis
  have u: "p3_is G h (ge_p1p1_to_p3 t)" using assms(3) by (rule ge_p1p1_to_p3_is)
  show ?thesis
  proof (cases "d > 0")
    case True
    then show ?thesis using ge_add_is [OF u q] by (simp add: dsm_add_def j_def)
  next
    case False
    then have "\<bar>d\<bar> = - d" "d < 0" using \<open>d \<noteq> 0\<close> by simp_all
    then show ?thesis using ge_sub_is [OF u q] by (simp add: dsm_add_def j_def)
  qed
qed

lemma slide_digits: "length a = 32 \<Longrightarrow> a ! 31 \<le> 127 \<Longrightarrow> i < 256 \<Longrightarrow> slide_digit (slide a ! i)"
  and slide_value: "length a = 32 \<Longrightarrow> a ! 31 \<le> 127 \<Longrightarrow> (\<Sum>i<256. slide a ! i * 2 ^ i) = sc_val a"
  using slide_correct [of a] by (auto simp: sliding_def sparse_def slide_digit_def limb_val_def)

lemma dropWhile_rev_upt: "\<exists>m \<le> n. dropWhile P (rev [0..<n]) = rev [0..<m] \<and> (\<forall>i. m \<le> i \<longrightarrow> i < n \<longrightarrow> P i)"
proof (induction n)
  case (Suc n)
  show ?case
  proof (cases "P n")
    case True
    then obtain m where "m \<le> n" "dropWhile P (rev [0..<n]) = rev [0..<m]" "\<forall>i. m \<le> i \<longrightarrow> i < n \<longrightarrow> P i" using Suc.IH by auto
    then show ?thesis using True by (intro exI [of _ m]) (auto simp: less_Suc_eq)
  next
    case False
    then show ?thesis by (intro exI [of _ "Suc n"]) simp
  qed
qed simp

text \<open>The loop from the top: every round doubles and adds.\<close>

lemma dsm_rounds:
  assumes round: "\<And>i h r. i < n \<Longrightarrow> p2_is G h r \<Longrightarrow> p1p1_is G (h + h + D i) (round i r)" and "p2_is G h0 r0"
  shows "p2_is G (2 ^ n * h0 + (\<Sum>i<n. D i * 2 ^ i)) (fold (\<lambda>i r. ge_p1p1_to_p2 (round i r)) (rev [0..<n]) r0)"
  using assms
proof (induction n arbitrary: h0 r0)
  case (Suc n)
  have "p2_is G (h0 + h0 + D n) (ge_p1p1_to_p2 (round n r0))" using Suc.prems by (intro ge_p1p1_to_p2_is) simp
  then have "p2_is G (2 ^ n * (h0 + h0 + D n) + (\<Sum>i<n. D i * 2 ^ i))
      (fold (\<lambda>i r. ge_p1p1_to_p2 (round i r)) (rev [0..<n]) (ge_p1p1_to_p2 (round n r0)))"
    using Suc.prems by (intro Suc.IH) simp_all
  moreover have "2 ^ n * (h0 + h0 + D n) + (\<Sum>i<n. D i * 2 ^ i) = 2 ^ Suc n * h0 + (\<Sum>i<Suc n. D i * 2 ^ i)"
    by (simp add: algebra_simps)
  moreover have "rev [0..<Suc n] = n # rev [0..<n]" by simp
  ultimately show ?case by (simp only: fold.simps comp_def)
qed simp

lemma dsm_loop:
  assumes "\<And>i h r. i < 256 \<Longrightarrow> p2_is G h r \<Longrightarrow> p1p1_is G (h + h + D i) (round i r)"
    and "\<And>i. i < 256 \<Longrightarrow> \<forall>s \<in> set ss. s ! i = 0 \<Longrightarrow> D i = 0"
  shows "p2_is G (\<Sum>i<256. D i * 2 ^ i) (fold (\<lambda>i r. ge_p1p1_to_p2 (round i r)) (dsm_from ss) ge_p2_0)"
    and "p3_is G (\<Sum>i<256. D i * 2 ^ i) (dsm_to_p3 round (dsm_from ss))"
proof -
  obtain m where m: "m \<le> 256" "dsm_from ss = rev [0..<m]" "\<And>i. m \<le> i \<Longrightarrow> i < 256 \<Longrightarrow> \<forall>s \<in> set ss. s ! i = 0"
    unfolding dsm_from_def using dropWhile_rev_upt [of 256 "\<lambda>i. \<forall>s \<in> set ss. s ! i = 0"] by auto
  have "(\<Sum>i<256. D i * 2 ^ i) = (\<Sum>i<m. D i * 2 ^ i) + (\<Sum>i=m..<256. D i * 2 ^ i)"
    using m(1) by (simp add: lessThan_atLeast0 sum.atLeastLessThan_concat)
  moreover have "(\<Sum>i=m..<256. D i * 2 ^ i) = 0" using assms(2) m(3) by (intro sum.neutral) simp
  ultimately have e: "(\<Sum>i<256. D i * 2 ^ i) = (\<Sum>i<m. D i * 2 ^ i)" by simp
  show "p2_is G (\<Sum>i<256. D i * 2 ^ i) (fold (\<lambda>i r. ge_p1p1_to_p2 (round i r)) (dsm_from ss) ge_p2_0)"
    unfolding e m(2) using dsm_rounds [of m G D round 0 ge_p2_0] assms(1) m(1) ge_0_is(1) [of G] by simp
  show "p3_is G (\<Sum>i<256. D i * 2 ^ i) (dsm_to_p3 round (dsm_from ss))"
  proof (cases m)
    case 0
    then show ?thesis unfolding e m(2) by (simp add: dsm_to_p3_def ge_0_is)
  next
    case (Suc k)
    define r where "r = fold (\<lambda>i r. ge_p1p1_to_p2 (round (Suc i) r)) (rev [0..<k]) ge_p2_0"
    have "p2_is G (\<Sum>i<k. D (Suc i) * 2 ^ i) r"
      unfolding r_def using dsm_rounds [of k G "\<lambda>i. D (Suc i)" "\<lambda>i. round (Suc i)" 0 ge_p2_0] assms(1) m(1) ge_0_is(1) [of G] Suc by simp
    then have p: "p3_is G ((\<Sum>i<k. D (Suc i) * 2 ^ i) + (\<Sum>i<k. D (Suc i) * 2 ^ i) + D 0) (ge_p1p1_to_p3 (round 0 r))"
      by (intro ge_p1p1_to_p3_is assms(1)) simp_all
    have "fold (\<lambda>i (r, r3). if i = 0 then (r, ge_p1p1_to_p3 (round i r)) else (ge_p1p1_to_p2 (round i r), r3)) (map Suc is) (x, y) =
        (fold (\<lambda>i r. ge_p1p1_to_p2 (round (Suc i) r)) is x, y)" for "is" x y by (induction "is" arbitrary: x) simp_all
    moreover have "rev [0..<m] = map Suc (rev [0..<k]) @ [0]" unfolding Suc by (simp add: rev_map [symmetric] map_Suc_upt upt_conv_Cons del: upt_Suc)
    ultimately have d: "dsm_to_p3 round (dsm_from ss) = ge_p1p1_to_p3 (round 0 r)" unfolding m(2) dsm_to_p3_def r_def by simp
    have "(\<Sum>i<k. D (Suc i) * 2 ^ i) + (\<Sum>i<k. D (Suc i) * 2 ^ i) + D 0 = (\<Sum>i<m. D i * 2 ^ i)"
      unfolding Suc sum.lessThan_Suc_shift by (simp add: sum_distrib_left sum.distrib [symmetric] algebra_simps)
    then show ?thesis unfolding e d using p by simp
  qed
qed

lemma slide_combination:
  assumes "length a = 32" "a ! 31 \<le> 127"
  shows "(\<Sum>i<256. of_int (slide a ! i) * g * 2 ^ i) = of_int (sc_val a) * (g :: 'g::comm_ring_1)"
proof -
  have "(\<Sum>i<256. of_int (slide a ! i) * g * 2 ^ i) = of_int (\<Sum>i<256. slide a ! i * 2 ^ i) * g"
    unfolding of_int_sum sum_distrib_right by (intro sum.cong) (simp_all add: mult_ac)
  then show ?thesis unfolding slide_value [OF assms] .
qed

abbreviation reduced :: "bytes \<Rightarrow> bool" where "reduced a \<equiv> length a = 32 \<and> a ! 31 \<le> 127"

lemma ge_double_scalarmult_precomp_vartime2_is:
  assumes "reduced a" "reduced b" "odd_multiples G g Ai" "odd_multiples G h Bi"
  shows "p2_is G (of_int (sc_val a) * g + of_int (sc_val b) * h) (ge_double_scalarmult_precomp_vartime2 a Ai b Bi)"
    "p3_is G (of_int (sc_val a) * g + of_int (sc_val b) * h) (ge_double_scalarmult_precomp_vartime2_p3 a Ai b Bi)"
proof -
  define D where "D i = of_int (slide a ! i) * g + of_int (slide b ! i) * h" for i
  define round where "round i r = dsm_add Bi (slide b ! i) (dsm_add Ai (slide a ! i) (ge_p2_dbl r))" for i r
  have r: "p1p1_is G (k + k + D i) (round i r)" if "i < 256" "p2_is G k r" for i k r
    unfolding D_def round_def add.assoc [symmetric] using assms that
    by (intro dsm_add_is slide_digits ge_p2_dbl_is) simp_all
  have z: "D i = 0" if "\<forall>s \<in> set [slide a, slide b]. s ! i = 0" for i using that by (simp add: D_def)
  have e: "(\<Sum>i<256. D i * 2 ^ i) = of_int (sc_val a) * g + of_int (sc_val b) * h"
    using assms(1,2) by (simp add: D_def distrib_right sum.distrib slide_combination)
  show "p2_is G (of_int (sc_val a) * g + of_int (sc_val b) * h) (ge_double_scalarmult_precomp_vartime2 a Ai b Bi)"
    "p3_is G (of_int (sc_val a) * g + of_int (sc_val b) * h) (ge_double_scalarmult_precomp_vartime2_p3 a Ai b Bi)"
    using dsm_loop [where round = round and D = D and ss = "[slide a, slide b]", OF r z]
    unfolding e ge_double_scalarmult_precomp_vartime2_def ge_double_scalarmult_precomp_vartime2_p3_def Let_def round_def by simp_all
qed

lemma ge_double_scalarmult_precomp_vartime_is:
  assumes "reduced a" "reduced b" "p3_is G g A" "odd_multiples G h Bi"
  shows "p2_is G (of_int (sc_val a) * g + of_int (sc_val b) * h) (ge_double_scalarmult_precomp_vartime a A b Bi)"
  unfolding ge_double_scalarmult_precomp_vartime_def
  using assms by (intro ge_double_scalarmult_precomp_vartime2_is(1) ge_dsm_precomp_odd)

lemma ge_triple_scalarmult_precomp_vartime_is:
  assumes "reduced a" "reduced b" "reduced c" "odd_multiples G g Ai" "odd_multiples G h Bi" "odd_multiples G k Ci"
  shows "p2_is G (of_int (sc_val a) * g + of_int (sc_val b) * h + of_int (sc_val c) * k) (ge_triple_scalarmult_precomp_vartime a Ai b Bi c Ci)"
proof -
  define D where "D i = of_int (slide a ! i) * g + of_int (slide b ! i) * h + of_int (slide c ! i) * k" for i
  define round where "round i r = dsm_add Ci (slide c ! i) (dsm_add Bi (slide b ! i) (dsm_add Ai (slide a ! i) (ge_p2_dbl r)))" for i r
  have r: "p1p1_is G (l + l + D i) (round i r)" if "i < 256" "p2_is G l r" for i l r
    unfolding D_def round_def add.assoc [symmetric] using assms that
    by (intro dsm_add_is slide_digits ge_p2_dbl_is) simp_all
  have z: "D i = 0" if "\<forall>s \<in> set [slide a, slide b, slide c]. s ! i = 0" for i using that by (simp add: D_def)
  have e: "(\<Sum>i<256. D i * 2 ^ i) = of_int (sc_val a) * g + of_int (sc_val b) * h + of_int (sc_val c) * k"
    using assms(1-3) by (simp add: D_def distrib_right sum.distrib slide_combination)
  show ?thesis
    using dsm_loop(1) [where round = round and D = D and ss = "[slide a, slide b, slide c]", OF r z]
    unfolding e ge_triple_scalarmult_precomp_vartime_def Let_def round_def by simp
qed

text \<open>With the table of odd multiples of the base point.\<close>

definition odd_base :: "('g::comm_ring_1 \<times> fq \<times> fq \<times> fq) set \<Rightarrow> 'g \<Rightarrow> bool" where
  "odd_base G g \<longleftrightarrow> (\<forall>j < 8. precomp_is G (of_int (2 * int j + 1) * g) (ge_Bi ! j))"

lemma dsm_madd_is:
  assumes "odd_base G g" "slide_digit d" "p1p1_is G h t"
  shows "p1p1_is G (h + of_int d * g) (dsm_madd d t)"
proof (cases "d = 0")
  case True
  then show ?thesis using assms(3) by (simp add: dsm_madd_def)
next
  case False
  define j where "j = nat (\<bar>d\<bar> div 2)"
  have j: "j < 8" "2 * int j + 1 = \<bar>d\<bar>" using slide_digit_table [OF assms(2) False] by (simp_all add: j_def)
  then have q: "precomp_is G (of_int \<bar>d\<bar> * g) (ge_Bi ! j)" using assms(1) unfolding odd_base_def by metis
  have u: "p3_is G h (ge_p1p1_to_p3 t)" using assms(3) by (rule ge_p1p1_to_p3_is)
  show ?thesis
  proof (cases "d > 0")
    case True
    then show ?thesis using ge_madd_is [OF u q] by (simp add: dsm_madd_def j_def)
  next
    case False
    then have "\<bar>d\<bar> = - d" "d < 0" using \<open>d \<noteq> 0\<close> by simp_all
    then show ?thesis using ge_msub_is [OF u q] by (simp add: dsm_madd_def j_def)
  qed
qed

lemma ge_double_scalarmult_base_vartime_is:
  assumes "reduced a" "reduced b" "p3_is G g A" "odd_base G h"
  shows "p2_is G (of_int (sc_val a) * g + of_int (sc_val b) * h) (ge_double_scalarmult_base_vartime a A b)"
    "p3_is G (of_int (sc_val a) * g + of_int (sc_val b) * h) (ge_double_scalarmult_base_vartime_p3 a A b)"
proof -
  define D where "D i = of_int (slide a ! i) * g + of_int (slide b ! i) * h" for i
  define round where "round i r = dsm_madd (slide b ! i) (dsm_add (ge_dsm_precomp A) (slide a ! i) (ge_p2_dbl r))" for i r
  have r: "p1p1_is G (k + k + D i) (round i r)" if "i < 256" "p2_is G k r" for i k r
    unfolding D_def round_def add.assoc [symmetric] using assms that
    by (intro dsm_add_is dsm_madd_is ge_dsm_precomp_odd slide_digits ge_p2_dbl_is) simp_all
  have z: "D i = 0" if "\<forall>s \<in> set [slide a, slide b]. s ! i = 0" for i using that by (simp add: D_def)
  have e: "(\<Sum>i<256. D i * 2 ^ i) = of_int (sc_val a) * g + of_int (sc_val b) * h"
    using assms(1,2) by (simp add: D_def distrib_right sum.distrib slide_combination)
  show "p2_is G (of_int (sc_val a) * g + of_int (sc_val b) * h) (ge_double_scalarmult_base_vartime a A b)"
    "p3_is G (of_int (sc_val a) * g + of_int (sc_val b) * h) (ge_double_scalarmult_base_vartime_p3 a A b)"
    using dsm_loop [where round = round and D = D and ss = "[slide a, slide b]", OF r z]
    unfolding e ge_double_scalarmult_base_vartime_def ge_double_scalarmult_base_vartime_p3_def Let_def round_def by simp_all
qed

lemma ge_triple_scalarmult_base_vartime_is:
  assumes "reduced a" "reduced b" "reduced c" "odd_base G g" "odd_multiples G h Bi" "odd_multiples G k Ci"
  shows "p2_is G (of_int (sc_val a) * g + of_int (sc_val b) * h + of_int (sc_val c) * k) (ge_triple_scalarmult_base_vartime a b Bi c Ci)"
proof -
  define D where "D i = of_int (slide a ! i) * g + of_int (slide b ! i) * h + of_int (slide c ! i) * k" for i
  define round where "round i r = dsm_add Ci (slide c ! i) (dsm_add Bi (slide b ! i) (dsm_madd (slide a ! i) (ge_p2_dbl r)))" for i r
  have r: "p1p1_is G (l + l + D i) (round i r)" if "i < 256" "p2_is G l r" for i l r
    unfolding D_def round_def add.assoc [symmetric] using assms that
    by (intro dsm_add_is dsm_madd_is slide_digits ge_p2_dbl_is) simp_all
  have z: "D i = 0" if "\<forall>s \<in> set [slide a, slide b, slide c]. s ! i = 0" for i using that by (simp add: D_def)
  have e: "(\<Sum>i<256. D i * 2 ^ i) = of_int (sc_val a) * g + of_int (sc_val b) * h + of_int (sc_val c) * k"
    using assms(1-3) by (simp add: D_def distrib_right sum.distrib slide_combination)
  show ?thesis
    using dsm_loop(1) [where round = round and D = D and ss = "[slide a, slide b, slide c]", OF r z]
    unfolding e ge_triple_scalarmult_base_vartime_def Let_def round_def by simp
qed

subsection \<open>Properties\<close>

text \<open>C39: The sliding window recoding.  For a scalar below \<open>2^255\<close>, \<open>slide\<close> terminates with 256 digits that represent the
  scalar, each 0 or odd and at most 15 in size, with at least four zeros after every nonzero digit; in particular the carry
  never runs past the last digit.\<close>

theorem slide_spec:
  assumes "length a = 32" "a ! 31 \<le> 127"
  shows "length (slide a) = 256 \<and> (\<Sum>i<256. slide a ! i * 2 ^ i) = int (le_val a) \<and>
    (\<forall>i < 256. slide a ! i \<noteq> 0 \<longrightarrow> odd (slide a ! i) \<and> \<bar>slide a ! i\<bar> \<le> 15 \<and>
      (\<forall>m. i < m \<longrightarrow> m < i + 5 \<longrightarrow> m < 256 \<longrightarrow> slide a ! m = 0))"
  using slide_correct [OF assms] slide_value [OF assms] unfolding sliding_def sparse_def by blast

theorem slide_spec_witness: "(\<Sum>i<256. slide (replicate 31 255 @ [127]) ! i * 2 ^ i) = 2 ^ 255 - 1"
proof -
  have v: "int (le_val (replicate 31 255 @ [127])) = 2 ^ 255 - 1" unfolding le_val_append of_nat_add le_val_ones by simp
  have "length (replicate 31 255 @ [127 :: u8]) = 32" "(replicate 31 255 @ [127 :: u8]) ! 31 \<le> 127" by (simp_all add: nth_append)
  from slide_spec [OF this] show ?thesis unfolding v by blast
qed

text \<open>C40: The signed digits of base 16.  For a scalar below \<open>2^255\<close> both recodings, the one of \<open>ge_scalarmult\<close> over bytes
  and the one of \<open>ge_scalarmult_base\<close> over half bytes, yield 64 digits between -8 and 8 that represent the scalar; no
  \<open>signed char\<close> overflows.\<close>

theorem signed_digits_spec:
  assumes "length a = 32" "a ! 31 \<le> 127"
  shows "signed_digits (scalarmult_digits a) \<and> horner_sum (\<lambda>d. d) 16 (scalarmult_digits a) = int (le_val a) \<and>
    signed_digits (base_digits a) \<and> horner_sum (\<lambda>d. d) 16 (base_digits a) = int (le_val a)"
  using scalarmult_digits_correct [OF assms] base_digits_correct [OF assms] by simp

theorem signed_digits_spec_witness:
  "horner_sum (\<lambda>d. d) 16 (scalarmult_digits (replicate 31 255 @ [127])) = 2 ^ 255 - 1 \<and>
   horner_sum (\<lambda>d. d) 16 (base_digits (replicate 31 255 @ [127])) = 2 ^ 255 - 1"
proof -
  have v: "int (le_val (replicate 31 255 @ [127])) = 2 ^ 255 - 1" unfolding le_val_append of_nat_add le_val_ones by simp
  have "length (replicate 31 255 @ [127 :: u8]) = 32" "(replicate 31 255 @ [127 :: u8]) ! 31 \<le> 127" by (simp_all add: nth_append)
  from signed_digits_spec [OF this] show ?thesis unfolding v by blast
qed

text \<open>C7: Constant time scalar multiplication.  For a scalar \<open>a\<close> below \<open>2^255\<close> and a point \<open>A\<close> of the curve, \<open>ge_scalarmult\<close>
  and \<open>ge_scalarmult_p3\<close> return: no assertion of the conditional moves fails.  The result is on the curve with limbs in
  bounds and is the multiple \<open>a A\<close>, reached from \<open>A\<close> by the addition law.\<close>

theorem ge_scalarmult_spec:
  assumes "length a = 32" "a ! 31 \<le> 127" "p3_ok A"
  defines "G \<equiv> {(1 :: int, fe_fq (p3_X A), fe_fq (p3_Y A), fe_fq (p3_Z A))}"
  shows "(\<exists>r. ge_scalarmult a A = Some r \<and> p2_is G (int (le_val a)) r) \<and>
    (\<exists>r. ge_scalarmult_p3 a A = Some r \<and> p3_is G (int (le_val a)) r)"
proof -
  have "p3_is G 1 A" using assms(3) comb_gen [of 1 _ _ _ G] by (simp add: p3_is_def G_def)
  from ge_scalarmult_is [OF this assms(1,2)] ge_scalarmult_p3_is [OF this assms(1,2)] show ?thesis by simp
qed

theorem ge_scalarmult_spec_witness:
  "\<exists>r. ge_scalarmult (5 # replicate 31 0) ge_p3_0 = Some r \<and>
    p2_is {(1 :: int, fe_fq fe_0, fe_fq fe_1, fe_fq fe_1)} 5 r"
proof -
  have "length (5 # replicate 31 (0 :: u8)) = 32" "(5 # replicate 31 (0 :: u8)) ! 31 \<le> 127" by (simp_all add: nth_Cons')
  from ge_scalarmult_spec [OF this ge_0_ok(2)] show ?thesis by (auto simp: ge_p3_0_def le_val_zeros)
qed

end
