(* ===== verification/PointCodec.thy ===== *)
theory PointCodec
  imports GroupMult
begin

unbundle bit_operations_syntax

text \<open>
  Points as bytes, in \<open>src/crypto/crypto-ops.c\<close>: decompression (\<open>ge_frombytes_vartime\<close>), compression (\<open>ge_tobytes\<close>,
  \<open>ge_p3_tobytes\<close>), the map from hashes to points (\<open>ge_fromfe_frombytes_vartime\<close>) and the test for the neutral element.
  The definitions are in \<open>Group25519\<close>.
\<close>

subsection \<open>Tests on residues\<close>

lemma fe_isnonzero_fq: "fe_bounded fe_bytes_bound f \<Longrightarrow> fe_isnonzero f = (if fe_fq f = 0 then 0 else 1)"
  using fe_isnonzero_correct [of f] fe_fq_num(1) [of f] by (metis fe_fq_num(2) of_int_0 zero_fq.rep_eq)

lemma fe_invert_1: "fe_bounded fe_out_bound (fe_invert fe_1) \<and> fe_fq (fe_invert fe_1) = 1"
proof -
  have "fe_bounded fe_mul_bound fe_1" using fe_consts_fq(2) by (rule fe_bounded_mono) simp
  from fe_invert_correct [OF this] show ?thesis using of_int_fe_num [of "fe_invert fe_1" 1] by (simp add: fe_constants fe_p_def)
qed

lemma fe_sqrtm1_fq: "fe_bounded fe_out_bound fe_sqrtm1" "fe_fq fe_sqrtm1 * fe_fq fe_sqrtm1 = - 1"
proof -
  show "fe_bounded fe_out_bound fe_sqrtm1" using curve_constants_small by (simp add: fe_small_bounded)
  have "(of_int (limb_val fe_w fe_sqrtm1 * limb_val fe_w fe_sqrtm1) :: fq) = of_int (- 1)"
    unfolding fq_of_int_eq using sqrtm1_square by simp
  then show "fe_fq fe_sqrtm1 * fe_fq fe_sqrtm1 = - 1" by (simp add: fe_fq_def)
qed

lemma fe_d_fq: "fe_bounded fe_out_bound fe_d" "fe_fq fe_d = dq"
  using curve_constants_small by (simp_all add: fe_small_bounded dq_def)

text \<open>The sign of a nonzero element is not that of its negation.\<close>

lemma fe_neg_parity:
  assumes "fe_bounded fe_out_bound f" "fe_isnonzero f \<noteq> 0"
  shows "fe_isnegative (fe_neg f) = 1 - fe_isnegative f"
proof -
  have b: "fe_bounded fe_bytes_bound f" using assms(1) by (rule fe_bounded_mono) simp
  have n: "fe_bounded fe_out_bound (fe_neg f) \<and> fe_fq (fe_neg f) = - fe_fq f" using fe_neg_fq [OF assms(1)] by simp
  then have b': "fe_bounded fe_bytes_bound (fe_neg f)" using fe_bounded_mono [of fe_out_bound "fe_neg f" fe_bytes_bound] by simp
  have nz: "fe_num f \<noteq> 0" using assms(2) fe_isnonzero_correct [OF b] by auto
  have "fe_num (fe_neg f) = (- fe_num f) mod fe_p"
    by (metis n fe_fq_num(1) fe_fq_num(2) fq_rep_of_int of_int_minus)
  also have "\<dots> = fe_p - fe_num f" using nz fe_num_range [of f] by (simp add: zmod_zminus1_eq_if fe_num_def)
  finally have "fe_num (fe_neg f) mod 2 = (1 - fe_num f mod 2) mod 2" by (simp add: fe_p_def mod_simps) presburger
  then show ?thesis unfolding fe_isnegative_correct [OF b] fe_isnegative_correct [OF b'] by presburger
qed

lemma sign_cases: "fe_bounded fe_out_bound f \<Longrightarrow> fe_isnegative f = 0 \<or> fe_isnegative f = 1"
  using fe_isnegative_correct [of f] fe_bounded_mono [of fe_out_bound f fe_bytes_bound] by auto

lemma top_bit: "uint (drop_bit 7 (x :: u8)) = uint x div 128"
  using uint_u8 [of x] unfolding unsigned_drop_bit_eq by (simp add: drop_bit_eq_div take_bit_eq_mod)

lemma top_bit_cases: "uint (drop_bit 7 (x :: u8)) = 0 \<or> uint (drop_bit 7 x) = 1"
proof -
  have "0 \<le> uint x" "uint x < 256" using uint_u8 [of x] by simp_all
  then show ?thesis unfolding top_bit by presburger
qed

subsection \<open>Decompression\<close>

text \<open>The square root and the sign, for the decoded \<open>Y\<close>.\<close>

lemma frombytes_root:
  assumes Y: "fe_bounded fe_out_bound Y"
  defines "u \<equiv> fe_sub (fe_sq Y) fe_1" and "v \<equiv> fe_add (fe_mul (fe_sq Y) fe_d) fe_1"
  defines "X \<equiv> fe_divpowm1 u v"
  defines "vxx \<equiv> fe_mul (fe_sq X) v"
  assumes r: "(if fe_isnonzero (fe_sub vxx u) \<noteq> 0
      then if fe_isnonzero (fe_add vxx u) \<noteq> 0 then None else Some (fe_mul X fe_sqrtm1)
      else Some X) = Some R"
  shows "fe_bounded fe_out_bound R \<and> fe_fq R * fe_fq R * (dq * (fe_fq Y * fe_fq Y) + 1) = fe_fq Y * fe_fq Y - 1"
proof -
  have sq: "fe_bounded fe_out_bound (fe_sq Y) \<and> fe_fq (fe_sq Y) = fe_fq Y * fe_fq Y" using fe_sq_fq [OF Y] by simp
  have md: "fe_bounded fe_out_bound (fe_mul (fe_sq Y) fe_d) \<and> fe_fq (fe_mul (fe_sq Y) fe_d) = fe_fq Y * fe_fq Y * dq"
    using fe_mul_fq [OF conjunct1 [OF sq] fe_d_fq(1)] sq fe_d_fq(2) by simp
  have one: "fe_bounded 1 fe_1" by (simp add: fe_1_def fe_bounded_def nth_Cons' less_Suc_eq)
  have u: "fe_bounded 16944989 u \<and> fe_fq u = fe_fq Y * fe_fq Y - 1"
    using fe_sub_fq [OF conjunct1 [OF sq] one] sq fe_consts_fq by (simp add: u_def)
  have v: "fe_bounded 16944989 v \<and> fe_fq v = fe_fq Y * fe_fq Y * dq + 1"
    using fe_add_fq [OF conjunct1 [OF md] one] md fe_consts_fq by (simp add: v_def)
  have X: "fe_bounded fe_out_bound X" unfolding X_def
    using u v fe_bounded_mono [of 16944989 _ fe_mul_bound] by (intro fe_divpowm1_correct) simp_all
  have sx: "fe_bounded fe_out_bound (fe_sq X) \<and> fe_fq (fe_sq X) = fe_fq X * fe_fq X" using fe_sq_fq [OF X] by simp
  have w: "fe_bounded fe_out_bound vxx \<and> fe_fq vxx = fe_fq X * fe_fq X * fe_fq v"
    using fe_mul_fq [OF conjunct1 [OF sx] conjunct1 [OF v]] sx by (simp add: vxx_def)
  have d: "fe_bounded fe_bytes_bound (fe_sub vxx u) \<and> fe_fq (fe_sub vxx u) = fe_fq vxx - fe_fq u"
    "fe_bounded fe_bytes_bound (fe_add vxx u) \<and> fe_fq (fe_add vxx u) = fe_fq vxx + fe_fq u"
    using fe_sub_fq [OF conjunct1 [OF w] conjunct1 [OF u]] fe_add_fq [OF conjunct1 [OF w] conjunct1 [OF u]]
      fe_bounded_mono [of 33889977 _ fe_bytes_bound] by simp_all
  have z: "fe_isnonzero (fe_sub vxx u) = 0 \<longleftrightarrow> fe_fq vxx = fe_fq u" "fe_isnonzero (fe_add vxx u) = 0 \<longleftrightarrow> fe_fq vxx = - fe_fq u"
    using d fe_isnonzero_fq by (auto simp: eq_neg_iff_add_eq_0)
  have g: "dq * (fe_fq Y * fe_fq Y) + 1 = fe_fq v" "fe_fq Y * fe_fq Y - 1 = fe_fq u" using u v by (simp_all add: mult.commute)
  show ?thesis unfolding g
  proof (cases "fe_fq vxx = fe_fq u")
    case True
    then show "fe_bounded fe_out_bound R \<and> fe_fq R * fe_fq R * fe_fq v = fe_fq u" using r z X w by simp
  next
    case False
    then have R: "R = fe_mul X fe_sqrtm1" "fe_fq vxx = - fe_fq u" using r z by (auto split: if_splits)
    have m: "fe_bounded fe_out_bound R \<and> fe_fq R = fe_fq X * fe_fq fe_sqrtm1"
      using fe_mul_fq [OF X fe_sqrtm1_fq(1)] by (simp add: R(1))
    have "fe_fq X * fe_fq fe_sqrtm1 * (fe_fq X * fe_fq fe_sqrtm1) * fe_fq v = fe_fq vxx * (fe_fq fe_sqrtm1 * fe_fq fe_sqrtm1)"
      using w by (simp add: mult_ac)
    then show "fe_bounded fe_out_bound R \<and> fe_fq R * fe_fq R * fe_fq v = fe_fq u" using m by (simp add: fe_sqrtm1_fq(2) R(2))
  qed
qed

text \<open>What decoding yields: the decoded \<open>Y\<close>, and an \<open>X\<close> on the curve with the sign of the top bit.\<close>

lemma ge_frombytes_cases:
  assumes "length s = 32" "ge_frombytes_vartime s = Some P"
  shows "fe_bounded fe_out_bound (p3_X P) \<and> fe_bounded fe_out_bound (p3_Y P) \<and> p3_Z P = fe_1 \<and> p3_T P = fe_mul (p3_X P) (p3_Y P) \<and>
    fe_num (p3_Y P) = int (le_val s) mod 2 ^ 255 \<and> fe_isnegative (p3_X P) = uint (drop_bit 7 (s ! 31)) \<and>
    fe_fq (p3_X P) * fe_fq (p3_X P) * (dq * (fe_fq (p3_Y P) * fe_fq (p3_Y P)) + 1) = fe_fq (p3_Y P) * fe_fq (p3_Y P) - 1"
proof -
  obtain Y where Y: "fe_frombytes_vartime s = Some Y" using assms(2) by (cases "fe_frombytes_vartime s") (auto simp: ge_frombytes_vartime_def)
  have y: "fe_bounded fe_out_bound Y" "fe_num Y = int (le_val s) mod 2 ^ 255" using fe_frombytes_correct(2) [OF assms(1) Y] by simp_all
  define u v where "u = fe_sub (fe_sq Y) fe_1" and "v = fe_add (fe_mul (fe_sq Y) fe_d) fe_1"
  define X where "X = fe_divpowm1 u v"
  define vxx where "vxx = fe_mul (fe_sq X) v"
  define root where "root = (if fe_isnonzero (fe_sub vxx u) \<noteq> 0
      then if fe_isnonzero (fe_add vxx u) \<noteq> 0 then None else Some (fe_mul X fe_sqrtm1) else Some X)"
  have e: "ge_frombytes_vartime s = do {
      R \<leftarrow> root;
      X \<leftarrow> (if fe_isnegative R \<noteq> uint (drop_bit 7 (s ! 31)) then if fe_isnonzero R = 0 then None else Some (fe_neg R) else Some R);
      Some \<lparr>p3_X = X, p3_Y = Y, p3_Z = fe_1, p3_T = fe_mul X Y\<rparr> }"
    by (simp add: ge_frombytes_vartime_def Y Let_def root_def vxx_def X_def u_def v_def)
  obtain R where R: "root = Some R" using assms(2) e by (cases root) auto
  have q: "fe_bounded fe_out_bound R \<and> fe_fq R * fe_fq R * (dq * (fe_fq Y * fe_fq Y) + 1) = fe_fq Y * fe_fq Y - 1"
    using frombytes_root [OF y(1)] R unfolding root_def vxx_def X_def u_def v_def by blast
  show ?thesis
  proof (cases "fe_isnegative R = uint (drop_bit 7 (s ! 31))")
    case True
    then show ?thesis using assms(2) y q unfolding e R by auto
  next
    case False
    then have nz: "fe_isnonzero R \<noteq> 0" and P: "P = \<lparr>p3_X = fe_neg R, p3_Y = Y, p3_Z = fe_1, p3_T = fe_mul (fe_neg R) Y\<rparr>"
      using assms(2) unfolding e R by (auto split: if_splits)
    have "fe_isnegative R = 0 \<or> fe_isnegative R = 1" "uint (drop_bit 7 (s ! 31)) = 0 \<or> uint (drop_bit 7 (s ! 31)) = 1"
      using sign_cases [OF conjunct1 [OF q]] top_bit_cases by simp_all
    then have "fe_isnegative (fe_neg R) = uint (drop_bit 7 (s ! 31))" using fe_neg_parity [OF conjunct1 [OF q] nz] False by auto
    moreover have "fe_bounded fe_out_bound (fe_neg R) \<and> fe_fq (fe_neg R) = - fe_fq R" using fe_neg_fq [OF conjunct1 [OF q]] by simp
    ultimately show ?thesis using y q unfolding P by simp
  qed
qed

lemma ge_frombytes_ok:
  assumes "length s = 32" "ge_frombytes_vartime s = Some P"
  shows "p3_ok P"
proof -
  define x y where "x = fe_fq (p3_X P)" and "y = fe_fq (p3_Y P)"
  note c = ge_frombytes_cases [OF assms]
  have b: "fe_bounded fe_out_bound (p3_X P)" "fe_bounded fe_out_bound (p3_Y P)" using c by simp_all
  have t: "fe_bounded fe_out_bound (p3_T P) \<and> fe_fq (p3_T P) = x * y" using fe_mul_fq [OF b] c by (simp add: x_def y_def)
  have "x * x * (dq * (y * y) + 1) = y * y - 1" using c by (simp add: x_def y_def)
  then have "y * y - x * x = 1 + dq * (x * y * (x * y))" by (simp add: algebra_simps)
  then show ?thesis using b t c fe_consts_fq unfolding p3_ok_def curve_ext_def by (simp add: x_def [symmetric] y_def [symmetric])
qed

text \<open>Setting the top bit of the last byte.\<close>

lemma set_sign:
  assumes "length s = 32" "int (le_val s) < 2 ^ 255" "b = 0 \<or> b = 1"
  shows "int (le_val (s[31 := s ! 31 XOR of_int (push_bit 7 b)])) = int (le_val s) + b * 2 ^ 255"
proof -
  have s: "s = take 31 s @ [s ! 31]" using take_Suc_conv_app_nth [of 31 s] assms(1) by simp
  have v: "int (le_val s) = int (le_val (take 31 s)) + 256 ^ 31 * uint (s ! 31)"
    using arg_cong [OF s, of le_val] assms(1) unfolding le_val_append by simp
  then have "256 ^ 31 * uint (s ! 31) < 256 ^ 31 * 128" using assms(2) by simp
  then have lt: "uint (s ! 31) < 128" by simp
  have "uint (s ! 31 XOR of_int (push_bit 7 b)) = uint (s ! 31) + 128 * b"
  proof (cases "b = 0")
    case False
    then have "b = 1" using assms(3) by simp
    have "take_bit 7 (uint (s ! 31)) = uint (s ! 31)" using lt by (simp add: take_bit_int_eq_self_iff)
    then have "uint (s ! 31) AND 2 ^ 7 = 0" by (metis and_exp_eq_0_iff_not_bit bit_take_bit_iff less_irrefl)
    then have "uint (s ! 31) XOR 128 = uint (s ! 31) + 128" using disjunctive_add_eq_xor [of "uint (s ! 31)" 128] by simp
    then show ?thesis using \<open>b = 1\<close> by (simp add: unsigned_xor_eq)
  qed simp
  moreover have "s[31 := s ! 31 XOR of_int (push_bit 7 b)] = take 31 s @ [s ! 31 XOR of_int (push_bit 7 b)]"
    using assms(1) by (simp add: upd_conv_take_nth_drop)
  ultimately show ?thesis using assms(1) v by (simp add: le_val_append algebra_simps)
qed

text \<open>Encoding a point whose \<open>Z\<close> is 1.\<close>

lemma tobytes_affine:
  assumes b: "fe_bounded fe_out_bound X" "fe_bounded fe_out_bound Y"
  defines "s \<equiv> fe_tobytes (fe_mul Y (fe_invert fe_1))"
  shows "int (le_val (s[31 := s ! 31 XOR of_int (push_bit 7 (fe_isnegative (fe_mul X (fe_invert fe_1))))])) = fe_num Y + fe_isnegative X * 2 ^ 255 \<and>
    length s = 32"
proof -
  have m: "fe_bounded fe_bytes_bound (fe_mul f (fe_invert fe_1)) \<and> fe_num (fe_mul f (fe_invert fe_1)) = fe_num f"
    if "fe_bounded fe_out_bound f" for f
  proof -
    have "fe_bounded fe_out_bound (fe_mul f (fe_invert fe_1)) \<and> fe_fq (fe_mul f (fe_invert fe_1)) = fe_fq f"
      using fe_mul_fq [OF that conjunct1 [OF fe_invert_1]] fe_invert_1 by simp
    then show ?thesis using fe_bounded_mono [of fe_out_bound _ fe_bytes_bound] by (simp add: fe_fq_eq)
  qed
  have s: "int (le_val s) = fe_num Y" "length s = 32" unfolding s_def using fe_tobytes_correct m [OF b(2)] by simp_all
  have n: "fe_isnegative (fe_mul X (fe_invert fe_1)) = fe_isnegative X"
    using m [OF b(1)] fe_isnegative_correct [of X] fe_isnegative_correct fe_bounded_mono [OF b(1), of fe_bytes_bound] by simp
  have "int (le_val s) < 2 ^ 255" unfolding s(1) using fe_num_range(2) [of Y] by (simp add: fe_p_def)
  then show ?thesis unfolding n using set_sign [OF s(2) _ sign_cases [OF b(1)]] s by simp
qed

lemma ge_frombytes_tobytes:
  assumes "length s = 32" "ge_frombytes_vartime s = Some P"
  shows "ge_p3_tobytes P = s \<and> ge_tobytes (ge_p3_to_p2 P) = s"
proof -
  note c = ge_frombytes_cases [OF assms]
  have s: "s = take 31 s @ [s ! 31]" using take_Suc_conv_app_nth [of 31 s] assms(1) by simp
  have v: "int (le_val s) = int (le_val (take 31 s)) + 256 ^ 31 * uint (s ! 31)"
    using arg_cong [OF s, of le_val] assms(1) unfolding le_val_append by simp
  have "le_val (take 31 s) < 256 ^ 31" using le_val_bound [of "take 31 s"] assms(1) by simp
  then have "int (le_val (take 31 s)) < int (256 ^ 31)" by (simp only: of_nat_less_iff)
  then have lt: "int (le_val (take 31 s)) < 256 ^ 31" by simp
  have q: "(a + B * w) div (B * 128) = w div 128" if "0 \<le> a" "a < B" for a B w :: int
    using that by (simp add: zdiv_zmult2_eq)
  have "(2 :: int) ^ 255 = 256 ^ 31 * 128" by simp
  then have "int (le_val s) div 2 ^ 255 = uint (s ! 31) div 128" unfolding v using q [OF _ lt] by (simp only: of_nat_0_le_iff)
  then have "int (le_val s) div 2 ^ 255 = uint (drop_bit 7 (s ! 31))" by (simp only: top_bit)
  then have e: "int (le_val s) = fe_num (p3_Y P) + fe_isnegative (p3_X P) * 2 ^ 255"
    using c div_mult_mod_eq [of "int (le_val s)" "2 ^ 255"] by simp
  have t: "fe_bounded fe_out_bound (p3_X P)" "fe_bounded fe_out_bound (p3_Y P)" "p3_Z P = fe_1" using c by simp_all
  show ?thesis using tobytes_affine [OF t(1,2)] e assms(1)
    by (auto simp: ge_p3_tobytes_def ge_tobytes_def ge_p3_to_p2_def fe_copy_def Let_def t(3) intro!: le_val_inject)
qed

subsection \<open>Further functions\<close>

lemma bytes_zero: "length x = 32 \<Longrightarrow> (\<exists>i \<in> set [0..<32]. x ! i \<noteq> 0) \<longleftrightarrow> le_val x \<noteq> 0"
proof -
  assume l: "length x = 32"
  have "le_val x = 0 \<longleftrightarrow> x = replicate 32 0" using le_val_inject [of x "replicate 32 0"] l by (auto simp: le_val_zeros)
  also have "\<dots> \<longleftrightarrow> (\<forall>i < 32. x ! i = 0)" using l by (simp add: list_eq_iff_nth_eq)
  finally show ?thesis by (auto simp: atLeast0LessThan simp del: upt_rec_numeral)
qed

lemma bytes_differ: "length x = 32 \<Longrightarrow> length y = 32 \<Longrightarrow> (\<exists>i \<in> set [0..<32]. x ! i \<noteq> y ! i) \<longleftrightarrow> x \<noteq> y"
  by (auto simp: list_eq_iff_nth_eq atLeast0LessThan simp del: upt_rec_numeral)

lemma infinity_correct:
  assumes "p3_ok p"
  shows "ge_p3_is_point_at_infinity_vartime p \<longleftrightarrow>
    fe_fq (p3_X p) = 0 \<and> fe_fq (p3_T p) = 0 \<and> fe_fq (p3_Y p) = fe_fq (p3_Z p) \<and> fe_fq (p3_Y p) \<noteq> 0"
proof -
  have b: "fe_bounded fe_bytes_bound (p3_X p)" "fe_bounded fe_bytes_bound (p3_Y p)" "fe_bounded fe_bytes_bound (p3_Z p)" "fe_bounded fe_bytes_bound (p3_T p)"
    using p3_okD [OF assms] fe_bounded_mono [of fe_out_bound _ fe_bytes_bound] by simp_all
  have z: "fe_fq f = 0 \<longleftrightarrow> le_val (fe_tobytes f) = 0" if "fe_bounded fe_bytes_bound f" for f
    unfolding fq_rep_inject [symmetric] fe_fq_num(1) zero_fq.rep_eq using fe_tobytes_correct(1) [OF that] by (metis of_nat_eq_0_iff)
  have e: "fe_fq (p3_Y p) = fe_fq (p3_Z p) \<longleftrightarrow> fe_tobytes (p3_Y p) = fe_tobytes (p3_Z p)"
    unfolding fe_fq_eq using fe_tobytes_inject [OF b(2,3)] by simp
  note l = fe_tobytes_correct(2) [OF b(1)] fe_tobytes_correct(2) [OF b(2)] fe_tobytes_correct(2) [OF b(3)] fe_tobytes_correct(2) [OF b(4)]
  show ?thesis unfolding ge_p3_is_point_at_infinity_vartime_def Let_def e z [OF b(1)] z [OF b(2)] z [OF b(4)]
    by (simp only: bytes_zero [OF l(1)] bytes_zero [OF l(2)] bytes_zero [OF l(4)] bytes_differ [OF l(2,3)]) simp
qed

lemma fe_reduce_vartime_correct:
  assumes "fe_bounded fe_bytes_bound f"
  shows "\<exists>g. fe_reduce_vartime f = Some g \<and> fe_bounded fe_out_bound g \<and> fe_num g = fe_num f"
proof -
  note t = fe_tobytes_correct [OF assms]
  have "fe_num f < 2 ^ 255" using fe_num_range(2) [of f] by (simp add: fe_p_def)
  then have m: "int (le_val (fe_tobytes f)) mod 2 ^ 255 = fe_num f" using t(1) fe_num_range(1) [of f] by simp
  then obtain g where g: "fe_frombytes_vartime (fe_tobytes f) = Some g"
    using fe_frombytes_correct(1) [OF t(2)] fe_num_range(2) [of f] by fastforce
  then show ?thesis using fe_frombytes_correct(2) [OF t(2) g] m by (simp add: fe_reduce_vartime_def)
qed

subsection \<open>From field elements to points\<close>

lemma fromfe_load_within:
  assumes "length s = 32"
  shows "within (map (\<lambda>b. (0, 2 ^ b - 1)) [32, 30, 29, 27, 26, 32, 31, 29, 28, 26]) (fromfe_load s)"
proof (rule fe_load_parts [OF assms])
  fix l0 l1 l2 l3 l4 l5 l6 l7 l8 l9
  assume l: "fe_load s = [l0, l1 * 2 ^ 6, l2 * 2 ^ 5, l3 * 2 ^ 3, l4 * 2 ^ 2, l5, l6 * 2 ^ 7, l7 * 2 ^ 5, l8 * 2 ^ 4, l9 * 2 ^ 2]"
    "0 \<le> l0 \<and> l0 < 2 ^ 32" "0 \<le> l1 \<and> l1 < 2 ^ 24" "0 \<le> l2 \<and> l2 < 2 ^ 24" "0 \<le> l3 \<and> l3 < 2 ^ 24" "0 \<le> l4 \<and> l4 < 2 ^ 24"
    "0 \<le> l5 \<and> l5 < 2 ^ 32" "0 \<le> l6 \<and> l6 < 2 ^ 24" "0 \<le> l7 \<and> l7 < 2 ^ 24" "0 \<le> l8 \<and> l8 < 2 ^ 24" "0 \<le> l9 \<and> l9 < 2 ^ 23"
  have "uint (load_3 (drop 29 s)) < 2 ^ 24" using uint_load_3 [of "drop 29 s"] assms by simp
  then have "sint (push_bit 2 (load_3 (drop 29 s))) = uint (load_3 (drop 29 s)) * 2 ^ 2" by (intro sint_push_small) simp_all
  then have "0 \<le> sint (push_bit 2 (load_3 (drop 29 s)))" "sint (push_bit 2 (load_3 (drop 29 s))) < 2 ^ 26"
    using \<open>uint (load_3 (drop 29 s)) < 2 ^ 24\<close> by simp_all
  then show ?thesis using l(2-) unfolding fromfe_load_def l(1) by (simp add: within_Cons within_Nil)
qed

lemma iv_fe_fromfe:
  "\<exists>iv. opt_fold iv_fe_carry [9, 1, 3, 5, 7, 0, 2, 4, 6, 8]
      (map (\<lambda>b. (0, 2 ^ b - 1)) [32, 30, 29, 27, 26, 32, 31, 29, 28, 26]) = Some iv \<and>
    iv_sub iv (iv_sym (2 * fe_out_bound) fe_out_bound)"
  by (intro exI conjI) (code_simp, code_simp)

lemma fromfe_bounded:
  assumes "length s = 32"
  shows "fe_bounded fe_out_bound (map i32 (fold fe_carry [9, 1, 3, 5, 7, 0, 2, 4, 6, 8] (fromfe_load s)))"
proof -
  obtain iv where iv: "opt_fold iv_fe_carry [9, 1, 3, 5, 7, 0, 2, 4, 6, 8]
      (map (\<lambda>b. (0, 2 ^ b - 1)) [32, 30, 29, 27, 26, 32, 31, 29, 28, 26]) = Some iv"
    "iv_sub iv (iv_sym (2 * fe_out_bound) fe_out_bound)" using iv_fe_fromfe by blast
  define r where "r = fold fe_carry [9, 1, 3, 5, 7, 0, 2, 4, 6, 8] (fromfe_load s)"
  have r: "within iv r" using safe_stepD [OF fe_carries_safe fromfe_load_within [OF assms] iv(1)] unfolding r_def by simp
  have b: "fe_bounded fe_out_bound r" using iv_sub_within [OF iv(2) r] by (simp only: within_iv_sym)
  then show ?thesis using fe_bounded_i32 [OF b] by (simp add: r_def)
qed

text \<open>The constants, as residues; \<open>A = 486662\<close>.\<close>

lemma fromfe_constants:
  "fe_bounded fe_out_bound fe_ma" "fe_bounded fe_out_bound fe_ma2" "fe_bounded fe_out_bound fe_fffb1" "fe_bounded fe_out_bound fe_fffb2"
  "fe_bounded fe_out_bound fe_fffb3" "fe_bounded fe_out_bound fe_fffb4"
  "fe_fq fe_ma = - 486662" "fe_fq fe_ma2 = - (486662 * 486662)"
  "fe_fq fe_fffb1 * fe_fq fe_fffb1 = - (2 * (486662 * 486664))" "fe_fq fe_fffb2 * fe_fq fe_fffb2 = 2 * (486662 * 486664)"
  "fe_fq fe_fffb3 * fe_fq fe_fffb3 = - fe_fq fe_sqrtm1 * (486662 * 486664)"
  "fe_fq fe_fffb4 * fe_fq fe_fffb4 = fe_fq fe_sqrtm1 * (486662 * 486664)"
proof -
  have sq: "fe_fq f * fe_fq g = of_int z" if "limb_val fe_w f * limb_val fe_w g mod fe_p = z mod fe_p" for f g z
    using that unfolding fe_fq_def of_int_mult [symmetric] fq_of_int_eq .
  show "fe_fq fe_ma = - 486662" "fe_fq fe_ma2 = - (486662 * 486662)" by (simp_all add: fe_fq_def constant_values)
  show "fe_fq fe_fffb1 * fe_fq fe_fffb1 = - (2 * (486662 * 486664))" "fe_fq fe_fffb2 * fe_fq fe_fffb2 = 2 * (486662 * 486664)"
    using sq [OF fffb1_square] sq [OF fffb2_square] by simp_all
  show "fe_fq fe_fffb3 * fe_fq fe_fffb3 = - fe_fq fe_sqrtm1 * (486662 * 486664)"
    "fe_fq fe_fffb4 * fe_fq fe_fffb4 = fe_fq fe_sqrtm1 * (486662 * 486664)"
    using sq [OF fffb3_square] sq [OF fffb4_square] by (simp_all only: of_int_mult of_int_minus of_int_numeral fe_fq_def)
qed (use curve_constants_small in \<open>simp_all add: fe_small_bounded\<close>)

lemma unit_121666: "(121666 :: fq) * of_int ((fe_p * 77955 + 1) div 121666) = 1"
proof -
  have "(121666 :: int) * ((fe_p * 77955 + 1) div 121666) = 1 + fe_p * 77955" by (simp add: fe_p_def)
  then have "(of_int (121666 * ((fe_p * 77955 + 1) div 121666)) :: fq) = of_int 1" by (simp only: fq_of_int_eq) simp
  then show ?thesis by simp
qed

lemma dq_fraction: "121666 * dq = - 121665"
proof -
  have "121666 * limb_val fe_w fe_d = - 121665 + fe_p * (- 43711)" unfolding constant_values by (simp add: fe_p_def)
  then have "(of_int (121666 * limb_val fe_w fe_d) :: fq) = of_int (- 121665)" by (simp only: fq_of_int_eq mod_mult_self2)
  then show ?thesis by (simp add: dq_def fe_fq_def)
qed

text \<open>Why the result lies on the curve: \<open>(A + 2) (1 + d y\<^sup>2) = 4 (z\<^sup>2 + A z w + w\<^sup>2)\<close> up to the denominator, for \<open>y = (z - w) / (z + w)\<close>.\<close>

lemma fromfe_curve:
  assumes r: "r * r * x0 = - (486664 * (z * w))" and x0: "z * z + 486662 * (z * w) + w * w = x0"
  shows "curve_proj dq (r * (z + w)) (z - w) (z + w)"
proof -
  define Y Z where "Y = z - w" and "Z = z + w"
  have a: "121666 * (Y * Y - Z * Z) = - (486664 * (z * w))" unfolding Y_def Z_def by (simp add: algebra_simps)
  have "121666 * (Z * Z + dq * (Y * Y)) = 121666 * (Z * Z) + (121666 * dq) * (Y * Y)" by (simp add: algebra_simps)
  also have "\<dots> = x0" unfolding dq_fraction x0 [symmetric] Y_def Z_def by (simp add: algebra_simps)
  finally have b: "121666 * (Z * Z + dq * (Y * Y)) = x0" .
  have "121666 * (Y * Y - Z * Z) = r * r * (121666 * (Z * Z + dq * (Y * Y)))" unfolding a b r ..
  then have "121666 * (Y * Y - Z * Z) = 121666 * (r * r * (Z * Z + dq * (Y * Y)))" by (simp only: mult.left_commute)
  then have "of_int ((fe_p * 77955 + 1) div 121666) * (121666 * (Y * Y - Z * Z)) =
      of_int ((fe_p * 77955 + 1) div 121666) * (121666 * (r * r * (Z * Z + dq * (Y * Y))))" by (simp only:)
  then have c: "Y * Y - Z * Z = r * r * (Z * Z + dq * (Y * Y))"
    using unit_121666 by (simp only: mult.assoc [symmetric] mult.commute [of _ 121666]) simp
  have "(Y * Y - (r * Z) * (r * Z)) * (Z * Z) - Z * Z * (Z * Z) - dq * ((r * Z) * (r * Z) * (Y * Y)) =
      (Y * Y - Z * Z - r * r * (Z * Z + dq * (Y * Y))) * (Z * Z)" by (simp add: algebra_simps)
  also have "\<dots> = 0" unfolding c by simp
  finally show ?thesis unfolding curve_proj_def Y_def [symmetric] Z_def [symmetric] by (simp add: algebra_simps)
qed


text \<open>The two halves of the map: the candidate root, and its correction by one of the four constants.\<close>

lemma fromfe_root:
  assumes u: "fe_bounded fe_out_bound u"
  defines "v \<equiv> fe_sq2 u" defines "w \<equiv> fe_add v fe_1" defines "x0 \<equiv> fe_add (fe_sq w) (fe_mul fe_ma2 v)"
  defines "rX \<equiv> fe_divpowm1 w x0" defines "x \<equiv> fe_mul (fe_sq rX) x0"
  shows "fe_bounded fe_out_bound v \<and> fe_fq v = 2 * (fe_fq u * fe_fq u)"
    "fe_bounded 16944989 w \<and> fe_fq w = fe_fq v + 1"
    "fe_bounded fe_two_bound x0 \<and> fe_fq x0 = fe_fq w * fe_fq w - 486662 * 486662 * fe_fq v"
    "fe_bounded fe_out_bound rX" "fe_bounded fe_out_bound x \<and> fe_fq x = fe_fq rX * fe_fq rX * fe_fq x0"
proof -
  have one: "fe_bounded 1 fe_1" by (simp add: fe_1_def fe_bounded_def nth_Cons' less_Suc_eq)
  show v: "fe_bounded fe_out_bound v \<and> fe_fq v = 2 * (fe_fq u * fe_fq u)" using fe_sq2_fq [OF u] by (simp add: v_def)
  show w: "fe_bounded 16944989 w \<and> fe_fq w = fe_fq v + 1"
    using fe_add_fq [OF conjunct1 [OF v] one] fe_consts_fq by (simp add: w_def)
  have sw: "fe_bounded fe_out_bound (fe_sq w) \<and> fe_fq (fe_sq w) = fe_fq w * fe_fq w" using fe_sq_fq [OF conjunct1 [OF w]] by simp
  have m: "fe_bounded fe_out_bound (fe_mul fe_ma2 v) \<and> fe_fq (fe_mul fe_ma2 v) = - (486662 * 486662) * fe_fq v"
    using fe_mul_fq [OF fromfe_constants(2) conjunct1 [OF v]] fromfe_constants(8) by simp
  show x0: "fe_bounded fe_two_bound x0 \<and> fe_fq x0 = fe_fq w * fe_fq w - 486662 * 486662 * fe_fq v"
    using fe_add_fq [OF conjunct1 [OF sw] conjunct1 [OF m]] sw m by (simp add: x0_def)
  show rX: "fe_bounded fe_out_bound rX" unfolding rX_def
    using w x0 fe_bounded_mono [of fe_two_bound x0 fe_mul_bound] fe_bounded_mono [of 16944989 w fe_mul_bound]
    by (intro fe_divpowm1_correct) simp_all
  have sr: "fe_bounded fe_out_bound (fe_sq rX) \<and> fe_fq (fe_sq rX) = fe_fq rX * fe_fq rX" using fe_sq_fq [OF rX] by simp
  show "fe_bounded fe_out_bound x \<and> fe_fq x = fe_fq rX * fe_fq rX * fe_fq x0"
    using fe_mul_fq [OF conjunct1 [OF sr] conjunct1 [OF x0]] sr by (simp add: x_def)
qed

lemma fromfe_test:
  assumes "fe_bounded 16944989 w" "fe_bounded fe_out_bound x"
  shows "fe_isnonzero (fe_sub w x) = 0 \<longleftrightarrow> fe_fq x = fe_fq w" "fe_isnonzero (fe_add w x) = 0 \<longleftrightarrow> fe_fq x = - fe_fq w"
proof -
  have "fe_bounded fe_bytes_bound (fe_sub w x) \<and> fe_fq (fe_sub w x) = fe_fq w - fe_fq x"
    "fe_bounded fe_bytes_bound (fe_add w x) \<and> fe_fq (fe_add w x) = fe_fq w + fe_fq x"
    using fe_sub_fq [OF assms] fe_add_fq [OF assms] fe_bounded_mono [of 33889977 _ fe_bytes_bound] by simp_all
  then show "fe_isnonzero (fe_sub w x) = 0 \<longleftrightarrow> fe_fq x = fe_fq w" "fe_isnonzero (fe_add w x) = 0 \<longleftrightarrow> fe_fq x = - fe_fq w"
    using fe_isnonzero_fq by (auto simp: eq_neg_iff_add_eq_0 add.commute)
qed

lemma mul_out:
  assumes "fe_bounded fe_out_bound f" "fe_bounded fe_out_bound g"
  shows "fe_bounded fe_out_bound (fe_mul f g) \<and> fe_fq (fe_mul f g) = fe_fq f * fe_fq g"
  using fe_mul_fq [OF assms] by simp

text \<open>After the correction, the square of the root and \<open>z\<close> satisfy the equation behind \<open>fromfe_curve\<close>.\<close>

lemma fromfe_corrected:
  assumes u: "fe_bounded fe_out_bound u"
  defines "v \<equiv> fe_sq2 u" defines "w \<equiv> fe_add v fe_1" defines "x0 \<equiv> fe_add (fe_sq w) (fe_mul fe_ma2 v)"
  defines "rX \<equiv> fe_divpowm1 w x0" defines "x \<equiv> fe_mul (fe_sq rX) x0"
  defines "xs \<equiv> fe_mul x fe_sqrtm1"
  assumes r: "(if fe_isnonzero (fe_sub w x) \<noteq> 0 \<and> fe_isnonzero (fe_add w x) \<noteq> 0
       then do {
         rX \<leftarrow> (if fe_isnonzero (fe_sub w xs) \<noteq> 0
               then if fe_isnonzero (fe_add w xs) = 0 then Some (fe_mul rX fe_fffb3) else None
               else Some (fe_mul rX fe_fffb4));
         Some (rX, fe_copy fe_ma, 1 :: int) }
       else Some (fe_mul (if fe_isnonzero (fe_sub w x) \<noteq> 0 then fe_mul rX fe_fffb1 else fe_mul rX fe_fffb2) u,
         fe_mul (fe_copy fe_ma) v, 0)) = Some (R, z, sign)"
  shows "fe_bounded fe_out_bound R \<and> fe_bounded fe_out_bound z \<and>
    fe_fq R * fe_fq R * fe_fq x0 = - (486664 * (fe_fq z * fe_fq w)) \<and>
    fe_fq z * fe_fq z + 486662 * (fe_fq z * fe_fq w) + fe_fq w * fe_fq w = fe_fq x0"
proof -
  note f = fromfe_root [OF u, folded v_def, folded w_def, folded x0_def, folded rX_def, folded x_def]
  define U V W X0 X r0 i where "U = fe_fq u" and "V = fe_fq v" and "W = fe_fq w" and "X0 = fe_fq x0" and "X = fe_fq x"
    and "r0 = fe_fq rX" and "i = fe_fq fe_sqrtm1"
  have e: "V = 2 * (U * U)" "W = V + 1" "X0 = W * W - 486662 * 486662 * V" "X = r0 * r0 * X0"
    using f by (simp_all add: U_def V_def W_def X0_def X_def r0_def)
  have b: "fe_bounded fe_out_bound v" "fe_bounded 16944989 w" "fe_bounded fe_out_bound rX" "fe_bounded fe_out_bound x" using f by simp_all
  have xs: "fe_bounded fe_out_bound xs \<and> fe_fq xs = X * i" using mul_out [OF b(4) fe_sqrtm1_fq(1)] by (simp add: xs_def X_def i_def)
  note t = fromfe_test [OF b(2,4), folded X_def W_def] fromfe_test [OF b(2) conjunct1 [OF xs], unfolded conjunct2 [OF xs], folded W_def]
  have ma: "fe_fq fe_ma = - 486662" by (rule fromfe_constants)
  show ?thesis unfolding U_def [symmetric] V_def [symmetric] W_def [symmetric] X0_def [symmetric]
  proof (cases "X = W \<or> X = - W")
    case True
    define g where "g = (if X = W then fe_fffb2 else fe_fffb1)"
    have g: "fe_bounded fe_out_bound g" using fromfe_constants by (simp add: g_def)
    have R: "R = fe_mul (fe_mul rX g) u" "z = fe_mul fe_ma v" using r True t by (auto simp: g_def fe_copy_def split: if_splits)
    note m = mul_out [OF b(3) g] and mz = mul_out [OF fromfe_constants(1) b(1)]
    have m': "fe_bounded fe_out_bound R \<and> fe_fq R = r0 * fe_fq g * U"
      using mul_out [OF conjunct1 [OF m] u] m by (simp add: R(1) r0_def U_def)
    have z: "fe_bounded fe_out_bound z \<and> fe_fq z = - 486662 * V" using mz by (simp add: R(2) V_def ma)
    have g2: "X * (fe_fq g * fe_fq g) = W * (2 * (486662 * 486664))"
      using True fromfe_constants(9,10) by (auto simp: g_def)
    have "r0 * fe_fq g * U * (r0 * fe_fq g * U) * X0 = X * (fe_fq g * fe_fq g) * (U * U)" unfolding e(4) by (simp add: mult_ac)
    also have "\<dots> = - (486664 * (- 486662 * V * W))" unfolding g2 e(1) by (simp add: mult_ac)
    finally have q: "r0 * fe_fq g * U * (r0 * fe_fq g * U) * X0 = - (486664 * (- 486662 * V * W))" .
    have "- 486662 * V * (- 486662 * V) + 486662 * (- 486662 * V * W) + W * W = X0" unfolding e(3) e(2) by (simp add: algebra_simps)
    then show "fe_bounded fe_out_bound R \<and> fe_bounded fe_out_bound z \<and> fe_fq R * fe_fq R * X0 = - (486664 * (fe_fq z * W)) \<and>
        fe_fq z * fe_fq z + 486662 * (fe_fq z * W) + W * W = X0" unfolding conjunct2 [OF m'] conjunct2 [OF z] using m' z q by blast
  next
    case False
    define g where "g = (if X * i = W then fe_fffb4 else fe_fffb3)"
    have g: "fe_bounded fe_out_bound g" using fromfe_constants by (simp add: g_def)
    have R: "R = fe_mul rX g" "z = fe_ma" "X * i = W \<or> X * i = - W"
      using r False t by (auto simp: g_def fe_copy_def split: if_splits)
    have m: "fe_bounded fe_out_bound R \<and> fe_fq R = r0 * fe_fq g" using mul_out [OF b(3) g] by (simp add: R(1) r0_def)
    have z: "fe_bounded fe_out_bound z \<and> fe_fq z = - 486662" using fromfe_constants(1) ma by (simp add: R(2))
    have "fe_fq g * fe_fq g = (if X * i = W then i else - i) * (486662 * 486664)"
      unfolding g_def i_def using fromfe_constants(11,12) by (simp only: if_distrib [of fe_fq] split: if_splits) simp
    then have "X * (fe_fq g * fe_fq g) = (if X * i = W then X * i else - (X * i)) * (486662 * 486664)"
      by (cases "X * i = W") (simp_all only: simp_thms if_True if_False mult.assoc [symmetric] mult_minus_right)
    also have "\<dots> = W * (486662 * 486664)" using R(3) by auto
    finally have g2: "X * (fe_fq g * fe_fq g) = W * (486662 * 486664)" .
    have "r0 * fe_fq g * (r0 * fe_fq g) * X0 = X * (fe_fq g * fe_fq g)" unfolding e(4) by (simp add: mult_ac)
    also have "\<dots> = - (486664 * (- 486662 * W))" unfolding g2 by (simp add: mult_ac)
    finally have q: "r0 * fe_fq g * (r0 * fe_fq g) * X0 = - (486664 * (- 486662 * W))" .
    have "- 486662 * - 486662 + 486662 * (- 486662 * W) + W * W = X0" unfolding e(3) e(2) by (simp add: algebra_simps)
    then show "fe_bounded fe_out_bound R \<and> fe_bounded fe_out_bound z \<and> fe_fq R * fe_fq R * X0 = - (486664 * (fe_fq z * W)) \<and>
        fe_fq z * fe_fq z + 486662 * (fe_fq z * W) + W * W = X0" unfolding conjunct2 [OF m] conjunct2 [OF z] using m z q by blast
  qed
qed

lemma fromfe_ok:
  assumes "length s = 32" "fromfe_point s = Some P"
  shows "p2_wide P"
proof -
  define u where "u = map i32 (fold fe_carry [9, 1, 3, 5, 7, 0, 2, 4, 6, 8] (fromfe_load s))"
  have u: "fe_bounded fe_out_bound u" unfolding u_def by (rule fromfe_bounded [OF assms(1)])
  define v where "v = fe_sq2 u"
  define w where "w = fe_add v fe_1"
  define x0 where "x0 = fe_add (fe_sq w) (fe_mul fe_ma2 v)"
  define rX where "rX = fe_divpowm1 w x0"
  define x where "x = fe_mul (fe_sq rX) x0"
  define xs where "xs = fe_mul x fe_sqrtm1"
  note f = fromfe_root [OF u, folded v_def, folded w_def, folded x0_def, folded rX_def, folded x_def]
  define root where "root = (if fe_isnonzero (fe_sub w x) \<noteq> 0 \<and> fe_isnonzero (fe_add w x) \<noteq> 0
       then do {
         rX \<leftarrow> (if fe_isnonzero (fe_sub w xs) \<noteq> 0
               then if fe_isnonzero (fe_add w xs) = 0 then Some (fe_mul rX fe_fffb3) else None
               else Some (fe_mul rX fe_fffb4));
         Some (rX, fe_copy fe_ma, 1 :: int) }
       else Some (fe_mul (if fe_isnonzero (fe_sub w x) \<noteq> 0 then fe_mul rX fe_fffb1 else fe_mul rX fe_fffb2) u,
         fe_mul (fe_copy fe_ma) v, 0))"
  have e: "fromfe_point s = do {
      (rX, z, sign) \<leftarrow> root;
      rX \<leftarrow> (if fe_isnegative rX \<noteq> sign then if fe_isnonzero rX \<noteq> 0 then Some (fe_neg rX) else None else Some rX);
      Some \<lparr>p2_X = fe_mul rX (fe_add z w), p2_Y = fe_sub z w, p2_Z = fe_add z w\<rparr> }"
    unfolding fromfe_point_def root_def xs_def x_def rX_def x0_def w_def v_def u_def Let_def ..
  obtain R z sign where r: "root = Some (R, z, sign)" using assms(2) e by (cases root) auto
  from fromfe_corrected [OF u, folded v_def, folded w_def, folded x0_def, folded rX_def, folded x_def, folded xs_def, folded root_def, OF r]
  have c: "fe_bounded fe_out_bound R" "fe_bounded fe_out_bound z" "fe_fq R * fe_fq R * fe_fq x0 = - (486664 * (fe_fq z * fe_fq w))"
    "fe_fq z * fe_fq z + 486662 * (fe_fq z * fe_fq w) + fe_fq w * fe_fq w = fe_fq x0" by simp_all
  define S where "S = (if fe_isnegative R \<noteq> sign then fe_neg R else R)"
  have S: "fe_bounded fe_out_bound S" "fe_fq S * fe_fq S = fe_fq R * fe_fq R" using c(1) fe_neg_fq [OF c(1)] by (simp_all add: S_def)
  have P: "P = \<lparr>p2_X = fe_mul S (fe_add z w), p2_Y = fe_sub z w, p2_Z = fe_add z w\<rparr>"
    using assms(2) unfolding e r S_def by (auto split: if_splits)
  have zw: "fe_bounded fe_wide_bound (fe_add z w) \<and> fe_fq (fe_add z w) = fe_fq z + fe_fq w"
    "fe_bounded fe_wide_bound (fe_sub z w) \<and> fe_fq (fe_sub z w) = fe_fq z - fe_fq w"
    using fe_add_fq [OF c(2) conjunct1 [OF f(2)]] fe_sub_fq [OF c(2) conjunct1 [OF f(2)]] by simp_all
  have X: "fe_bounded fe_out_bound (fe_mul S (fe_add z w)) \<and> fe_fq (fe_mul S (fe_add z w)) = fe_fq S * (fe_fq z + fe_fq w)"
    using fe_mul_fq [OF S(1) conjunct1 [OF zw(1)]] zw(1) by simp
  have "curve_proj dq (fe_fq S * (fe_fq z + fe_fq w)) (fe_fq z - fe_fq w) (fe_fq z + fe_fq w)"
    by (rule fromfe_curve [of _ "fe_fq x0"]) (use c S in simp_all)
  then show ?thesis using X zw by (simp add: P p2_wide_def)
qed

lemma fromfe_frombytes_ok: "length s = 32 \<Longrightarrow> ge_fromfe_frombytes_vartime s = Some P \<Longrightarrow> p2_wide P"
  by (auto simp: ge_fromfe_frombytes_vartime_def bind_eq_Some_conv split: if_splits intro: fromfe_ok)

lemma fe_isnonzero_0: "fe_bounded fe_out_bound f \<Longrightarrow> fe_fq f = 0 \<Longrightarrow> fe_isnonzero f = 0 \<and> fe_isnegative f = 0"
  using fe_isnonzero_fq [of f] fe_isnegative_correct [of f] fe_bounded_mono [of fe_out_bound f fe_bytes_bound] fe_fq_num(1) [of f]
  by (simp add: zero_fq.rep_eq)

text \<open>The neutral element is encoded by the number 1.\<close>

lemma frombytes_neutral: "\<exists>P. ge_frombytes_vartime (1 # replicate 31 0) = Some P"
proof -
  define s :: bytes where "s = 1 # replicate 31 0"
  have s: "length s = 32" "int (le_val s) mod 2 ^ 255 = 1" by (simp_all add: s_def le_val_zeros)
  obtain Y where Y: "fe_frombytes_vartime s = Some Y"
    using fe_frombytes_correct(1) [OF s(1)] s(2) by (auto simp: fe_p_def)
  then have y: "fe_bounded fe_out_bound Y" "fe_fq Y = 1" using fe_frombytes_correct(2) [OF s(1) Y] s(2) by (simp_all add: fe_fq_num)
  define u v where "u = fe_sub (fe_sq Y) fe_1" and "v = fe_add (fe_mul (fe_sq Y) fe_d) fe_1"
  define X where "X = fe_divpowm1 u v"
  have sq: "fe_bounded fe_out_bound (fe_sq Y) \<and> fe_fq (fe_sq Y) = 1" using fe_sq_fq [OF y(1)] y(2) by simp
  have u: "fe_bounded fe_two_bound u \<and> fe_fq u = 0"
    using fe_sub_fq [OF conjunct1 [OF sq] fe_consts_fq(2)] sq fe_consts_fq by (simp add: u_def)
  have md: "fe_bounded fe_out_bound (fe_mul (fe_sq Y) fe_d)" using mul_out [OF conjunct1 [OF sq] fe_d_fq(1)] by simp
  have v: "fe_bounded fe_two_bound v" using fe_add_fq [OF md fe_consts_fq(2)] by (simp add: v_def)
  have "fe_num u = 0" using u fe_fq_num(1) [of u] by (simp add: zero_fq.rep_eq)
  then have X: "fe_bounded fe_out_bound X" "fe_fq X = 0"
    using fe_divpowm1_correct [of u v] u v fe_bounded_mono [of fe_two_bound _ fe_mul_bound]
    by (simp_all add: X_def fe_fq_num)
  have w: "fe_bounded fe_out_bound (fe_mul (fe_sq X) v) \<and> fe_fq (fe_mul (fe_sq X) v) = 0"
    using fe_sq_fq [OF X(1)] fe_mul_fq [of fe_out_bound "fe_sq X" fe_two_bound v] X(2) v by simp
  have "fe_bounded 16944989 u" unfolding u_def
  proof -
    have "fe_bounded 1 fe_1" by (simp add: fe_1_def fe_bounded_def nth_Cons' less_Suc_eq)
    then show "fe_bounded 16944989 (fe_sub (fe_sq Y) fe_1)" using fe_sub_fq [OF conjunct1 [OF sq], of 1 fe_1] by simp
  qed
  then have "fe_isnonzero (fe_sub (fe_mul (fe_sq X) v) u) = 0"
    using fe_sub_fq [OF conjunct1 [OF w], of 16944989 u] w u fe_bounded_mono [of 33889977 _ fe_bytes_bound] fe_isnonzero_fq by simp
  then have "ge_frombytes_vartime s = Some \<lparr>p3_X = X, p3_Y = Y, p3_Z = fe_1, p3_T = fe_mul X Y\<rparr>"
    using fe_isnonzero_0 [OF X]
    by (simp add: ge_frombytes_vartime_def Y Let_def X_def [symmetric] u_def [symmetric] v_def [symmetric]) (simp add: s_def)
  then show ?thesis by (auto simp: s_def)
qed

lemma fromfe_zero: "\<exists>P. fromfe_point (replicate 32 0) = Some P"
proof -
  define s :: bytes where "s = replicate 32 0"
  define u where "u = map i32 (fold fe_carry [9, 1, 3, 5, 7, 0, 2, 4, 6, 8] (fromfe_load s))"
  have "u = fe_0" unfolding u_def s_def by code_simp
  then have u: "fe_bounded fe_out_bound u" "fe_fq u = 0" using fe_consts_fq by simp_all
  define v where "v = fe_sq2 u"
  define w where "w = fe_add v fe_1"
  define x0 where "x0 = fe_add (fe_sq w) (fe_mul fe_ma2 v)"
  define rX where "rX = fe_divpowm1 w x0"
  define x where "x = fe_mul (fe_sq rX) x0"
  note f = fromfe_root [OF u(1), folded v_def, folded w_def, folded x0_def, folded rX_def, folded x_def]
  have q: "fe_fq v = 0" "fe_fq w = 1" "fe_fq x0 = 1" using f u(2) by simp_all
  have x0: "fe_bounded fe_mul_bound x0" "fe_bounded fe_mul_bound w"
    using f(2,3) fe_bounded_mono [of fe_two_bound x0 fe_mul_bound] fe_bounded_mono [of 16944989 w fe_mul_bound] by simp_all
  have "fe_num w = 1" "fe_num x0 = 1" using q fe_fq_num(1) [of w] fe_fq_num(1) [of x0] fq_rep_of_int [of 1] by (simp_all add: fe_p_def)
  then have "fe_fq rX = 1" using fe_divpowm1_correct(2) [OF x0(2,1)] by (simp add: rX_def fe_fq_num fe_p_def)
  then have "fe_fq x = fe_fq w" using f(5) q by simp
  then have "fe_isnonzero (fe_sub w x) = 0" using fromfe_test(1) [OF conjunct1 [OF f(2)] conjunct1 [OF f(5)]] by blast
  moreover have "fe_bounded fe_out_bound (fe_mul (fe_mul rX fe_fffb2) u) \<and> fe_fq (fe_mul (fe_mul rX fe_fffb2) u) = 0"
    using mul_out [OF f(4) fromfe_constants(4)] mul_out [of "fe_mul rX fe_fffb2" u] u by simp
  ultimately have "fromfe_point s \<noteq> None"
    using fe_isnonzero_0 [of "fe_mul (fe_mul rX fe_fffb2) u"]
    unfolding fromfe_point_def Let_def u_def [symmetric] v_def [symmetric] w_def [symmetric] x0_def [symmetric]
      rX_def [symmetric] x_def [symmetric] by simp
  then show ?thesis by (auto simp: s_def)
qed

subsection \<open>Properties\<close>

text \<open>C14: Decompression.  Every point that \<open>ge_frombytes_vartime\<close> accepts lies on the curve with limbs in bounds, has \<open>Z = 1\<close>
  and compresses to the same 32 bytes again, from extended and from projective coordinates: decoding is injective, and the
  string that names a point is unique.\<close>

theorem ge_frombytes_spec:
  assumes "length s = 32" "ge_frombytes_vartime s = Some P"
  shows "p3_ok P \<and> p3_Z P = fe_1 \<and> ge_p3_tobytes P = s \<and> ge_tobytes (ge_p3_to_p2 P) = s"
  using ge_frombytes_ok [OF assms] ge_frombytes_tobytes [OF assms] ge_frombytes_cases [OF assms] by simp

theorem ge_frombytes_spec_witness:
  "\<exists>P. ge_frombytes_vartime (1 # replicate 31 0) = Some P \<and> p3_ok P \<and> ge_p3_tobytes P = 1 # replicate 31 0"
proof -
  obtain P where "ge_frombytes_vartime (1 # replicate 31 0) = Some P" using frombytes_neutral by blast
  then show ?thesis using ge_frombytes_spec [of "1 # replicate 31 0" P] by simp
qed

text \<open>C38: The map behind \<open>hash_to_ec\<close>.  The point that \<open>ge_fromfe_frombytes_vartime\<close> computes is on the curve whatever the
  32 bytes are, also in a build without the final check of the curve equation, and its limbs are within what the eightfold
  multiple after it accepts: \<open>ge_mul8\<close> yields a point of the curve with limbs in bounds.  The function returns that point and
  no other.\<close>

theorem ge_fromfe_spec:
  assumes "length s = 32" "fromfe_point s = Some P"
  shows "p2_wide P \<and> p3_ok (ge_p1p1_to_p3 (ge_mul8 P)) \<and> set_option (ge_fromfe_frombytes_vartime s) \<subseteq> {P}"
  using fromfe_ok [OF assms] ge_mul8_wide ge_p1p1_to_p3_ok(1) assms(2) by (auto simp: ge_fromfe_frombytes_vartime_def)

theorem ge_fromfe_spec_witness:
  "\<exists>P. fromfe_point (replicate 32 0) = Some P \<and> p2_wide P \<and> p3_ok (ge_p1p1_to_p3 (ge_mul8 P))"
proof -
  obtain P where "fromfe_point (replicate 32 0) = Some P" using fromfe_zero by blast
  then show ?thesis using ge_fromfe_spec [of "replicate 32 0" P] by simp
qed

end
