(* ===== verification/BaseTable.thy ===== *)
theory BaseTable
  imports GroupMult
begin

text \<open>
  The table \<open>ge_Bi\<close> of \<open>src/crypto/crypto-ops-data.c\<close> holds the odd multiples of the base point.  The products modulo the
  prime that this takes are checked with their quotients as certificates.
\<close>

subsection \<open>Certified products modulo the prime\<close>

definition fq_cert :: "int \<Rightarrow> int \<Rightarrow> int \<Rightarrow> int \<Rightarrow> bool" where
  "fq_cert a b c k \<longleftrightarrow> a * b + 19 * k = c + 57896044618658097711785492504343953926634992332820282019728792003956564819968 * k"

lemma fq_certD:
  assumes "fq_cert a b c k"
  shows "(of_int a * of_int b :: fq) = of_int c"
proof -
  have "a * b = c + fe_p * k" using assms by (simp add: fq_cert_def fe_p_def algebra_simps)
  then have "(of_int (a * b) :: fq) = of_int c" by (simp only: fq_of_int_eq) simp
  then show ?thesis by simp
qed

lemmas num_eval = numeral_times_numeral numeral_plus_numeral mult_num_simps add_num_simps

lemma fq_linear: "a = b + fe_p * k \<Longrightarrow> (of_int a :: fq) = of_int b"
  by (simp only: fq_of_int_eq) simp

definition table_entry :: "ge_precomp \<Rightarrow> int \<Rightarrow> int \<Rightarrow> int \<Rightarrow> int \<Rightarrow> bool" where
  "table_entry q x y t u \<longleftrightarrow> precomp_of q (of_int x) (of_int y) \<and> (of_int x * of_int y :: fq) = of_int t \<and>
    dq * of_int t = of_int u \<and> curve_ext dq (of_int x) (of_int y) 1 (of_int t)"

lemma table_entryI:
  assumes small: "precomp_small q"
    and certs: "fq_cert x y t k1" "fq_cert 37095705934669439343138083508754565189542113879843219016388785533085940283555 t u k2"
      "fq_cert ys yd s k3" "fq_cert u t s1 k4"
    and linear: "x + y = ys + fe_p * l1" "y = yd + x + fe_p * l2" "s = s1 + 1"
    and tab: "limb_val fe_w (yplusx q) = ys + fe_p * m1" "limb_val fe_w (yminusx q) = yd + fe_p * m2"
      "limb_val fe_w (xy2d q) = 2 * u + fe_p * m3"
  shows "table_entry q x y t u"
proof -
  have d: "dq = of_int 37095705934669439343138083508754565189542113879843219016388785533085940283555"
    unfolding dq_def fe_fq_def constant_values by (rule fq_linear [where k = "- 1"]) (simp add: fe_p_def)
  note c = certs [THEN fq_certD]
  have l: "of_int y + of_int x = (of_int ys :: fq)" "of_int y - of_int x = (of_int yd :: fq)"
    using fq_linear [OF linear(1)] fq_linear [OF linear(2)] by (simp_all add: add.commute)
  have t: "fe_fq (yplusx q) = of_int ys" "fe_fq (yminusx q) = of_int yd" "fe_fq (xy2d q) = of_int (2 * u)"
    unfolding fe_fq_def using tab [THEN fq_linear] .
  have "(of_int y * of_int y - of_int x * of_int x :: fq) = (of_int y + of_int x) * (of_int y - of_int x)" by (simp add: algebra_simps)
  also have "\<dots> = of_int s" unfolding l by (rule c(3))
  also have "\<dots> = 1 + dq * (of_int t * of_int t)" unfolding d mult.assoc [symmetric] c(2) c(4) linear(3) by simp
  finally have e: "(of_int y * of_int y - of_int x * of_int x :: fq) = 1 + dq * (of_int t * of_int t)" .
  have "precomp_of q (of_int x) (of_int y)"
    using small unfolding precomp_of_def t l c(1) d c(2) precomp_small_def by (simp add: fe_small_bounded)
  then show ?thesis unfolding table_entry_def curve_ext_def using c(1,2) d e by simp
qed

lemma table_entry_is:
  assumes "table_entry q x y t u" "curve_comb G g (of_int x) (of_int y) 1"
  shows "precomp_is G g q"
  using assms unfolding table_entry_def precomp_is_def by metis

lemma comb_affine:
  assumes "curve_comb G g (x * c) (y * c) c" "c * c' = 1"
  shows "curve_comb G g x y 1"
proof -
  have "c' * (z * c) = z" for z using assms(2) by (metis mult.assoc mult.commute mult_1_right)
  moreover have "c' * c = 1" using assms(2) by (simp only: mult.commute)
  ultimately show ?thesis using comb_scale [OF assms(1), of c' c] by simp
qed

lemma table_double:
  assumes e: "table_entry q x y t u" and comb: "curve_comb G g (of_int x) (of_int y) 1"
    and certs: "fq_cert x x x2 k1" "fq_cert y y y2 k2" "fq_cert xq s t' k3" "fq_cert yq v n k4" "fq_cert s v z k5" "fq_cert z z' 1 k6"
    and linear: "y2 = s + x2 + fe_p * l1" "2 = s + v + fe_p * l2" "y2 + x2 = n + fe_p * l3" "2 * t = t' + fe_p * l4"
  shows "curve_comb G (g + g) (of_int xq) (of_int yq) 1"
proof -
  note c = certs [THEN fq_certD] and lin = linear [THEN fq_linear]
  have p: "curve_proj dq (of_int x) (of_int y) 1" "(of_int x * of_int y :: fq) = of_int t"
    using e curve_ext_proj by (auto simp: table_entry_def)
  have s: "(of_int y * of_int y - of_int x * of_int x :: fq) = of_int s" unfolding c using lin(1) by simp
  have v: "2 * (1 * 1) - of_int s = (of_int v :: fq)" using lin(2) by (simp add: diff_eq_eq add.commute)
  have n: "(of_int y * of_int y + of_int x * of_int x :: fq) = of_int n" unfolding c using lin(3) by simp
  have t: "2 * of_int t = (of_int t' :: fq)" using lin(4) by simp
  have "curve_comb G (g + g) (2 * of_int t * of_int v) (of_int n * of_int s) (of_int s * of_int v)"
    using comb_dbl [OF comb p(1)] unfolding p(2) s v n by (simp only: mult_1_right)
  then have "curve_comb G (g + g) (of_int xq * of_int z) (of_int yq * of_int z) (of_int z)"
    unfolding t c(3) [symmetric] c(4) [symmetric] c(5) [symmetric] by (simp only: mult_ac)
  then show ?thesis using c(6) by (intro comb_affine) simp_all
qed

lemma table_step:
  assumes e: "table_entry q1 x1 y1 t1 u1" and comb: "curve_comb G g (of_int x1) (of_int y1) 1"
    and eq: "curve_ext dq (of_int xq) (of_int yq) 1 (of_int tq)" and combq: "curve_comb G h (of_int xq) (of_int yq) 1"
    and certs: "fq_cert u1 tq e k1" "fq_cert x1 yq m1 k2" "fq_cert y1 xq m2 k3" "fq_cert y1 yq m3 k4" "fq_cert x1 xq m4 k5"
      "fq_cert x3 e w1 k6" "fq_cert y3 e w2 k7" "fq_cert e e f k8" "fq_cert c c' 1 k9"
    and linear: "x3 + w1 = m1 + m2 + fe_p * l1" "y3 = m3 + m4 + w2 + fe_p * l2" "1 = c + f + fe_p * l3"
  shows "curve_comb G (g + h) (of_int x3) (of_int y3) 1"
proof -
  note ct = certs [THEN fq_certD] and lin = linear [THEN fq_linear]
  define E where "E = (of_int e :: fq)"
  have p: "curve_ext dq (of_int x1) (of_int y1) 1 (of_int t1)" "dq * of_int t1 = of_int u1" using e by (auto simp: table_entry_def)
  have E: "dq * (of_int t1 * of_int tq) = E" unfolding E_def mult.assoc [symmetric] p(2) by (rule ct(1))
  have N1: "of_int m1 + of_int m2 = of_int x3 * (1 + E)" using lin(1) ct(6) by (simp add: E_def algebra_simps)
  have N2: "of_int m3 + of_int m4 = of_int y3 * (1 - E)" using lin(2) ct(7) by (simp add: E_def algebra_simps)
  have C: "(1 + E) * (1 - E) = of_int c" using lin(3) ct(8) by (simp add: E_def algebra_simps)
  have "curve_comb G (g + h) (of_int x3 * ((1 + E) * (1 - E))) (of_int y3 * ((1 + E) * (1 - E))) ((1 + E) * (1 - E))"
    using comb_add [OF comb combq p(1) eq] unfolding E ct(2-5) N1 N2 by (simp add: mult_ac)
  then show ?thesis unfolding C using ct(9) by (intro comb_affine) simp_all
qed

subsection \<open>The entries of the table\<close>

lemma cert_ext:
  assumes certs: "fq_cert x y t k1" "fq_cert 37095705934669439343138083508754565189542113879843219016388785533085940283555 t u k2"
      "fq_cert u t v k3" "fq_cert x x x2 k4" "fq_cert y y y2 k5" and linear: "y2 = x2 + 1 + v + fe_p * l"
  shows "curve_ext dq (of_int x) (of_int y) 1 (of_int t)"
proof -
  have d: "dq = of_int 37095705934669439343138083508754565189542113879843219016388785533085940283555"
    unfolding dq_def fe_fq_def constant_values by (rule fq_linear [where k = "- 1"]) (simp add: fe_p_def)
  note c = certs [THEN fq_certD]
  show ?thesis unfolding curve_ext_def c d mult.assoc [symmetric] using fq_linear [OF linear] by simp
qed

lemma Bi_0: "table_entry (ge_Bi ! 0)
  15112221349535400772501151409588531511454012693041857206046113283949847762202
  46316835694926478169428394003475163141307993866256225615783033603165251855960
  46827403850823179245072216630277197565144205554125654976674165829533817101731
  25118807164114332256265917848056083839023238678420704602006751320993253119284"
proof (rule table_entryI)
  show "precomp_small (ge_Bi ! 0)" using ge_Bi_small by (simp add: list_all_length)
  show "fq_cert 15112221349535400772501151409588531511454012693041857206046113283949847762202
    46316835694926478169428394003475163141307993866256225615783033603165251855960
    46827403850823179245072216630277197565144205554125654976674165829533817101731
    12089777079628320618000921127670825209163210154433485764836890627159878209761"
    unfolding fq_cert_def by (simp only: num_eval)
  show "fq_cert 37095705934669439343138083508754565189542113879843219016388785533085940283555
    46827403850823179245072216630277197565144205554125654976674165829533817101731
    25118807164114332256265917848056083839023238678420704602006751320993253119284
    30003700846505358424289486359486289811375540775334649234022936541361668109129"
    unfolding fq_cert_def by (simp only: num_eval)
  show "fq_cert 3533012425803781230144052908719740726127014226477800802100354883158534798213
    31204614345391077396927242593886631629853981173214368409736920319215404093758
    10865872720795493305073123787695754110961843205372397773524691040492703462777
    1904211089908422598057983860506964065629550464980524988806324649792157734673"
    unfolding fq_cert_def by (simp only: num_eval)
  show "fq_cert 25118807164114332256265917848056083839023238678420704602006751320993253119284
    46827403850823179245072216630277197565144205554125654976674165829533817101731
    10865872720795493305073123787695754110961843205372397773524691040492703462776
    20316561089319458671339604535937940731836566025001585232979918679377312443572"
    unfolding fq_cert_def by (simp only: num_eval)
  show "15112221349535400772501151409588531511454012693041857206046113283949847762202 + 46316835694926478169428394003475163141307993866256225615783033603165251855960 = 3533012425803781230144052908719740726127014226477800802100354883158534798213 + fe_p * 1" "46316835694926478169428394003475163141307993866256225615783033603165251855960 = 31204614345391077396927242593886631629853981173214368409736920319215404093758 + 15112221349535400772501151409588531511454012693041857206046113283949847762202 + fe_p * 0" "10865872720795493305073123787695754110961843205372397773524691040492703462777 = 10865872720795493305073123787695754110961843205372397773524691040492703462776 + (1 :: int)"
    by (simp_all add: fe_p_def)
  show "limb_val fe_w (yplusx (ge_Bi ! 0)) = 3533012425803781230144052908719740726127014226477800802100354883158534798213 + fe_p * 0" "limb_val fe_w (yminusx (ge_Bi ! 0)) = 31204614345391077396927242593886631629853981173214368409736920319215404093758 + fe_p * (- 1)"
    "limb_val fe_w (xy2d (ge_Bi ! 0)) = 2 * 25118807164114332256265917848056083839023238678420704602006751320993253119284 + fe_p * (- 1)"
    by (simp_all add: ge_Bi_def limb_val_list10 fe_p_def)
qed

lemma Bi_1: "table_entry (ge_Bi ! 1)
  46896733464454938657123544595386787789046198280132665686241321779790909858396
  8324843778533443976490377120369201138301417226297555316741202210403726505172
  19133203167024340156157901305709655404499344800967978305064989153409356768282
  49337570930033534582006804555963684330932577643508257514580938951849759239227"
proof (rule table_entryI)
  show "precomp_small (ge_Bi ! 1)" using ge_Bi_small by (simp add: list_all_length)
  show "fq_cert 46896733464454938657123544595386787789046198280132665686241321779790909858396
    8324843778533443976490377120369201138301417226297555316741202210403726505172
    19133203167024340156157901305709655404499344800967978305064989153409356768282
    6743258237874379575953832327795487793144750025096763998866812939822304010670"
    unfolding fq_cert_def by (simp only: num_eval)
  show "fq_cert 37095705934669439343138083508754565189542113879843219016388785533085940283555
    19133203167024340156157901305709655404499344800967978305064989153409356768282
    49337570930033534582006804555963684330932577643508257514580938951849759239227
    12259208430337008177085539068323082759832216263865490348752660804612845058367"
    unfolding fq_cert_def by (simp only: num_eval)
  show "fq_cert 55221577242988382633613921715755988927347615506430221002982523990194636363568
    19324154932736603031152325029326367275890211278985171650228672434569381466725
    22212807869462117345935364651396781841525020129476251551615086538351097653784
    18431489081893044790258144884744369115260100777431400497843926787155613769784"
    unfolding fq_cert_def by (simp only: num_eval)
  show "fq_cert 49337570930033534582006804555963684330932577643508257514580938951849759239227
    19133203167024340156157901305709655404499344800967978305064989153409356768282
    22212807869462117345935364651396781841525020129476251551615086538351097653783
    16304840418538511657796120774580650939609425328870405127779185439657786694819"
    unfolding fq_cert_def by (simp only: num_eval)
  show "46896733464454938657123544595386787789046198280132665686241321779790909858396 + 8324843778533443976490377120369201138301417226297555316741202210403726505172 = 55221577242988382633613921715755988927347615506430221002982523990194636363568 + fe_p * 0" "8324843778533443976490377120369201138301417226297555316741202210403726505172 = 19324154932736603031152325029326367275890211278985171650228672434569381466725 + 46896733464454938657123544595386787789046198280132665686241321779790909858396 + fe_p * (- 1)" "22212807869462117345935364651396781841525020129476251551615086538351097653784 = 22212807869462117345935364651396781841525020129476251551615086538351097653783 + (1 :: int)"
    by (simp_all add: fe_p_def)
  show "limb_val fe_w (yplusx (ge_Bi ! 1)) = 55221577242988382633613921715755988927347615506430221002982523990194636363568 + fe_p * (- 1)" "limb_val fe_w (yminusx (ge_Bi ! 1)) = 19324154932736603031152325029326367275890211278985171650228672434569381466725 + fe_p * 0"
    "limb_val fe_w (xy2d (ge_Bi ! 1)) = 2 * 49337570930033534582006804555963684330932577643508257514580938951849759239227 + fe_p * (- 2)"
    by (simp_all add: ge_Bi_def limb_val_list10 fe_p_def)
qed

lemma Bi_2: "table_entry (ge_Bi ! 2)
  33467004535436536005251147249499675200073690106659565782908757308821616914995
  43097193783671926753355113395909008640284023746042808659097434958891230611693
  52631435118507418230927645098360784166288333741771923328027903523704223039952
  44251341824321270580667101902235120330641711770877085182550168469761959477561"
proof (rule table_entryI)
  show "precomp_small (ge_Bi ! 2)" using ge_Bi_small by (simp add: list_all_length)
  show "fq_cert 33467004535436536005251147249499675200073690106659565782908757308821616914995
    43097193783671926753355113395909008640284023746042808659097434958891230611693
    52631435118507418230927645098360784166288333741771923328027903523704223039952
    24912478724978669719436288467669755371092766181383718252439230274986184940067"
    unfolding fq_cert_def by (simp only: num_eval)
  show "fq_cert 37095705934669439343138083508754565189542113879843219016388785533085940283555
    52631435118507418230927645098360784166288333741771923328027903523704223039952
    44251341824321270580667101902235120330641711770877085182550168469761959477561
    33722515120602681013528550076789858544564685753126019455200427557332062425651"
    unfolding fq_cert_def by (simp only: num_eval)
  show "fq_cert 18668153700450365046820768141064729913722721519882092422277400263756282706739
    9630189248235390748103966146409333440210333639383242876188677650069613696698
    5753964065469855793748830205749331639767498523639014516584617677635857755126
    3105183682833939372940852691452810499958661883462196230269018725801698282104"
    unfolding fq_cert_def by (simp only: num_eval)
  show "fq_cert 44251341824321270580667101902235120330641711770877085182550168469761959477561
    52631435118507418230927645098360784166288333741771923328027903523704223039952
    5753964065469855793748830205749331639767498523639014516584617677635857755125
    40227473940129763287233765580110504589914034279056720122855029013778027052903"
    unfolding fq_cert_def by (simp only: num_eval)
  show "33467004535436536005251147249499675200073690106659565782908757308821616914995 + 43097193783671926753355113395909008640284023746042808659097434958891230611693 = 18668153700450365046820768141064729913722721519882092422277400263756282706739 + fe_p * 1" "43097193783671926753355113395909008640284023746042808659097434958891230611693 = 9630189248235390748103966146409333440210333639383242876188677650069613696698 + 33467004535436536005251147249499675200073690106659565782908757308821616914995 + fe_p * 0" "5753964065469855793748830205749331639767498523639014516584617677635857755126 = 5753964065469855793748830205749331639767498523639014516584617677635857755125 + (1 :: int)"
    by (simp_all add: fe_p_def)
  show "limb_val fe_w (yplusx (ge_Bi ! 2)) = 18668153700450365046820768141064729913722721519882092422277400263756282706739 + fe_p * 0" "limb_val fe_w (yminusx (ge_Bi ! 2)) = 9630189248235390748103966146409333440210333639383242876188677650069613696698 + fe_p * 0"
    "limb_val fe_w (xy2d (ge_Bi ! 2)) = 2 * 44251341824321270580667101902235120330641711770877085182550168469761959477561 + fe_p * (- 2)"
    by (simp_all add: ge_Bi_def limb_val_list10 fe_p_def)
qed

lemma Bi_3: "table_entry (ge_Bi ! 3)
  9199134265559022971505535402808359556995554859516252602543778295037484220679
  22512087849695599276028560866629687720820254811233262850576678203618951717560
  7969306344939599448108779620249142998159244560978835759187616138611789393179
  27732193801536562506966218192763739750421200748428908699953900864601761536465"
proof (rule table_entryI)
  show "precomp_small (ge_Bi ! 3)" using ge_Bi_small by (simp add: list_all_length)
  show "fq_cert 9199134265559022971505535402808359556995554859516252602543778295037484220679
    22512087849695599276028560866629687720820254811233262850576678203618951717560
    7969306344939599448108779620249142998159244560978835759187616138611789393179
    3576957978588238476811314794424929515154206407324990029083190680237458175489"
    unfolding fq_cert_def by (simp only: num_eval)
  show "fq_cert 37095705934669439343138083508754565189542113879843219016388785533085940283555
    7969306344939599448108779620249142998159244560978835759187616138611789393179
    27732193801536562506966218192763739750421200748428908699953900864601761536465
    5106169974518488936739269108021320191520259643212607808323365739692946609120"
    unfolding fq_cert_def by (simp only: num_eval)
  show "fq_cert 31711222115254622247534096269438047277815809670749515453120456498656435938239
    13312953584136576304523025463821328163824699951717010248032899908581467496881
    49252650256862021982611986067472886685392233849686794475854746009044836742269
    7291863043448356620301285955306632021220637584056052193500682003880070349210"
    unfolding fq_cert_def by (simp only: num_eval)
  show "fq_cert 27732193801536562506966218192763739750421200748428908699953900864601761536465
    7969306344939599448108779620249142998159244560978835759187616138611789393179
    49252650256862021982611986067472886685392233849686794475854746009044836742268
    3817296146522183555676872076165964931190720779893315848514659670502730235883"
    unfolding fq_cert_def by (simp only: num_eval)
  show "9199134265559022971505535402808359556995554859516252602543778295037484220679 + 22512087849695599276028560866629687720820254811233262850576678203618951717560 = 31711222115254622247534096269438047277815809670749515453120456498656435938239 + fe_p * 0" "22512087849695599276028560866629687720820254811233262850576678203618951717560 = 13312953584136576304523025463821328163824699951717010248032899908581467496881 + 9199134265559022971505535402808359556995554859516252602543778295037484220679 + fe_p * 0" "49252650256862021982611986067472886685392233849686794475854746009044836742269 = 49252650256862021982611986067472886685392233849686794475854746009044836742268 + (1 :: int)"
    by (simp_all add: fe_p_def)
  show "limb_val fe_w (yplusx (ge_Bi ! 3)) = 31711222115254622247534096269438047277815809670749515453120456498656435938239 + fe_p * (- 1)" "limb_val fe_w (yminusx (ge_Bi ! 3)) = 13312953584136576304523025463821328163824699951717010248032899908581467496881 + fe_p * 0"
    "limb_val fe_w (xy2d (ge_Bi ! 3)) = 2 * 27732193801536562506966218192763739750421200748428908699953900864601761536465 + fe_p * (- 1)"
    by (simp_all add: ge_Bi_def limb_val_list10 fe_p_def)
qed

lemma Bi_4: "table_entry (ge_Bi ! 4)
  24193060302538010417230488029838514081720802923509845138863968807030823940444
  57551756252899625001155759838357770487605224608455116862194664796369308545472
  41812410146810177838232618347187858057822209473536282119740688245908349056101
  55126905272541521645097122641714276261664352222461709491450040028139039676292"
proof (rule table_entryI)
  show "precomp_small (ge_Bi ! 4)" using ge_Bi_small by (simp add: list_all_length)
  show "fq_cert 24193060302538010417230488029838514081720802923509845138863968807030823940444
    57551756252899625001155759838357770487605224608455116862194664796369308545472
    41812410146810177838232618347187858057822209473536282119740688245908349056101
    24049192284452839026368981968108426564614361617599417040661616562485502377383"
    unfolding fq_cert_def by (simp only: num_eval)
  show "fq_cert 37095705934669439343138083508754565189542113879843219016388785533085940283555
    41812410146810177838232618347187858057822209473536282119740688245908349056101
    55126905272541521645097122641714276261664352222461709491450040028139039676292
    26790446246236314281552970947142418382272207021760564764555301828035649652887"
    unfolding fq_cert_def by (simp only: num_eval)
  show "fq_cert 23848771936779537706600755363852330642691035199144679981329841599443567665967
    33358695950361614583925271808519256405884421684945271723330695989338484605028
    19786681797415332569989742602159695008032040933278650130326687365221533309221
    13741248423249966345959771033434708197778389078992044617572309324316461657395"
    unfolding fq_cert_def by (simp only: num_eval)
  show "fq_cert 55126905272541521645097122641714276261664352222461709491450040028139039676292
    41812410146810177838232618347187858057822209473536282119740688245908349056101
    19786681797415332569989742602159695008032040933278650130326687365221533309220
    39812543129017699629276801906487178393752346726562218904380398180693939345328"
    unfolding fq_cert_def by (simp only: num_eval)
  show "24193060302538010417230488029838514081720802923509845138863968807030823940444 + 57551756252899625001155759838357770487605224608455116862194664796369308545472 = 23848771936779537706600755363852330642691035199144679981329841599443567665967 + fe_p * 1" "57551756252899625001155759838357770487605224608455116862194664796369308545472 = 33358695950361614583925271808519256405884421684945271723330695989338484605028 + 24193060302538010417230488029838514081720802923509845138863968807030823940444 + fe_p * 0" "19786681797415332569989742602159695008032040933278650130326687365221533309221 = 19786681797415332569989742602159695008032040933278650130326687365221533309220 + (1 :: int)"
    by (simp_all add: fe_p_def)
  show "limb_val fe_w (yplusx (ge_Bi ! 4)) = 23848771936779537706600755363852330642691035199144679981329841599443567665967 + fe_p * 0" "limb_val fe_w (yminusx (ge_Bi ! 4)) = 33358695950361614583925271808519256405884421684945271723330695989338484605028 + fe_p * (- 1)"
    "limb_val fe_w (xy2d (ge_Bi ! 4)) = 2 * 55126905272541521645097122641714276261664352222461709491450040028139039676292 + fe_p * (- 2)"
    by (simp_all add: ge_Bi_def limb_val_list10 fe_p_def)
qed

lemma Bi_5: "table_entry (ge_Bi ! 5)
  9451145793506787353375160377761530931587019091193333050860601958827395183563
  20609402718286069808115703540855311742885093522056241285814584245966805874451
  41115672721981046446137450827132502570366877864937539642265045489017153122004
  42918775842614075349281921888029854474516246449989636565809754045710664221931"
proof (rule table_entryI)
  show "precomp_small (ge_Bi ! 5)" using ge_Bi_small by (simp add: list_all_length)
  show "fq_cert 9451145793506787353375160377761530931587019091193333050860601958827395183563
    20609402718286069808115703540855311742885093522056241285814584245966805874451
    41115672721981046446137450827132502570366877864937539642265045489017153122004
    3364348481672345450490071950188201941897672407967167034662012885099961841041"
    unfolding fq_cert_def by (simp only: num_eval)
  show "fq_cert 37095705934669439343138083508754565189542113879843219016388785533085940283555
    41115672721981046446137450827132502570366877864937539642265045489017153122004
    42918775842614075349281921888029854474516246449989636565809754045710664221931
    26344025997748199790480865477858351863897473114602320309805299928462612164661"
    unfolding fq_cert_def by (simp only: num_eval)
  show "fq_cert 30060548511792857161490863918616842674472112613249574336675186204794201058014
    11158256924779282454740543163093780811298074430862908234953982287139410690888
    5449772960140318442021380818041242934059649616791388989822163182346750799394
    5793544719742040523309249507539223904032397366324895094949106225843997969862"
    unfolding fq_cert_def by (simp only: num_eval)
  show "fq_cert 42918775842614075349281921888029854474516246449989636565809754045710664221931
    41115672721981046446137450827132502570366877864937539642265045489017153122004
    5449772960140318442021380818041242934059649616791388989822163182346750799393
    30479359216955898524706863429946401692603870439609460174311002417786304723719"
    unfolding fq_cert_def by (simp only: num_eval)
  show "9451145793506787353375160377761530931587019091193333050860601958827395183563 + 20609402718286069808115703540855311742885093522056241285814584245966805874451 = 30060548511792857161490863918616842674472112613249574336675186204794201058014 + fe_p * 0" "20609402718286069808115703540855311742885093522056241285814584245966805874451 = 11158256924779282454740543163093780811298074430862908234953982287139410690888 + 9451145793506787353375160377761530931587019091193333050860601958827395183563 + fe_p * 0" "5449772960140318442021380818041242934059649616791388989822163182346750799394 = 5449772960140318442021380818041242934059649616791388989822163182346750799393 + (1 :: int)"
    by (simp_all add: fe_p_def)
  show "limb_val fe_w (yplusx (ge_Bi ! 5)) = 30060548511792857161490863918616842674472112613249574336675186204794201058014 + fe_p * (- 1)" "limb_val fe_w (yminusx (ge_Bi ! 5)) = 11158256924779282454740543163093780811298074430862908234953982287139410690888 + fe_p * 0"
    "limb_val fe_w (xy2d (ge_Bi ! 5)) = 2 * 42918775842614075349281921888029854474516246449989636565809754045710664221931 + fe_p * (- 1)"
    by (simp_all add: ge_Bi_def limb_val_list10 fe_p_def)
qed

lemma Bi_6: "table_entry (ge_Bi ! 6)
  7442235066513780790779899786332475485840754593728627195931759107337804079085
  8529785864514984411577036536286432879603480171865651918962709025066066124672
  29471055441072170259805152731682457644447474860555123755684575143128358334291
  16618656332106623536697104938175722455349318244093413799134255377463723381180"
proof (rule table_entryI)
  show "precomp_small (ge_Bi ! 6)" using ge_Bi_small by (simp add: list_all_length)
  show "fq_cert 7442235066513780790779899786332475485840754593728627195931759107337804079085
    8529785864514984411577036536286432879603480171865651918962709025066066124672
    29471055441072170259805152731682457644447474860555123755684575143128358334291
    1096459557623892196493299667445616164183037679408002196057053966527443213121"
    unfolding fq_cert_def by (simp only: num_eval)
  show "fq_cert 37095705934669439343138083508754565189542113879843219016388785533085940283555
    29471055441072170259805152731682457644447474860555123755684575143128358334291
    16618656332106623536697104938175722455349318244093413799134255377463723381180
    18882975744322826694418413371018246557566640661767253566110425716983965725425"
    unfolding fq_cert_def by (simp only: num_eval)
  show "fq_cert 15972020931028765202356936322618908365444234765594279114894468132403870203757
    1087550798001203620797136749953957393762725578137024723030949917728262045587
    16169439483397883762585612057941923626883760632859769494412452654045015387404
    300027130068127750895526713602492675906751405875624309521055982765489502295"
    unfolding fq_cert_def by (simp only: num_eval)
  show "fq_cert 16618656332106623536697104938175722455349318244093413799134255377463723381180
    29471055441072170259805152731682457644447474860555123755684575143128358334291
    16169439483397883762585612057941923626883760632859769494412452654045015387403
    8459461183325845544392619971258892563464983629658713574736228385296963435373"
    unfolding fq_cert_def by (simp only: num_eval)
  show "7442235066513780790779899786332475485840754593728627195931759107337804079085 + 8529785864514984411577036536286432879603480171865651918962709025066066124672 = 15972020931028765202356936322618908365444234765594279114894468132403870203757 + fe_p * 0" "8529785864514984411577036536286432879603480171865651918962709025066066124672 = 1087550798001203620797136749953957393762725578137024723030949917728262045587 + 7442235066513780790779899786332475485840754593728627195931759107337804079085 + fe_p * 0" "16169439483397883762585612057941923626883760632859769494412452654045015387404 = 16169439483397883762585612057941923626883760632859769494412452654045015387403 + (1 :: int)"
    by (simp_all add: fe_p_def)
  show "limb_val fe_w (yplusx (ge_Bi ! 6)) = 15972020931028765202356936322618908365444234765594279114894468132403870203757 + fe_p * 0" "limb_val fe_w (yminusx (ge_Bi ! 6)) = 1087550798001203620797136749953957393762725578137024723030949917728262045587 + fe_p * 0"
    "limb_val fe_w (xy2d (ge_Bi ! 6)) = 2 * 16618656332106623536697104938175722455349318244093413799134255377463723381180 + fe_p * (- 1)"
    by (simp_all add: ge_Bi_def limb_val_list10 fe_p_def)
qed

lemma Bi_7: "table_entry (ge_Bi ! 7)
  35771902585589234259498423420223840099331465042459337605611172842168536632769
  8502034780705657720897159939055122322178084209392286764802307224484658961631
  42609173769455554086108030252596314253679554082059705507322920389417832202025
  18344624830172146746946410827115141689072377291186433955588558737858397493899"
proof (rule table_entryI)
  show "precomp_small (ge_Bi ! 7)" using ge_Bi_small by (simp add: list_all_length)
  show "fq_cert 35771902585589234259498423420223840099331465042459337605611172842168536632769
    8502034780705657720897159939055122322178084209392286764802307224484658961631
    42609173769455554086108030252596314253679554082059705507322920389417832202025
    5253104282994168183921517903901539759328624563151459270604398721148228361486"
    unfolding fq_cert_def by (simp only: num_eval)
  show "fq_cert 37095705934669439343138083508754565189542113879843219016388785533085940283555
    42609173769455554086108030252596314253679554082059705507322920389417832202025
    18344624830172146746946410827115141689072377291186433955588558737858397493899
    27300956234263538858699649025538323587901218405034803008427648307309084783824"
    unfolding fq_cert_def by (simp only: num_eval)
  show "fq_cert 44273937366294891980395583359278962421509549251851624370413480066653195594400
    30626176813774521173184229023175236149481611499753231178919926386272687148811
    17913355427184016644388215750437213680137903774774451396203606047755304605516
    23420277550103106412105374643370415993173928393787533032773721491248239401316"
    unfolding fq_cert_def by (simp only: num_eval)
  show "fq_cert 18344624830172146746946410827115141689072377291186433955588558737858397493899
    42609173769455554086108030252596314253679554082059705507322920389417832202025
    17913355427184016644388215750437213680137903774774451396203606047755304605515
    13500910334596031790105469697825750044029257679858566254694960942598956558040"
    unfolding fq_cert_def by (simp only: num_eval)
  show "35771902585589234259498423420223840099331465042459337605611172842168536632769 + 8502034780705657720897159939055122322178084209392286764802307224484658961631 = 44273937366294891980395583359278962421509549251851624370413480066653195594400 + fe_p * 0" "8502034780705657720897159939055122322178084209392286764802307224484658961631 = 30626176813774521173184229023175236149481611499753231178919926386272687148811 + 35771902585589234259498423420223840099331465042459337605611172842168536632769 + fe_p * (- 1)" "17913355427184016644388215750437213680137903774774451396203606047755304605516 = 17913355427184016644388215750437213680137903774774451396203606047755304605515 + (1 :: int)"
    by (simp_all add: fe_p_def)
  show "limb_val fe_w (yplusx (ge_Bi ! 7)) = 44273937366294891980395583359278962421509549251851624370413480066653195594400 + fe_p * (- 1)" "limb_val fe_w (yminusx (ge_Bi ! 7)) = 30626176813774521173184229023175236149481611499753231178919926386272687148811 + fe_p * (- 1)"
    "limb_val fe_w (xy2d (ge_Bi ! 7)) = 2 * 18344624830172146746946410827115141689072377291186433955588558737858397493899 + fe_p * (- 1)"
    by (simp_all add: ge_Bi_def limb_val_list10 fe_p_def)
qed

lemma B2_comb:
  assumes "curve_comb G g (of_int 15112221349535400772501151409588531511454012693041857206046113283949847762202) (of_int 46316835694926478169428394003475163141307993866256225615783033603165251855960) 1"
  shows "curve_comb G (g + g) (of_int 24727413235106541002554574571675588834622768167397638456726423682521233608206) (of_int 15549675580280190176352668710449542251549572066445060580507079593062643049417) 1"
proof (rule table_double [OF Bi_0 assms])
  show "fq_cert 15112221349535400772501151409588531511454012693041857206046113283949847762202
    15112221349535400772501151409588531511454012693041857206046113283949847762202
    26187595835145689230469591415084376402084551887632582719101735842039498021991
    3944643120641682540557488748386534817562863454810087094083181913524639656337"
    unfolding fq_cert_def by (simp only: num_eval)
  show "fq_cert 46316835694926478169428394003475163141307993866256225615783033603165251855960
    46316835694926478169428394003475163141307993866256225615783033603165251855960
    37053468555941182535542715202780130513046395093004980492626426882532201484768
    37053468555941182535542715202780130513046395093004980492626426882532201484768"
    unfolding fq_cert_def by (simp only: num_eval)
  show "fq_cert 24727413235106541002554574571675588834622768167397638456726423682521233608206
    10865872720795493305073123787695754110961843205372397773524691040492703462777
    35758763082988260778358940756210441203653418775431027933619539655111069383513
    4640816599768074523567265725477282336817799778256961706557227807567430185401"
    unfolding fq_cert_def by (simp only: num_eval)
  show "fq_cert 15549675580280190176352668710449542251549572066445060580507079593062643049417
    47030171897862604406712368716648199815673149127447884246204100963463861357174
    5345019772428774054226814113520552988495954647817281191999370720615134686810
    12631327758457910932128134242497679156296694763768417464988278732794571526652"
    unfolding fq_cert_def by (simp only: num_eval)
  show "fq_cert 10865872720795493305073123787695754110961843205372397773524691040492703462777
    47030171897862604406712368716648199815673149127447884246204100963463861357174
    10165075093246554225462147012749345725666169878716553273091115824860921012610
    8826576413730014316458499538731023646723696720981055579940916768469551449812"
    unfolding fq_cert_def by (simp only: num_eval)
  show "fq_cert 10165075093246554225462147012749345725666169878716553273091115824860921012610
    11821405566318046959426517187449467202305020263187074292011644136551774483760
    1
    2075538598203652661741287424930695123187892767969232245580929198356825913851"
    unfolding fq_cert_def by (simp only: num_eval)
  show "37053468555941182535542715202780130513046395093004980492626426882532201484768 = 10865872720795493305073123787695754110961843205372397773524691040492703462777 + 26187595835145689230469591415084376402084551887632582719101735842039498021991 + fe_p * 0" "2 = 10865872720795493305073123787695754110961843205372397773524691040492703462777 + 47030171897862604406712368716648199815673149127447884246204100963463861357174 + fe_p * (- 1)"
    "37053468555941182535542715202780130513046395093004980492626426882532201484768 + 26187595835145689230469591415084376402084551887632582719101735842039498021991 = 5345019772428774054226814113520552988495954647817281191999370720615134686810 + fe_p * 1" "2 * 46827403850823179245072216630277197565144205554125654976674165829533817101731 = 35758763082988260778358940756210441203653418775431027933619539655111069383513 + fe_p * 1"
    by (simp_all add: fe_p_def)
qed

lemma B2_ext: "curve_ext dq (of_int 24727413235106541002554574571675588834622768167397638456726423682521233608206) (of_int 15549675580280190176352668710449542251549572066445060580507079593062643049417) 1
  (of_int 16552979481334663544878610556091376071931149008662153799327195285289362371585)"
proof (rule cert_ext)
  show "fq_cert 24727413235106541002554574571675588834622768167397638456726423682521233608206
    15549675580280190176352668710449542251549572066445060580507079593062643049417
    16552979481334663544878610556091376071931149008662153799327195285289362371585
    6641269818655623607039518867122167455242689595721592842383860057608506014033"
    unfolding fq_cert_def by (simp only: num_eval)
  show "fq_cert 37095705934669439343138083508754565189542113879843219016388785533085940283555
    16552979481334663544878610556091376071931149008662153799327195285289362371585
    54301358695015476261273226078875317985490335913410982442888027292985635749158
    10605982899638713335204675800142219039726733195553878646676569530228101882833"
    unfolding fq_cert_def by (simp only: num_eval)
  show "fq_cert 54301358695015476261273226078875317985490335913410982442888027292985635749158
    16552979481334663544878610556091376071931149008662153799327195285289362371585
    40724171259554269648683978687207727114539730426062031587754314894750216116361
    15525227711281568017309524535335687885528413989592212192002131027732154816881"
    unfolding fq_cert_def by (simp only: num_eval)
  show "fq_cert 24727413235106541002554574571675588834622768167397638456726423682521233608206
    24727413235106541002554574571675588834622768167397638456726423682521233608206
    18311789291127372628781806136146783184574042791475673037278570301711373930491
    10561083564984548234931995543984310714739363336248840250256457557138293401805"
    unfolding fq_cert_def by (simp only: num_eval)
  show "fq_cert 15549675580280190176352668710449542251549572066445060580507079593062643049417
    15549675580280190176352668710449542251549572066445060580507079593062643049417
    1139915932023544565680292319010556372478780884717422605304093192505025226904
    4176320027465915727477983035159665257537340737846494335176701467024466048765"
    unfolding fq_cert_def by (simp only: num_eval)
  show "1139915932023544565680292319010556372478780884717422605304093192505025226904 = 18311789291127372628781806136146783184574042791475673037278570301711373930491 + 1 + 40724171259554269648683978687207727114539730426062031587754314894750216116361 + fe_p * (- 1)" by (simp add: fe_p_def)
qed

lemma step_0:
  assumes "curve_comb G g (of_int 15112221349535400772501151409588531511454012693041857206046113283949847762202) (of_int 46316835694926478169428394003475163141307993866256225615783033603165251855960) 1"
    "curve_comb G h (of_int 24727413235106541002554574571675588834622768167397638456726423682521233608206) (of_int 15549675580280190176352668710449542251549572066445060580507079593062643049417) 1"
  shows "curve_comb G (g + h) (of_int 46896733464454938657123544595386787789046198280132665686241321779790909858396) (of_int 8324843778533443976490377120369201138301417226297555316741202210403726505172) 1"
proof (rule table_step [OF Bi_0 assms(1) B2_ext assms(2)])
  show "fq_cert 25118807164114332256265917848056083839023238678420704602006751320993253119284
    16552979481334663544878610556091376071931149008662153799327195285289362371585
    12965896712281167460188844285041720407456251414812089957574419241826119111093
    7181684039416919474358006401747780068510021250093759284075652409831200635803"
    unfolding fq_cert_def by (simp only: num_eval)
  show "fq_cert 15112221349535400772501151409588531511454012693041857206046113283949847762202
    15549675580280190176352668710449542251549572066445060580507079593062643049417
    13126712882185592515966480322145082837337984803310424588837528844346735599121
    4058828903260336638441629767586659936765045930565394027822050546482170651037"
    unfolding fq_cert_def by (simp only: num_eval)
  show "fq_cert 46316835694926478169428394003475163141307993866256225615783033603165251855960
    24727413235106541002554574571675588834622768167397638456726423682521233608206
    8202721664353613259686561156471680282371216067354054361435380545225673922575
    19781930588085232802043659657340471067698214533918110765381138946016986886565"
    unfolding fq_cert_def by (simp only: num_eval)
  show "fq_cert 46316835694926478169428394003475163141307993866256225615783033603165251855960
    15549675580280190176352668710449542251549572066445060580507079593062643049417
    47177367235419010768153430470966006157220653052848217676242938876824053331503
    12439740464224152141082134968359633801239657653156048464405663674450114439533"
    unfolding fq_cert_def by (simp only: num_eval)
  show "fq_cert 15112221349535400772501151409588531511454012693041857206046113283949847762202
    24727413235106541002554574571675588834622768167397638456726423682521233608206
    25225440941862457257645256542063839045928653454434489306237645082571845078638
    6454433021663346227697405437452792583555821297117287786816762890575823932726"
    unfolding fq_cert_def by (simp only: num_eval)
  show "fq_cert 46896733464454938657123544595386787789046198280132665686241321779790909858396
    12965896712281167460188844285041720407456251414812089957574419241826119111093
    32328745700742364830314989387573929257297994923352095283760379613738064483249
    10502586251765189032171361699000264158397174470481734387195668932726726272871"
    unfolding fq_cert_def by (simp only: num_eval)
  show "fq_cert 8324843778533443976490377120369201138301417226297555316741202210403726505172
    12965896712281167460188844285041720407456251414812089957574419241826119111093
    51714124838568171374262675116027263788422095384655412373718202258920957734929
    1864359910755556230756376877239954303300786756820140253993326411207065582783"
    unfolding fq_cert_def by (simp only: num_eval)
  show "fq_cert 12965896712281167460188844285041720407456251414812089957574419241826119111093
    12965896712281167460188844285041720407456251414812089957574419241826119111093
    57446177891616115854874780764417854059579261143009883513452927393696165218295
    2903729929408087935038567625910921819776567374563082902512270640065788966346"
    unfolding fq_cert_def by (simp only: num_eval)
  show "fq_cert 449866727041981856910711739926099867055731189810398506275864610260399601655
    21014083053852895371086689814207822549864933272928055797307757324208173859644
    1
    163284673892533853817311692036458317531014542865276317280831373713314927631"
    unfolding fq_cert_def by (simp only: num_eval)
  show "46896733464454938657123544595386787789046198280132665686241321779790909858396 + 32328745700742364830314989387573929257297994923352095283760379613738064483249 = 13126712882185592515966480322145082837337984803310424588837528844346735599121 + 8202721664353613259686561156471680282371216067354054361435380545225673922575 + fe_p * 1" "8324843778533443976490377120369201138301417226297555316741202210403726505172 = 47177367235419010768153430470966006157220653052848217676242938876824053331503 + 25225440941862457257645256542063839045928653454434489306237645082571845078638 + 51714124838568171374262675116027263788422095384655412373718202258920957734929 + fe_p * (- 2)"
    "1 = 449866727041981856910711739926099867055731189810398506275864610260399601655 + 57446177891616115854874780764417854059579261143009883513452927393696165218295 + fe_p * (- 1)"
    by (simp_all add: fe_p_def)
qed

lemma step_1:
  assumes "curve_comb G g (of_int 46896733464454938657123544595386787789046198280132665686241321779790909858396) (of_int 8324843778533443976490377120369201138301417226297555316741202210403726505172) 1"
    "curve_comb G h (of_int 24727413235106541002554574571675588834622768167397638456726423682521233608206) (of_int 15549675580280190176352668710449542251549572066445060580507079593062643049417) 1"
  shows "curve_comb G (g + h) (of_int 33467004535436536005251147249499675200073690106659565782908757308821616914995) (of_int 43097193783671926753355113395909008640284023746042808659097434958891230611693) 1"
proof (rule table_step [OF Bi_1 assms(1) B2_ext assms(2)])
  show "fq_cert 49337570930033534582006804555963684330932577643508257514580938951849759239227
    16552979481334663544878610556091376071931149008662153799327195285289362371585
    38992872074211770242716245714054993943552099849601362769832305884147734512537
    14106037893313126914743021226098252601058845137799722388091829823786791505642"
    unfolding fq_cert_def by (simp only: num_eval)
  show "fq_cert 46896733464454938657123544595386787789046198280132665686241321779790909858396
    15549675580280190176352668710449542251549572066445060580507079593062643049417
    602908742339240341536640380461451911154253155441419426466220108100307664833
    12595488965616416182922704002854948819576652801996203478281349169312834022151"
    unfolding fq_cert_def by (simp only: num_eval)
  show "fq_cert 8324843778533443976490377120369201138301417226297555316741202210403726505172
    24727413235106541002554574571675588834622768167397638456726423682521233608206
    582786104115941000919880068531871989407619856981034189227416437305667645039
    3555542586464750783337632493767112762966824865931789411913667956340557955757"
    unfolding fq_cert_def by (simp only: num_eval)
  show "fq_cert 8324843778533443976490377120369201138301417226297555316741202210403726505172
    15549675580280190176352668710449542251549572066445060580507079593062643049417
    44797614286132229630946778029717472893086876719631224265665813444759707094146
    2235880203308253119519222121890932670933772483120078552391370436872692883322"
    unfolding fq_cert_def by (simp only: num_eval)
  show "fq_cert 46896733464454938657123544595386787789046198280132665686241321779790909858396
    24727413235106541002554574571675588834622768167397638456726423682521233608206
    48340943397957672063845076961079850094226192239642303261637243939815458376085
    20029605051439257545288017948402983388317488377638599063002798194777807630559"
    unfolding fq_cert_def by (simp only: num_eval)
  show "fq_cert 33467004535436536005251147249499675200073690106659565782908757308821616914995
    38992872074211770242716245714054993943552099849601362769832305884147734512537
    25614734929676743048990865703837602627123175238583169852513671240540923214826
    22539961670141264825032842176044456866530163614812222023405499037387995969461"
    unfolding fq_cert_def by (simp only: num_eval)
  show "fq_cert 43097193783671926753355113395909008640284023746042808659097434958891230611693
    38992872074211770242716245714054993943552099849601362769832305884147734512537
    7854680718240122770348750909455639579605947119589563151523169578272629961411
    29025875170454503863744136436304667593184035664383105375875854408921235177770"
    unfolding fq_cert_def by (simp only: num_eval)
  show "fq_cert 38992872074211770242716245714054993943552099849601362769832305884147734512537
    38992872074211770242716245714054993943552099849601362769832305884147734512537
    926172978039940495433716036729291242190163921890283254071959003386828837404
    26261622579063927992284069547159108486734620750575892989495967551044733771785"
    unfolding fq_cert_def by (simp only: num_eval)
  show "fq_cert 56969871640618157216351776467614662684444828410929998765656833000569735982546
    11471545577461751031423209761067456302036422183477197865382491532747143449057
    1
    11288033290911269331092164762510335950106143090755916433636127190242888149429"
    unfolding fq_cert_def by (simp only: num_eval)
  show "33467004535436536005251147249499675200073690106659565782908757308821616914995 + 25614734929676743048990865703837602627123175238583169852513671240540923214826 = 602908742339240341536640380461451911154253155441419426466220108100307664833 + 582786104115941000919880068531871989407619856981034189227416437305667645039 + fe_p * 1" "43097193783671926753355113395909008640284023746042808659097434958891230611693 = 44797614286132229630946778029717472893086876719631224265665813444759707094146 + 48340943397957672063845076961079850094226192239642303261637243939815458376085 + 7854680718240122770348750909455639579605947119589563151523169578272629961411 + fe_p * (- 1)"
    "1 = 56969871640618157216351776467614662684444828410929998765656833000569735982546 + 926172978039940495433716036729291242190163921890283254071959003386828837404 + fe_p * (- 1)"
    by (simp_all add: fe_p_def)
qed

lemma step_2:
  assumes "curve_comb G g (of_int 33467004535436536005251147249499675200073690106659565782908757308821616914995) (of_int 43097193783671926753355113395909008640284023746042808659097434958891230611693) 1"
    "curve_comb G h (of_int 24727413235106541002554574571675588834622768167397638456726423682521233608206) (of_int 15549675580280190176352668710449542251549572066445060580507079593062643049417) 1"
  shows "curve_comb G (g + h) (of_int 9199134265559022971505535402808359556995554859516252602543778295037484220679) (of_int 22512087849695599276028560866629687720820254811233262850576678203618951717560) 1"
proof (rule table_step [OF Bi_2 assms(1) B2_ext assms(2)])
  show "fq_cert 44251341824321270580667101902235120330641711770877085182550168469761959477561
    16552979481334663544878610556091376071931149008662153799327195285289362371585
    26708851835273599236554348871529033123123434212128029177396509941486770170587
    12651841037918799780576502841842174610532041020566758229122687903047302241302"
    unfolding fq_cert_def by (simp only: num_eval)
  show "fq_cert 33467004535436536005251147249499675200073690106659565782908757308821616914995
    15549675580280190176352668710449542251549572066445060580507079593062643049417
    35574208535938585016753657924778903423101502729571728532864869933093859295029
    8988542595569555859239843147979517026661389361515839134943450038638834146414"
    unfolding fq_cert_def by (simp only: num_eval)
  show "fq_cert 43097193783671926753355113395909008640284023746042808659097434958891230611693
    24727413235106541002554574571675588834622768167397638456726423682521233608206
    25985786973093286810932943446657016631202930920936822653462650956893310060387
    18406820828289956878233830320698829198805645589198795314522853283631733303679"
    unfolding fq_cert_def by (simp only: num_eval)
  show "fq_cert 43097193783671926753355113395909008640284023746042808659097434958891230611693
    15549675580280190176352668710449542251549572066445060580507079593062643049417
    27213516076568098771156700155333099061231010900289323149495096076870574395288
    11575011491209865433133808471897716672703133499734705597028430690659308629457"
    unfolding fq_cert_def by (simp only: num_eval)
  show "fq_cert 33467004535436536005251147249499675200073690106659565782908757308821616914995
    24727413235106541002554574571675588834622768167397638456726423682521233608206
    6340004638261182900895289219772987200849098283612958019611071795932256623560
    14293764908116530862448180713109370502117189820835074215820232183375730470090"
    unfolding fq_cert_def by (simp only: num_eval)
  show "fq_cert 9199134265559022971505535402808359556995554859516252602543778295037484220679
    26708851835273599236554348871529033123123434212128029177396509941486770170587
    52360861243472848856181065968627560497308878790992298583783742594949685134737
    4243784108740710510242939549308612702871047059302194843568174405205316247964"
    unfolding fq_cert_def by (simp only: num_eval)
  show "fq_cert 22512087849695599276028560866629687720820254811233262850576678203618951717560
    26708851835273599236554348871529033123123434212128029177396509941486770170587
    46854611753524415315762063995867555385375137960151263701199302334772685518661
    10385373005022375857829404006604739990702519416690008831408371873121523661391"
    unfolding fq_cert_def by (simp only: num_eval)
  show "fq_cert 26708851835273599236554348871529033123123434212128029177396509941486770170587
    26708851835273599236554348871529033123123434212128029177396509941486770170587
    40633162439761885548991449656906264978433473743068880668574474161749025576014
    12321442182402616809824168657535627322426738439271531474439223571499129716695"
    unfolding fq_cert_def by (simp only: num_eval)
  show "fq_cert 17262882178896212162794042847437688948201518589751401351154317842207539243936
    35065829777561566392662795328908566690897709738473682014718738145996694495452
    1
    10455589702931006060665387143990081451543965144532753801203922511700053101979"
    unfolding fq_cert_def by (simp only: num_eval)
  show "9199134265559022971505535402808359556995554859516252602543778295037484220679 + 52360861243472848856181065968627560497308878790992298583783742594949685134737 = 35574208535938585016753657924778903423101502729571728532864869933093859295029 + 25985786973093286810932943446657016631202930920936822653462650956893310060387 + fe_p * 0" "22512087849695599276028560866629687720820254811233262850576678203618951717560 = 27213516076568098771156700155333099061231010900289323149495096076870574395288 + 6340004638261182900895289219772987200849098283612958019611071795932256623560 + 46854611753524415315762063995867555385375137960151263701199302334772685518661 + fe_p * (- 1)"
    "1 = 17262882178896212162794042847437688948201518589751401351154317842207539243936 + 40633162439761885548991449656906264978433473743068880668574474161749025576014 + fe_p * (- 1)"
    by (simp_all add: fe_p_def)
qed

lemma step_3:
  assumes "curve_comb G g (of_int 9199134265559022971505535402808359556995554859516252602543778295037484220679) (of_int 22512087849695599276028560866629687720820254811233262850576678203618951717560) 1"
    "curve_comb G h (of_int 24727413235106541002554574571675588834622768167397638456726423682521233608206) (of_int 15549675580280190176352668710449542251549572066445060580507079593062643049417) 1"
  shows "curve_comb G (g + h) (of_int 24193060302538010417230488029838514081720802923509845138863968807030823940444) (of_int 57551756252899625001155759838357770487605224608455116862194664796369308545472) 1"
proof (rule table_step [OF Bi_3 assms(1) B2_ext assms(2)])
  show "fq_cert 27732193801536562506966218192763739750421200748428908699953900864601761536465
    16552979481334663544878610556091376071931149008662153799327195285289362371585
    7248842797640218075432952744241253730385792372876792704258571421819384289417
    7928873863367401033935874147884120395398615151105760271591737786164692242792"
    unfolding fq_cert_def by (simp only: num_eval)
  show "fq_cert 9199134265559022971505535402808359556995554859516252602543778295037484220679
    15549675580280190176352668710449542251549572066445060580507079593062643049417
    7903858799663833258247318609670337030961030817366105904000074453024221331328
    2470696476608410401219596600526779650750606393192254298252175211115664465435"
    unfolding fq_cert_def by (simp only: num_eval)
  show "fq_cert 22512087849695599276028560866629687720820254811233262850576678203618951717560
    24727413235106541002554574571675588834622768167397638456726423682521233608206
    10728057269996190800334709755180040831310557421504659846845742154823534137041
    9614917611574591753387283334667001936821282631565135586347163022776670103131"
    unfolding fq_cert_def by (simp only: num_eval)
  show "fq_cert 22512087849695599276028560866629687720820254811233262850576678203618951717560
    15549675580280190176352668710449542251549572066445060580507079593062643049417
    30902426918875499502853874846454069254968873582337309167482348478985076034870
    6046279413442381593574959747587532512666219343760505271703330394674977379850"
    unfolding fq_cert_def by (simp only: num_eval)
  show "fq_cert 9199134265559022971505535402808359556995554859516252602543778295037484220679
    24727413235106541002554574571675588834622768167397638456726423682521233608206
    9325763809085646680044095575923854707602173682939668350085181842640224927057
    3928952243421470271284563548988221211934248508304978769883102841983841268533"
    unfolding fq_cert_def by (simp only: num_eval)
  show "fq_cert 24193060302538010417230488029838514081720802923509845138863968807030823940444
    7248842797640218075432952744241253730385792372876792704258571421819384289417
    52334900385780111353137032839355817707185777648181202631710639804773496347874
    3029078965273756902325320361646637691001190148679231843459172364002971415426"
    unfolding fq_cert_def by (simp only: num_eval)
  show "fq_cert 57551756252899625001155759838357770487605224608455116862194664796369308545472
    7248842797640218075432952744241253730385792372876792704258571421819384289417
    17323565524938478818257789415979846525034177343178139344627134474744007583545
    7205736359940062271378719512897081319050319411114903533222979770658030175171"
    unfolding fq_cert_def by (simp only: num_eval)
  show "fq_cert 7248842797640218075432952744241253730385792372876792704258571421819384289417
    7248842797640218075432952744241253730385792372876792704258571421819384289417
    42715589089422033318327312804200247779208464194834499778806811175980049005935
    907587422439677489967346815410582802370814060053417890987509090947442088746"
    unfolding fq_cert_def by (simp only: num_eval)
  show "fq_cert 15180455529236064393458179700143706147426528137985782240921980827976515814015
    24048898924542698072277305945435713250409145709545121682754764951001268654697
    1
    6305668082435145703644094995893980899365834383222496619633584696791388579246"
    unfolding fq_cert_def by (simp only: num_eval)
  show "24193060302538010417230488029838514081720802923509845138863968807030823940444 + 52334900385780111353137032839355817707185777648181202631710639804773496347874 = 7903858799663833258247318609670337030961030817366105904000074453024221331328 + 10728057269996190800334709755180040831310557421504659846845742154823534137041 + fe_p * 1" "57551756252899625001155759838357770487605224608455116862194664796369308545472 = 30902426918875499502853874846454069254968873582337309167482348478985076034870 + 9325763809085646680044095575923854707602173682939668350085181842640224927057 + 17323565524938478818257789415979846525034177343178139344627134474744007583545 + fe_p * 0"
    "1 = 15180455529236064393458179700143706147426528137985782240921980827976515814015 + 42715589089422033318327312804200247779208464194834499778806811175980049005935 + fe_p * (- 1)"
    by (simp_all add: fe_p_def)
qed

lemma step_4:
  assumes "curve_comb G g (of_int 24193060302538010417230488029838514081720802923509845138863968807030823940444) (of_int 57551756252899625001155759838357770487605224608455116862194664796369308545472) 1"
    "curve_comb G h (of_int 24727413235106541002554574571675588834622768167397638456726423682521233608206) (of_int 15549675580280190176352668710449542251549572066445060580507079593062643049417) 1"
  shows "curve_comb G (g + h) (of_int 9451145793506787353375160377761530931587019091193333050860601958827395183563) (of_int 20609402718286069808115703540855311742885093522056241285814584245966805874451) 1"
proof (rule table_step [OF Bi_4 assms(1) B2_ext assms(2)])
  show "fq_cert 55126905272541521645097122641714276261664352222461709491450040028139039676292
    16552979481334663544878610556091376071931149008662153799327195285289362371585
    7877478122048862755598430610344988161480765250477852441251648244542214503244
    15761258611987879786960708888338536339018299479418338633297001928668182259224"
    unfolding fq_cert_def by (simp only: num_eval)
  show "fq_cert 24193060302538010417230488029838514081720802923509845138863968807030823940444
    15549675580280190176352668710449542251549572066445060580507079593062643049417
    8078571937620755874121805575597237123138436325390059854316978749644668338154
    6497753714895156183426776061385273589038528872990799025281355686306256751706"
    unfolding fq_cert_def by (simp only: num_eval)
  show "fq_cert 57551756252899625001155759838357770487605224608455116862194664796369308545472
    24727413235106541002554574571675588834622768167397638456726423682521233608206
    15033415932910455299069107315338159419033648965175576943892286947697464528439
    24580367599291107975464295823530923982331601260248293077395576212825209057357"
    unfolding fq_cert_def by (simp only: num_eval)
  show "fq_cert 57551756252899625001155759838357770487605224608455116862194664796369308545472
    15549675580280190176352668710449542251549572066445060580507079593062643049417
    30669764113903190525019673621186452561310012811730212691302466949682132105660
    15457206873153973002413809275534372347319238052505611109330133136220891334036"
    unfolding fq_cert_def by (simp only: num_eval)
  show "fq_cert 24193060302538010417230488029838514081720802923509845138863968807030823940444
    24727413235106541002554574571675588834622768167397638456726423682521233608206
    39471529557189836860058826487841429781340761288845943468618747970698615279953
    10332861311391167468301009556494463863360341253977303113715794824777279599539"
    unfolding fq_cert_def by (simp only: num_eval)
  show "fq_cert 9451145793506787353375160377761530931587019091193333050860601958827395183563
    7877478122048862755598430610344988161480765250477852441251648244542214503244
    13660842077024423819815752513173865610585066199372303747348663738514737683030
    1285946124766018085003618760799179595963271003006021652004374776816155926758"
    unfolding fq_cert_def by (simp only: num_eval)
  show "fq_cert 20609402718286069808115703540855311742885093522056241285814584245966805874451
    7877478122048862755598430610344988161480765250477852441251648244542214503244
    8364153665851140134822695936171383326869311754300367145622161329542623308787
    2804165985623696191138716239871310793058600792671999609849798677377275595093"
    unfolding fq_cert_def by (simp only: num_eval)
  show "fq_cert 7877478122048862755598430610344988161480765250477852441251648244542214503244
    7877478122048862755598430610344988161480765250477852441251648244542214503244
    7492852873231427679909246137554693144378460571889362035691254166116869146865
    1071829033781008705002314337789704788830706277413509192612957764938120184379"
    unfolding fq_cert_def by (simp only: num_eval)
  show "fq_cert 50403191745426670031876246366789260782256531760930919984037537837839695673085
    35045658993190782452760919168861848903697281548757143930228075823903666494044
    1
    30510082022241835467413963935193546643239883788021058294747146135875349478711"
    unfolding fq_cert_def by (simp only: num_eval)
  show "9451145793506787353375160377761530931587019091193333050860601958827395183563 + 13660842077024423819815752513173865610585066199372303747348663738514737683030 = 8078571937620755874121805575597237123138436325390059854316978749644668338154 + 15033415932910455299069107315338159419033648965175576943892286947697464528439 + fe_p * 0" "20609402718286069808115703540855311742885093522056241285814584245966805874451 = 30669764113903190525019673621186452561310012811730212691302466949682132105660 + 39471529557189836860058826487841429781340761288845943468618747970698615279953 + 8364153665851140134822695936171383326869311754300367145622161329542623308787 + fe_p * (- 1)"
    "1 = 50403191745426670031876246366789260782256531760930919984037537837839695673085 + 7492852873231427679909246137554693144378460571889362035691254166116869146865 + fe_p * (- 1)"
    by (simp_all add: fe_p_def)
qed

lemma step_5:
  assumes "curve_comb G g (of_int 9451145793506787353375160377761530931587019091193333050860601958827395183563) (of_int 20609402718286069808115703540855311742885093522056241285814584245966805874451) 1"
    "curve_comb G h (of_int 24727413235106541002554574571675588834622768167397638456726423682521233608206) (of_int 15549675580280190176352668710449542251549572066445060580507079593062643049417) 1"
  shows "curve_comb G (g + h) (of_int 7442235066513780790779899786332475485840754593728627195931759107337804079085) (of_int 8529785864514984411577036536286432879603480171865651918962709025066066124672) 1"
proof (rule table_step [OF Bi_5 assms(1) B2_ext assms(2)])
  show "fq_cert 42918775842614075349281921888029854474516246449989636565809754045710664221931
    16552979481334663544878610556091376071931149008662153799327195285289362371585
    39401460070013387312891163651564801670953213707982218393283189671500785029234
    12270848908007127077410707538273129701182265758260293301543619465035788921149"
    unfolding fq_cert_def by (simp only: num_eval)
  show "fq_cert 9451145793506787353375160377761530931587019091193333050860601958827395183563
    15549675580280190176352668710449542251549572066445060580507079593062643049417
    36523668441405715672473826926471761011558150252149087728229935787769810684401
    2538381540897164523391224791129331686734216948523810456808032494881222395130"
    unfolding fq_cert_def by (simp only: num_eval)
  show "fq_cert 20609402718286069808115703540855311742885093522056241285814584245966805874451
    24727413235106541002554574571675588834622768167397638456726423682521233608206
    37245272903891405555736527680150836965662117890080473877893541671781151623573
    8802280378572768304918854912879854999105343754644677365191279931331548827817"
    unfolding fq_cert_def by (simp only: num_eval)
  show "fq_cert 20609402718286069808115703540855311742885093522056241285814584245966805874451
    15549675580280190176352668710449542251549572066445060580507079593062643049417
    40530214640583553323417811076674281727125935410020683054938954657707605882204
    5535257689597256053294773264299714481693146139969948684309505484495364087787"
    unfolding fq_cert_def by (simp only: num_eval)
  show "fq_cert 9451145793506787353375160377761530931587019091193333050860601958827395183563
    24727413235106541002554574571675588834622768167397638456726423682521233608206
    14980201344168139239096952090747236809489943918441111821135166819811770972053
    4036586421759911061921598706944881940732696592131598501888848002958458712825"
    unfolding fq_cert_def by (simp only: num_eval)
  show "fq_cert 7442235066513780790779899786332475485840754593728627195931759107337804079085
    39401460070013387312891163651564801670953213707982218393283189671500785029234
    8430661660125242725644962315946168564744521215680652390462926348256593408940
    5064852525528067700587028409505865751592360905533385245891769993233475910550"
    unfolding fq_cert_def by (simp only: num_eval)
  show "fq_cert 8529785864514984411577036536286432879603480171865651918962709025066066124672
    39401460070013387312891163651564801670953213707982218393283189671500785029234
    10915414498421389560847765873208868269622593176224139062617379551503254090364
    5804990986174238405323029107441839482691466531557658185355143233028219383316"
    unfolding fq_cert_def by (simp only: num_eval)
  show "fq_cert 39401460070013387312891163651564801670953213707982218393283189671500785029234
    39401460070013387312891163651564801670953213707982218393283189671500785029234
    42894501066818743935188244002529574414498750147262814431931541332596051632636
    26814872516326354576387819301025087683575679392942917811641902422698978011880"
    unfolding fq_cert_def by (simp only: num_eval)
  show "fq_cert 15001543551839353776597248501814379512136242185557467587797250671360513187314
    28177587632909914200666588365013692422679365489574658691813040490163372054200
    1
    7301143123767778110442212753237850778628380357904213299738353653179448968651"
    unfolding fq_cert_def by (simp only: num_eval)
  show "7442235066513780790779899786332475485840754593728627195931759107337804079085 + 8430661660125242725644962315946168564744521215680652390462926348256593408940 = 36523668441405715672473826926471761011558150252149087728229935787769810684401 + 37245272903891405555736527680150836965662117890080473877893541671781151623573 + fe_p * (- 1)" "8529785864514984411577036536286432879603480171865651918962709025066066124672 = 40530214640583553323417811076674281727125935410020683054938954657707605882204 + 14980201344168139239096952090747236809489943918441111821135166819811770972053 + 10915414498421389560847765873208868269622593176224139062617379551503254090364 + fe_p * (- 1)"
    "1 = 15001543551839353776597248501814379512136242185557467587797250671360513187314 + 42894501066818743935188244002529574414498750147262814431931541332596051632636 + fe_p * (- 1)"
    by (simp_all add: fe_p_def)
qed

lemma step_6:
  assumes "curve_comb G g (of_int 7442235066513780790779899786332475485840754593728627195931759107337804079085) (of_int 8529785864514984411577036536286432879603480171865651918962709025066066124672) 1"
    "curve_comb G h (of_int 24727413235106541002554574571675588834622768167397638456726423682521233608206) (of_int 15549675580280190176352668710449542251549572066445060580507079593062643049417) 1"
  shows "curve_comb G (g + h) (of_int 35771902585589234259498423420223840099331465042459337605611172842168536632769) (of_int 8502034780705657720897159939055122322178084209392286764802307224484658961631) 1"
proof (rule table_step [OF Bi_6 assms(1) B2_ext assms(2)])
  show "fq_cert 16618656332106623536697104938175722455349318244093413799134255377463723381180
    16552979481334663544878610556091376071931149008662153799327195285289362371585
    45816845794232749498991608072953932466942116014606495453164585144074912777403
    4751417460115417074727828628488305748635559421751276690618967967680688244453"
    unfolding fq_cert_def by (simp only: num_eval)
  show "fq_cert 7442235066513780790779899786332475485840754593728627195931759107337804079085
    15549675580280190176352668710449542251549572066445060580507079593062643049417
    12076267221312838434655434941383930905171250078755816855725262741864161295163
    1998829827472875268259475595472811190667410813111047914927360052310034370818"
    unfolding fq_cert_def by (simp only: num_eval)
  show "fq_cert 8529785864514984411577036536286432879603480171865651918962709025066066124672
    24727413235106541002554574571675588834622768167397638456726423682521233608206
    40269207660870616202746618967582616719806907604068180537336667979428605936056
    3643073395913124174636218580846988619163556579821658540308036582542384536424"
    unfolding fq_cert_def by (simp only: num_eval)
  show "fq_cert 8529785864514984411577036536286432879603480171865651918962709025066066124672
    15549675580280190176352668710449542251549572066445060580507079593062643049417
    19825164067779614078206114249232182759535213208898892830988794012221484831435
    2290923392713489987586226983216406500706998834692637638154562739667878077161"
    unfolding fq_cert_def by (simp only: num_eval)
  show "fq_cert 7442235066513780790779899786332475485840754593728627195931759107337804079085
    24727413235106541002554574571675588834622768167397638456726423682521233608206
    38919509364173204966524514906699328588686310710353568878912568345721734308542
    3178580213805842815851282036490783082207594897576336962237670237303692305432"
    unfolding fq_cert_def by (simp only: num_eval)
  show "fq_cert 35771902585589234259498423420223840099331465042459337605611172842168536632769
    45816845794232749498991608072953932466942116014606495453164585144074912777403
    16573572296594220377903630488742707525646692640364659787450757879124230598450
    28308596128207231145721318538685982025362652538757453936639265933113812594893"
    unfolding fq_cert_def by (simp only: num_eval)
  show "fq_cert 8502034780705657720897159939055122322178084209392286764802307224484658961631
    45816845794232749498991608072953932466942116014606495453164585144074912777403
    7653405967410936387952023287467564900591552622960107074629736870498004641603
    6728204302220312255003807672134891790266411611788884637598582490664149176810"
    unfolding fq_cert_def by (simp only: num_eval)
  show "fq_cert 45816845794232749498991608072953932466942116014606495453164585144074912777403
    45816845794232749498991608072953932466942116014606495453164585144074912777403
    21759357275310238800068205262263838323193473596820487297511196561306098462180
    36257802624671903096781707329360002470021416043377264240201742702317492671721"
    unfolding fq_cert_def by (simp only: num_eval)
  show "fq_cert 36136687343347858911717287242080115603441518735999794722217595442650466357770
    17391576270364731266562562079738291347896280200318846676447403915045956225445
    1
    10855214000018586790534501066936958146298124670746915510206916662461478497301"
    unfolding fq_cert_def by (simp only: num_eval)
  show "35771902585589234259498423420223840099331465042459337605611172842168536632769 + 16573572296594220377903630488742707525646692640364659787450757879124230598450 = 12076267221312838434655434941383930905171250078755816855725262741864161295163 + 40269207660870616202746618967582616719806907604068180537336667979428605936056 + fe_p * 0" "8502034780705657720897159939055122322178084209392286764802307224484658961631 = 19825164067779614078206114249232182759535213208898892830988794012221484831435 + 38919509364173204966524514906699328588686310710353568878912568345721734308542 + 7653405967410936387952023287467564900591552622960107074629736870498004641603 + fe_p * (- 1)"
    "1 = 36136687343347858911717287242080115603441518735999794722217595442650466357770 + 21759357275310238800068205262263838323193473596820487297511196561306098462180 + fe_p * (- 1)"
    by (simp_all add: fe_p_def)
qed

subsection \<open>The base point\<close>

text \<open>The base point has \<open>y = 4 / 5\<close>.\<close>

definition base_x :: int where
  "base_x = 15112221349535400772501151409588531511454012693041857206046113283949847762202"

definition base_y :: int where
  "base_y = 46316835694926478169428394003475163141307993866256225615783033603165251855960"

lemma base_y_value: "5 * base_y mod fe_p = 4"
  by (simp add: base_y_def fe_p_def)

lemma base_table_odd:
  assumes "curve_comb G g (of_int base_x) (of_int base_y) 1"
  shows "odd_base G g"
proof -
  note p0 = assms [unfolded base_x_def base_y_def]
  note q = B2_comb [OF p0]
  note p1 = step_0 [OF p0 q]
  note p2 = step_1 [OF p1 q]
  note p3 = step_2 [OF p2 q]
  note p4 = step_3 [OF p3 q]
  note p5 = step_4 [OF p4 q]
  note p6 = step_5 [OF p5 q]
  note p7 = step_6 [OF p6 q]
  note t = table_entry_is [OF Bi_0 p0] table_entry_is [OF Bi_1 p1] table_entry_is [OF Bi_2 p2] table_entry_is [OF Bi_3 p3]
    table_entry_is [OF Bi_4 p4] table_entry_is [OF Bi_5 p5] table_entry_is [OF Bi_6 p6] table_entry_is [OF Bi_7 p7]
  have g: "g + (g + g) = of_int (2 * int 1 + 1) * g"
    "g + (g + g) + (g + g) = of_int (2 * int 2 + 1) * g" "g + (g + g) + (g + g) + (g + g) = of_int (2 * int 3 + 1) * g"
    "g + (g + g) + (g + g) + (g + g) + (g + g) = of_int (2 * int 4 + 1) * g"
    "g + (g + g) + (g + g) + (g + g) + (g + g) + (g + g) = of_int (2 * int 5 + 1) * g"
    "g + (g + g) + (g + g) + (g + g) + (g + g) + (g + g) + (g + g) = of_int (2 * int 6 + 1) * g"
    "g + (g + g) + (g + g) + (g + g) + (g + g) + (g + g) + (g + g) + (g + g) = of_int (2 * int 7 + 1) * g"
    by (simp_all add: algebra_simps)
  have t0: "precomp_is G (of_int (2 * int 0 + 1) * g) (ge_Bi ! 0)" using t(1) by simp
  have "precomp_is G (of_int (2 * int j + 1) * g) (ge_Bi ! j)" if "j < 8" for j
  proof -
    have "j = 0 \<or> j = 1 \<or> j = 2 \<or> j = 3 \<or> j = 4 \<or> j = 5 \<or> j = 6 \<or> j = 7" using that by linarith
    then show ?thesis using t0 t(2) [unfolded g(1)] t(3) [unfolded g(2)] t(4) [unfolded g(3)] t(5) [unfolded g(4)]
      t(6) [unfolded g(5)] t(7) [unfolded g(6)] t(8) [unfolded g(7)] by blast
  qed
  then show ?thesis by (simp add: odd_base_def)
qed

subsection \<open>Properties\<close>

text \<open>C4: The double multiplication behind signature checks.  For scalars \<open>a\<close> and \<open>b\<close> below \<open>2^255\<close> and a point \<open>A\<close> of the
  curve, \<open>ge_double_scalarmult_base_vartime\<close> returns a point of the curve with limbs in bounds that stands for
  \<open>a A + b B\<close>, where \<open>B\<close> is the base point: it is reached from \<open>A\<close> and \<open>B\<close> by the addition law, and its label is
  \<open>a \<alpha> + b \<beta>\<close> whatever labels \<open>\<alpha>\<close> and \<open>\<beta>\<close> are given to the two points.  The same holds for extended coordinates.\<close>

theorem ge_double_scalarmult_base_spec:
  fixes \<alpha> \<beta> :: "'g::comm_ring_1"
  assumes "length a = 32" "a ! 31 \<le> 127" "length b = 32" "b ! 31 \<le> 127" "p3_ok A"
  defines "G \<equiv> {(\<alpha>, fe_fq (p3_X A), fe_fq (p3_Y A), fe_fq (p3_Z A)), (\<beta>, of_int base_x, of_int base_y, 1)}"
  shows "p2_is G (of_int (int (le_val a)) * \<alpha> + of_int (int (le_val b)) * \<beta>) (ge_double_scalarmult_base_vartime a A b) \<and>
    p3_is G (of_int (int (le_val a)) * \<alpha> + of_int (int (le_val b)) * \<beta>) (ge_double_scalarmult_base_vartime_p3 a A b)"
proof -
  have "p3_is G \<alpha> A" using assms(5) comb_gen [of \<alpha> _ _ _ G] by (simp add: p3_is_def G_def)
  moreover have "odd_base G \<beta>" by (rule base_table_odd, rule comb_gen) (simp add: G_def)
  ultimately show ?thesis using assms(1-4) ge_double_scalarmult_base_vartime_is [of a b G \<alpha> A \<beta>] by blast
qed

theorem ge_double_scalarmult_base_spec_witness:
  "p2_is {(0 :: int, fe_fq fe_0, fe_fq fe_1, fe_fq fe_1), (1, of_int base_x, of_int base_y, 1)} 7
    (ge_double_scalarmult_base_vartime (5 # replicate 31 0) ge_p3_0 (7 # replicate 31 0))"
proof -
  have "length (x # replicate 31 (0 :: u8)) = 32" "(x # replicate 31 (0 :: u8)) ! 31 \<le> 127" for x by (simp_all add: nth_Cons')
  from ge_double_scalarmult_base_spec [OF this [of 5] this [of 7] ge_0_ok(2), of 0 "1 :: int"]
  show ?thesis by (simp add: ge_p3_0_def le_val_zeros)
qed

end
