(* ===== verification/Keys.thy ===== *)
theory Keys
  imports PointCodec BaseTable Varint Keccak
begin

unbundle bit_operations_syntax

text \<open>
  Keys and signatures, \<open>src/crypto/crypto.cpp\<close>, over the scalars, the group, the hash and the variable-length integers of
  the other theories.  Keys, points, scalars and hashes are their 32 bytes.  The random generator is a list of 32 byte draws
  that the functions consume; whether \<open>malloc\<close> returns memory is a parameter.  An answer \<open>false\<close> is \<open>Some False\<close>, or
  \<open>Some None\<close> for a function with a result; a failed assertion, an exception, an abort, an access out of range and the end
  of the draws are \<open>None\<close>.  Wiping memory has no counterpart.
\<close>

section \<open>Definitions\<close>

subsection \<open>Scalars\<close>

definition infinity :: bytes where
  "infinity = 1 # replicate 31 0"

fun less_bytes :: "nat \<Rightarrow> bytes \<Rightarrow> bytes \<Rightarrow> bool" where
  "less_bytes 0 k0 k1 = False"
| "less_bytes (Suc n) k0 k1 = (if k0 ! n < k1 ! n then True else if k0 ! n > k1 ! n then False else less_bytes n k0 k1)"

definition less32 :: "bytes \<Rightarrow> bytes \<Rightarrow> bool" where
  "less32 k0 k1 = less_bytes 32 k0 k1"

definition random_limit :: bytes where
  "random_limit = [0xe3, 0x6a, 0x67, 0x72, 0x8b, 0xce, 0x13, 0x29, 0x8f, 0x30, 0x82, 0x8c, 0x0b, 0xa4, 0x10, 0x39, 0x01,
    0x00, 0x00, 0x00, 0x00, 0x00, 0x00, 0x00, 0x00, 0x00, 0x00, 0x00, 0x00, 0x00, 0x00, 0xf0]"

fun random32_unbiased :: "bytes list \<Rightarrow> (bytes \<times> bytes list) option" where
  "random32_unbiased [] = None"
| "random32_unbiased (d # ds) =
    (if \<not> less32 d random_limit then random32_unbiased ds
     else let s = sc_reduce32 d in if sc_isnonzero s \<noteq> 0 then Some (s, ds) else random32_unbiased ds)"

definition hash_to_scalar :: "bytes \<Rightarrow> bytes" where
  "hash_to_scalar data = sc_reduce32 (cn_fast_hash data)"

subsection \<open>Keys\<close>

text \<open>The public key, the secret key and the random value, with the draws that are left.\<close>

definition generate_keys :: "bytes \<Rightarrow> bool \<Rightarrow> bytes list \<Rightarrow> ((bytes \<times> bytes \<times> bytes) \<times> bytes list) option" where
  "generate_keys recovery_key recover draws = do {
    (rng, draws) \<leftarrow> (if recover then Some (recovery_key, draws) else random32_unbiased draws);
    let sec = sc_reduce32 rng;
    point \<leftarrow> ge_scalarmult_base sec;
    Some ((ge_p3_tobytes point, sec, rng), draws) }"

definition check_key :: "bytes \<Rightarrow> bool" where
  "check_key key \<longleftrightarrow> ge_frombytes_vartime key \<noteq> None"

definition get_valid_torsion_cleared_point_vartime :: "bytes \<Rightarrow> bytes option option" where
  "get_valid_torsion_cleared_point_vartime point =
    (case ge_frombytes_vartime point of
       None \<Rightarrow> Some None
     | Some p3 \<Rightarrow> do {
         cleared \<leftarrow> ge_clear_torsion_vartime p3;
         Some (if cleared = infinity then None else Some cleared) })"

definition pubkey_clear_torsion :: "bytes \<Rightarrow> bytes option" where
  "pubkey_clear_torsion pubkey = do {
    r \<leftarrow> get_valid_torsion_cleared_point_vartime pubkey;
    Some (case r of None \<Rightarrow> infinity | Some result \<Rightarrow> result) }"

definition secret_key_to_public_key :: "bytes \<Rightarrow> bytes option option" where
  "secret_key_to_public_key sec =
    (if sc_check sec \<noteq> 0 then Some None
     else do {
       point \<leftarrow> ge_scalarmult_base sec;
       Some (Some (ge_p3_tobytes point)) })"

definition generate_key_derivation :: "bytes \<Rightarrow> bytes \<Rightarrow> bytes option option" where
  "generate_key_derivation key1 key2 =
    (if sc_check key2 \<noteq> 0 then None
     else case ge_frombytes_vartime key1 of
       None \<Rightarrow> Some None
     | Some point \<Rightarrow> do {
         point2 \<leftarrow> ge_scalarmult key2 point;
         Some (Some (ge_tobytes (ge_p1p1_to_p2 (ge_mul8 point2)))) })"

definition derivation_to_scalar :: "bytes \<Rightarrow> u64 \<Rightarrow> bytes option" where
  "derivation_to_scalar derivation output_index =
    (let index = write_varint output_index
     in if length index \<le> 10 then Some (hash_to_scalar (derivation @ index)) else None)"

definition derive_public_key :: "bytes \<Rightarrow> u64 \<Rightarrow> bytes \<Rightarrow> bytes option option" where
  "derive_public_key derivation output_index base =
    (case ge_frombytes_vartime base of
       None \<Rightarrow> Some None
     | Some point1 \<Rightarrow> do {
         scalar \<leftarrow> derivation_to_scalar derivation output_index;
         point2 \<leftarrow> ge_scalarmult_base scalar;
         let point4 = ge_add point1 (ge_p3_to_cached point2);
         Some (Some (ge_tobytes (ge_p1p1_to_p2 point4))) })"

definition derive_secret_key :: "bytes \<Rightarrow> u64 \<Rightarrow> bytes \<Rightarrow> bytes option" where
  "derive_secret_key derivation output_index base =
    (if sc_check base \<noteq> 0 then None
     else do {
       scalar \<leftarrow> derivation_to_scalar derivation output_index;
       Some (sc_add base scalar) })"

definition derive_subaddress_public_key :: "bytes \<Rightarrow> bytes \<Rightarrow> u64 \<Rightarrow> bytes option option" where
  "derive_subaddress_public_key out_key derivation output_index =
    (case ge_frombytes_vartime out_key of
       None \<Rightarrow> Some None
     | Some point1 \<Rightarrow> do {
         scalar \<leftarrow> derivation_to_scalar derivation output_index;
         point2 \<leftarrow> ge_scalarmult_base scalar;
         let point4 = ge_sub point1 (ge_p3_to_cached point2);
         Some (Some (ge_tobytes (ge_p1p1_to_p2 point4))) })"

definition derive_view_tag :: "bytes \<Rightarrow> u64 \<Rightarrow> u8 option" where
  "derive_view_tag derivation output_index =
    (let index = write_varint output_index;
         salt = [0x76, 0x69, 0x65, 0x77, 0x5f, 0x74, 0x61, 0x67]
     in if length index \<le> 10 then Some (cn_fast_hash (salt @ derivation @ index) ! 0) else None)"

subsection \<open>Signatures\<close>

definition s_comm :: "bytes \<Rightarrow> bytes \<Rightarrow> bytes \<Rightarrow> bytes" where
  "s_comm h key comm = h @ key @ comm"

lemma random32_unbiased_shorter: "random32_unbiased ds = Some (s, ds') \<Longrightarrow> length ds' < length ds"
  by (induction ds) (auto simp: Let_def less_Suc_eq split: if_splits)

function signature_loop :: "bytes \<Rightarrow> bytes \<Rightarrow> bytes \<Rightarrow> bytes list \<Rightarrow> ((bytes \<times> bytes) \<times> bytes list) option" where
  "signature_loop prefix_hash pub sec draws =
    (case random32_unbiased draws of
       None \<Rightarrow> None
     | Some (k, draws') \<Rightarrow>
         (case ge_scalarmult_base k of
            None \<Rightarrow> None
          | Some tmp3 \<Rightarrow>
              let c = hash_to_scalar (s_comm prefix_hash pub (ge_p3_tobytes tmp3))
              in if sc_isnonzero c = 0 then signature_loop prefix_hash pub sec draws'
                 else let r = sc_mulsub c sec k
                      in if sc_isnonzero r = 0 then signature_loop prefix_hash pub sec draws' else Some ((c, r), draws')))"
  by pat_completeness auto

termination
  by (relation "measure (\<lambda>(h, p, s, draws). length draws)") (auto dest: random32_unbiased_shorter)

declare signature_loop.simps [simp del]

definition generate_signature :: "bytes \<Rightarrow> bytes \<Rightarrow> bytes \<Rightarrow> bytes list \<Rightarrow> ((bytes \<times> bytes) \<times> bytes list) option" where
  "generate_signature prefix_hash pub sec draws =
    (if sc_check sec \<noteq> 0 then None
     else do {
       t \<leftarrow> ge_scalarmult_base sec;
       if pub \<noteq> ge_p3_tobytes t then None else signature_loop prefix_hash pub sec draws })"

definition check_signature :: "bytes \<Rightarrow> bytes \<Rightarrow> bytes \<times> bytes \<Rightarrow> bool option" where
  "check_signature prefix_hash pub sig =
    (if \<not> check_key pub then None
     else case ge_frombytes_vartime pub of
       None \<Rightarrow> Some False
     | Some tmp3 \<Rightarrow>
         if sc_check (fst sig) \<noteq> 0 \<or> sc_check (snd sig) \<noteq> 0 \<or> sc_isnonzero (fst sig) = 0 then Some False
         else let tmp2 = ge_double_scalarmult_base_vartime (fst sig) tmp3 (snd sig);
                  comm = ge_tobytes tmp2
              in if comm = infinity then Some False
                 else let c = hash_to_scalar (s_comm prefix_hash pub comm);
                          c = sc_sub c (fst sig)
                      in Some (sc_isnonzero c = 0))"

subsection \<open>Proofs about transactions\<close>

text \<open>The multiple of the given point, or of the base point when there is none, as bytes.\<close>

definition mult_or_base :: "bytes \<Rightarrow> ge_p3 option \<Rightarrow> bytes option" where
  "mult_or_base k B = (case B of
     Some B_p3 \<Rightarrow> do { X_p2 \<leftarrow> ge_scalarmult k B_p3; Some (ge_tobytes X_p2) }
   | None \<Rightarrow> do { X_p3 \<leftarrow> ge_scalarmult_base k; Some (ge_p3_tobytes X_p3) })"

definition mult_bytes :: "bytes \<Rightarrow> ge_p3 \<Rightarrow> bytes option" where
  "mult_bytes k A = do { Y_p2 \<leftarrow> ge_scalarmult k A; Some (ge_tobytes Y_p2) }"

text \<open>The decoded optional key; the outer failure is an invalid one.\<close>

definition optional_point :: "bytes option \<Rightarrow> ge_p3 option option" where
  "optional_point B = (case B of None \<Rightarrow> Some None | Some b \<Rightarrow> map_option Some (ge_frombytes_vartime b))"

definition tx_proof_asserts :: "bytes \<Rightarrow> bytes \<Rightarrow> ge_p3 \<Rightarrow> ge_p3 option \<Rightarrow> bytes \<Rightarrow> unit option" where
  "tx_proof_asserts r R A_p3 B_p3 D =
    (if sc_check r \<noteq> 0 then None
     else do {
       dbg_R \<leftarrow> mult_or_base r B_p3;
       if R \<noteq> dbg_R then None
       else do {
         dbg_D \<leftarrow> mult_bytes r A_p3;
         if D \<noteq> dbg_D then None else Some () } })"

definition generate_tx_proof_v1 ::
    "bytes \<Rightarrow> bytes \<Rightarrow> bytes \<Rightarrow> bytes option \<Rightarrow> bytes \<Rightarrow> bytes \<Rightarrow> bytes list \<Rightarrow> ((bytes \<times> bytes) \<times> bytes list) option" where
  "generate_tx_proof_v1 prefix_hash R A B D r draws = do {
    R_p3 \<leftarrow> ge_frombytes_vartime R;
    A_p3 \<leftarrow> ge_frombytes_vartime A;
    B_p3 \<leftarrow> optional_point B;
    D_p3 \<leftarrow> ge_frombytes_vartime D;
    u \<leftarrow> tx_proof_asserts r R A_p3 B_p3 D;
    (k, draws) \<leftarrow> random32_unbiased draws;
    X \<leftarrow> mult_or_base k B_p3;
    Y \<leftarrow> mult_bytes k A_p3;
    let c = hash_to_scalar (prefix_hash @ D @ X @ Y);
    Some ((c, sc_mulsub c r k), draws) }"

definition HASH_KEY_TXPROOF_V2 :: bytes where
  "HASH_KEY_TXPROOF_V2 = [0x54, 0x58, 0x50, 0x52, 0x4f, 0x4f, 0x46, 0x5f, 0x56, 0x32]"

definition s_comm_2 :: "bytes \<Rightarrow> bytes \<Rightarrow> bytes \<Rightarrow> bytes \<Rightarrow> bytes \<Rightarrow> bytes \<Rightarrow> bytes option \<Rightarrow> bytes" where
  "s_comm_2 msg D X Y R A B =
    msg @ D @ X @ Y @ cn_fast_hash HASH_KEY_TXPROOF_V2 @ R @ A @ (case B of Some b \<Rightarrow> b | None \<Rightarrow> replicate 32 0)"

definition generate_tx_proof ::
    "bytes \<Rightarrow> bytes \<Rightarrow> bytes \<Rightarrow> bytes option \<Rightarrow> bytes \<Rightarrow> bytes \<Rightarrow> bytes list \<Rightarrow> ((bytes \<times> bytes) \<times> bytes list) option" where
  "generate_tx_proof prefix_hash R A B D r draws = do {
    R_p3 \<leftarrow> ge_frombytes_vartime R;
    A_p3 \<leftarrow> ge_frombytes_vartime A;
    B_p3 \<leftarrow> optional_point B;
    D_p3 \<leftarrow> ge_frombytes_vartime D;
    u \<leftarrow> tx_proof_asserts r R A_p3 B_p3 D;
    (k, draws) \<leftarrow> random32_unbiased draws;
    X \<leftarrow> mult_or_base k B_p3;
    Y \<leftarrow> mult_bytes k A_p3;
    let c = hash_to_scalar (s_comm_2 prefix_hash D X Y R A B);
    Some ((c, sc_mulsub c r k), draws) }"

text \<open>The multiple of a point through its bytes, as the check computes it; the inner failure is the answer \<open>false\<close>.\<close>

definition mult_decoded :: "bytes \<Rightarrow> ge_p3 \<Rightarrow> ge_p3 option option" where
  "mult_decoded k A = do { b \<leftarrow> mult_bytes k A; Some (ge_frombytes_vartime b) }"

definition check_tx_proof ::
    "bytes \<Rightarrow> bytes \<Rightarrow> bytes \<Rightarrow> bytes option \<Rightarrow> bytes \<Rightarrow> bytes \<times> bytes \<Rightarrow> int \<Rightarrow> bool option" where
  "check_tx_proof prefix_hash R A B D sig version =
    (case (ge_frombytes_vartime R, ge_frombytes_vartime A, optional_point B, ge_frombytes_vartime D) of
       (Some R_p3, Some A_p3, Some B_p3, Some D_p3) \<Rightarrow>
         if sc_check (fst sig) \<noteq> 0 \<or> sc_check (snd sig) \<noteq> 0 then Some False
         else do {
           cR \<leftarrow> mult_decoded (fst sig) R_p3;
           case cR of
             None \<Rightarrow> Some False
           | Some cR_p3 \<Rightarrow> do {
               rB \<leftarrow> (case B_p3 of Some B_p3 \<Rightarrow> mult_decoded (snd sig) B_p3 | None \<Rightarrow> map_option Some (ge_scalarmult_base (snd sig)));
               case rB of
                 None \<Rightarrow> Some False
               | Some rB_p3 \<Rightarrow> do {
                   cD \<leftarrow> mult_decoded (fst sig) D_p3;
                   rA \<leftarrow> mult_decoded (snd sig) A_p3;
                   case (cD, rA) of
                     (Some cD_p3, Some rA_p3) \<Rightarrow>
                       let X_p2 = ge_p1p1_to_p2 (ge_add cR_p3 (ge_p3_to_cached rB_p3));
                           Y_p2 = ge_p1p1_to_p2 (ge_add cD_p3 (ge_p3_to_cached rA_p3));
                           buf = s_comm_2 prefix_hash D (ge_tobytes X_p2) (ge_tobytes Y_p2) R A B
                       in if version = 1 \<or> version = 2
                          then let c2 = hash_to_scalar (if version = 1 then take (length buf - 3 * 32 - 32) buf else buf);
                                   c2 = sc_sub c2 (fst sig)
                               in Some (sc_isnonzero c2 = 0)
                          else Some False
                   | _ \<Rightarrow> Some False } } }
     | _ \<Rightarrow> Some False)"

subsection \<open>Key images and ring signatures\<close>

definition biased_hash_to_ec :: "bytes \<Rightarrow> ge_p3 option" where
  "biased_hash_to_ec key = do {
    point \<leftarrow> ge_fromfe_frombytes_vartime (cn_fast_hash key);
    Some (ge_p1p1_to_p3 (ge_mul8 point)) }"

definition biased_derive_key_image_generator :: "bytes \<Rightarrow> bytes option" where
  "biased_derive_key_image_generator pub = map_option ge_p3_tobytes (biased_hash_to_ec pub)"

text \<open>The point of the unbiased map, from the 64 bytes of its hash.\<close>

definition unbiased_point :: "bytes \<Rightarrow> bytes option" where
  "unbiased_point hash = do {
    first \<leftarrow> ge_fromfe_frombytes_vartime (take 32 hash);
    let first_p3 = ge_p1p1_to_p3 (ge_mul8 first);
    second \<leftarrow> ge_fromfe_frombytes_vartime (drop 32 hash);
    let second_p3 = ge_p1p1_to_p3 (ge_mul8 second);
    Some (ge_p3_tobytes (ge_p1p1_to_p3 (ge_add first_p3 (ge_p3_to_cached second_p3)))) }"

definition generate_key_image :: "bytes \<Rightarrow> bytes \<Rightarrow> bytes option" where
  "generate_key_image pub sec =
    (if sc_check sec \<noteq> 0 then None
     else do {
       point \<leftarrow> biased_hash_to_ec pub;
       mult_bytes sec point })"

text \<open>One member of the ring in the check: its two points as bytes.  The keys and the signatures of a ring are paired; there
  is one signature for every key.\<close>

definition ring_points :: "ge_cached list \<Rightarrow> bytes \<Rightarrow> ge_p3 \<Rightarrow> bytes \<times> bytes \<Rightarrow> (bytes \<times> bytes) option" where
  "ring_points image_pre pub tmp3 sig = do {
    let a = ge_tobytes (ge_double_scalarmult_base_vartime (fst sig) tmp3 (snd sig));
    hp \<leftarrow> biased_hash_to_ec pub;
    let b = ge_tobytes (ge_double_scalarmult_precomp_vartime (snd sig) hp (fst sig) image_pre);
    Some (a, b) }"

text \<open>The loop over the keys reads a signature for each of them; a read past the signatures is a failure.\<close>

fun ring_check_loop :: "ge_cached list \<Rightarrow> bytes list \<Rightarrow> (bytes \<times> bytes) list \<Rightarrow> bytes \<times> bytes \<Rightarrow> (bytes \<times> bytes) option option" where
  "ring_check_loop image_pre [] sigs (acc, buf) = Some (Some (acc, buf))"
| "ring_check_loop image_pre (pub # pubs) [] (acc, buf) = None"
| "ring_check_loop image_pre (pub # pubs) (sig # sigs) (acc, buf) =
    (if sc_check (fst sig) \<noteq> 0 \<or> sc_check (snd sig) \<noteq> 0 then Some None
     else case ge_frombytes_vartime pub of
       None \<Rightarrow> Some None
     | Some tmp3 \<Rightarrow> do {
         (a, b) \<leftarrow> ring_points image_pre pub tmp3 sig;
         ring_check_loop image_pre pubs sigs (sc_add acc (fst sig), buf @ a @ b) })"

text \<open>The allocation of the buffer is a parameter: whether \<open>malloc\<close> returns memory for a number of bytes.\<close>

definition rs_comm_size :: "u64 \<Rightarrow> u64" where
  "rs_comm_size pubs_count = 32 + pubs_count * 64"

definition check_ring_signature ::
    "(u64 \<Rightarrow> bool) \<Rightarrow> bytes \<Rightarrow> bytes \<Rightarrow> bytes list \<Rightarrow> (bytes \<times> bytes) list \<Rightarrow> bool option" where
  "check_ring_signature malloc prefix_hash key_image pubs sig =
    (if \<not> malloc (rs_comm_size (of_nat (length pubs))) then Some False
     else if \<not> list_all check_key pubs then None
     else if key_image = infinity then Some False
     else case ge_frombytes_vartime key_image of
       None \<Rightarrow> Some False
     | Some image_unp \<Rightarrow> do {
         let image_pre = ge_dsm_precomp image_unp;
         image_unp \<leftarrow> ge_scalarmult_p3 sc_l image_unp;
         if \<not> ge_p3_is_point_at_infinity_vartime image_unp then Some False
         else do {
           r \<leftarrow> ring_check_loop image_pre pubs sig (sc_0, []);
           case r of
             None \<Rightarrow> Some False
           | Some (acc, buf) \<Rightarrow> Some (sc_isnonzero (sc_sub (hash_to_scalar (prefix_hash @ buf)) acc) = 0) } })"

text \<open>Signing: the sum, the buffer, the nonce, the signatures and the draws, through the members of the ring.\<close>

type_synonym ring_state = "bytes \<times> bytes \<times> bytes \<times> (bytes \<times> bytes) list \<times> bytes list"

definition ring_sign_member :: "ge_cached list \<Rightarrow> bytes list \<Rightarrow> nat \<Rightarrow> nat \<Rightarrow> ring_state \<Rightarrow> ring_state option" where
  "ring_sign_member image_pre pubs sec_index i = (\<lambda>(acc, buf, k, sig, draws).
    if i = sec_index
    then do {
      (k, draws) \<leftarrow> random32_unbiased draws;
      tmp3 \<leftarrow> ge_scalarmult_base k;
      hp \<leftarrow> biased_hash_to_ec (pubs ! i);
      b \<leftarrow> mult_bytes k hp;
      Some (acc, buf @ ge_p3_tobytes tmp3 @ b, k, sig, draws) }
    else do {
      (c, draws) \<leftarrow> random32_unbiased draws;
      (r, draws) \<leftarrow> random32_unbiased draws;
      tmp3 \<leftarrow> ge_frombytes_vartime (pubs ! i);
      (a, b) \<leftarrow> ring_points image_pre (pubs ! i) tmp3 (c, r);
      if i < length sig then Some (sc_add acc c, buf @ a @ b, k, sig[i := (c, r)], draws) else None })"

definition ring_sign_asserts :: "bytes \<Rightarrow> bytes list \<Rightarrow> bytes \<Rightarrow> nat \<Rightarrow> unit option" where
  "ring_sign_asserts key_image pubs sec sec_index =
    (if \<not> sec_index < length pubs \<or> sc_check sec \<noteq> 0 then None
     else do {
       t \<leftarrow> ge_scalarmult_base sec;
       if pubs ! sec_index \<noteq> ge_p3_tobytes t then None
       else do {
         t3 \<leftarrow> generate_key_image (pubs ! sec_index) sec;
         if key_image \<noteq> t3 \<or> \<not> list_all check_key pubs then None else Some () } })"

text \<open>\<open>sig0\<close> and \<open>k0\<close> are the contents of the memory of the signatures and the nonce before the call; a write outside that
  memory is a failure.\<close>

definition generate_ring_signature ::
    "(u64 \<Rightarrow> bool) \<Rightarrow> bytes \<Rightarrow> bytes \<Rightarrow> bytes list \<Rightarrow> bytes \<Rightarrow> nat \<Rightarrow> (bytes \<times> bytes) list \<Rightarrow> bytes \<Rightarrow> bytes list \<Rightarrow>
      (bytes \<times> bytes) list option" where
  "generate_ring_signature malloc prefix_hash key_image pubs sec sec_index sig0 k0 draws = do {
    m \<leftarrow> (if malloc (rs_comm_size (of_nat (length pubs))) then Some () else None);
    u \<leftarrow> ring_sign_asserts key_image pubs sec sec_index;
    image_unp \<leftarrow> ge_frombytes_vartime key_image;
    (acc, buf, k, sig, draws) \<leftarrow> opt_fold (ring_sign_member (ge_dsm_precomp image_unp) pubs sec_index)
      [0..<length pubs] (sc_0, [], k0, sig0, draws);
    let h = hash_to_scalar (prefix_hash @ buf);
    let c = sc_sub h acc;
    if sec_index < length sig then Some (sig[sec_index := (c, sc_mulsub c sec k)]) else None }"

section \<open>Scalars\<close>

lemma length_cn_fast_hash: "length (cn_fast_hash m) = 32"
  using cn_fast_hash_keccak32 by blast

lemma sc_order_pos: "0 < sc_order"
  by (simp add: sc_order_def)

lemma sc_order_less: "sc_order < 2 ^ 253"
  by (simp add: sc_order_def)

lemma hash_to_scalar_correct:
  "sc_val (hash_to_scalar m) = sc_val (cn_fast_hash m) mod sc_order" "length (hash_to_scalar m) = 32" "sc_val (hash_to_scalar m) < sc_order"
proof -
  show v: "sc_val (hash_to_scalar m) = sc_val (cn_fast_hash m) mod sc_order" and "length (hash_to_scalar m) = 32"
    using sc_reduce32_correct [OF length_cn_fast_hash, of m] by (simp_all add: hash_to_scalar_def)
  show "sc_val (hash_to_scalar m) < sc_order" unfolding v by (rule pos_mod_bound [OF sc_order_pos])
qed

text \<open>A canonical scalar is within what the multiplications accept.\<close>

lemma canonical_reduced:
  assumes "length s = 32" "sc_val s < sc_order"
  shows "reduced s"
proof -
  have s: "s = take 31 s @ [s ! 31]" using take_Suc_conv_app_nth [of 31 s] assms(1) by simp
  have "le_val s = le_val (take 31 s) + 256 ^ 31 * unat (s ! 31)"
    using arg_cong [OF s, of le_val] assms(1) unfolding le_val_append by simp
  moreover have "int (le_val s) < 2 ^ 253" using assms(2) sc_order_less by linarith
  then have "le_val s < 2 ^ 253" by (metis of_nat_less_iff of_nat_power of_nat_numeral)
  ultimately have "256 ^ 31 * unat (s ! 31) < 2 ^ 253" by linarith
  then have "unat (s ! 31) < 32" by simp
  then show ?thesis using assms(1) by (simp add: word_le_nat_alt)
qed

text \<open>The test at the end of the checks compares canonical scalars.\<close>

lemma difference_test:
  assumes "length a = 32" "length b = 32"
  shows "sc_isnonzero (sc_sub a b) = 0 \<longleftrightarrow> sc_val a mod sc_order = sc_val b mod sc_order"
proof -
  have "sc_isnonzero (sc_sub a b) = 0 \<longleftrightarrow> (sc_val a - sc_val b) mod sc_order = 0"
    using sc_sub_correct [OF assms] sc_isnonzero_correct [of "sc_sub a b"] by simp
  also have "\<dots> \<longleftrightarrow> sc_val a mod sc_order = sc_val b mod sc_order" by (simp add: mod_eq_dvd_iff mod_eq_0_iff_dvd)
  finally show ?thesis .
qed

lemma canonical_eq:
  assumes "length a = 32" "length b = 32" "sc_val a < sc_order" "sc_val b < sc_order"
  shows "sc_val a mod sc_order = sc_val b mod sc_order \<longleftrightarrow> a = b"
proof
  assume "sc_val a mod sc_order = sc_val b mod sc_order"
  then have "le_val a = le_val b" using assms(3,4) by (simp add: mod_pos_pos_trivial)
  then show "a = b" by (rule le_val_inject) (simp add: assms(1,2))
qed simp

lemma sc_check_0: "length s = 32 \<Longrightarrow> sc_check s = 0 \<longleftrightarrow> sc_val s < sc_order"
  by (simp add: sc_check_correct)

lemma sc_isnonzero_0: "length s = 32 \<Longrightarrow> sc_isnonzero s = 0 \<longleftrightarrow> sc_val s = 0"
  by (simp add: sc_isnonzero_correct)

subsection \<open>Random scalars\<close>

lemma less_bytes_correct:
  "n \<le> length a \<Longrightarrow> n \<le> length b \<Longrightarrow> less_bytes n a b \<longleftrightarrow> le_val (take n a) < le_val (take n b)"
proof (induction n)
  case (Suc n)
  have t: "le_val (take (Suc n) x) = le_val (take n x) + 256 ^ n * unat (x ! n)" if "Suc n \<le> length x" for x
    using that by (simp add: take_Suc_conv_app_nth le_val_append)
  have b: "le_val (take n x) < 256 ^ n" if "Suc n \<le> length x" for x using le_val_bound [of "take n x"] that by simp
  have lex: "u + 256 ^ n * x < v + 256 ^ n * y \<longleftrightarrow> x < y \<or> x = y \<and> u < v"
    if "u < 256 ^ n" "v < 256 ^ n" for u v x y :: nat
  proof (cases x y rule: linorder_cases)
    case less
    then have "256 ^ n * Suc x \<le> 256 ^ n * y" by (intro mult_le_mono2) simp
    with that less show ?thesis by simp
  next
    case greater
    then have "256 ^ n * Suc y \<le> 256 ^ n * x" by (intro mult_le_mono2) simp
    with that greater show ?thesis by simp
  qed simp
  show ?case
    using Suc lex [OF b [OF Suc.prems(1)] b [OF Suc.prems(2)]] word_eq_unatI [of "a ! n" "b ! n"]
    by (auto simp: t [OF Suc.prems(1)] t [OF Suc.prems(2)] word_less_nat_alt)
qed simp

lemma less32_correct: "length a = 32 \<Longrightarrow> length b = 32 \<Longrightarrow> less32 a b \<longleftrightarrow> le_val a < le_val b"
  using less_bytes_correct [of 32 a b] by (simp add: less32_def)

lemma random_limit_value: "length random_limit = 32" "sc_val random_limit = 15 * sc_order"
  by (simp_all add: random_limit_def sc_order_def)

text \<open>Below the limit every residue has fifteen representatives.\<close>

lemma residue_class:
  fixes m :: int assumes "0 < m" "0 \<le> v" "v < m"
  shows "{x. 0 \<le> x \<and> x < int n * m \<and> x mod m = v} = (\<lambda>j. int j * m + v) ` {..<n}"
proof (intro set_eqI iffI)
  fix x assume "x \<in> {x. 0 \<le> x \<and> x < int n * m \<and> x mod m = v}"
  then have x: "0 \<le> x" "x < int n * m" "x mod m = v" by auto
  have "x div m < int n"
  proof (rule ccontr)
    assume "\<not> x div m < int n"
    then have "int n * m \<le> x div m * m" using assms(1) by (intro mult_right_mono) simp_all
    also have "\<dots> \<le> x" using div_mult_mod_eq [of x m] pos_mod_sign [OF assms(1), of x] by linarith
    finally show False using x(2) by simp
  qed
  moreover have q: "0 \<le> x div m" using x(1) assms(1) by (simp add: pos_imp_zdiv_nonneg_iff)
  ultimately have "nat (x div m) < n" by linarith
  moreover have "x = int (nat (x div m)) * m + v" using q x(3) div_mult_mod_eq [of x m] by simp
  ultimately show "x \<in> (\<lambda>j. int j * m + v) ` {..<n}" by blast
next
  fix x assume "x \<in> (\<lambda>j. int j * m + v) ` {..<n}"
  then obtain j where j: "j < n" "x = int j * m + v" by auto
  have "int j * m + m \<le> int n * m" using j(1) assms(1) mult_right_mono [of "int j + 1" "int n" m] by (simp add: algebra_simps)
  then show "x \<in> {x. 0 \<le> x \<and> x < int n * m \<and> x mod m = v}" using j(2) assms by (simp add: mod_pos_pos_trivial)
qed

lemma card_residue_class:
  fixes m :: int assumes "0 < m" "0 \<le> v" "v < m"
  shows "card {x. 0 \<le> x \<and> x < int n * m \<and> x mod m = v} = n"
  unfolding residue_class [OF assms] using assms(1) by (subst card_image) (auto simp: inj_on_def)

lemma sc_val_bytes:
  assumes "0 \<le> x" "x < 2 ^ 256"
  obtains d where "length d = 32" "sc_val d = x"
proof -
  define d where "d = le_bytes 32 (of_int x :: 256 word)"
  have "le_word d = (of_int x :: 256 word)" unfolding d_def by (rule le_word_le_bytes) simp
  then have "unat (le_word d :: 256 word) = unat (of_int x :: 256 word)" by simp
  moreover have "le_val d < 256 ^ 32" using le_val_bound [of d] by (simp add: d_def)
  then have "le_val d < 2 ^ 256" by simp
  ultimately have "le_val d = nat x"
    using assms by (simp add: unat_le_word unsigned_of_int take_bit_int_eq_self nat_less_iff)
  then show thesis using assms(1) by (intro that [of d]) (simp_all add: d_def)
qed

lemma sc_val_inj: "inj_on sc_val {d. length d = 32}"
  by (auto simp: inj_on_def intro: le_val_inject)

lemma random_draws_of:
  assumes "0 \<le> v" "v < sc_order"
  shows "card {d. length d = 32 \<and> less32 d random_limit \<and> sc_val (sc_reduce32 d) = v} = 15"
proof -
  let ?D = "{d. length d = 32 \<and> less32 d random_limit \<and> sc_val (sc_reduce32 d) = v}"
  have l: "less32 d random_limit \<longleftrightarrow> sc_val d < 15 * sc_order" if "length d = 32" for d
    using less32_correct [OF that random_limit_value(1)] random_limit_value(2) by linarith
  have "sc_val ` ?D = {x. 0 \<le> x \<and> x < int 15 * sc_order \<and> x mod sc_order = v}"
  proof (intro set_eqI iffI)
    fix x assume "x \<in> {x. 0 \<le> x \<and> x < int 15 * sc_order \<and> x mod sc_order = v}"
    then have x: "0 \<le> x" "x < 15 * sc_order" "x mod sc_order = v" by auto
    have "x < 2 ^ 256" using x(2) by (simp add: sc_order_def)
    from sc_val_bytes [OF x(1) this] obtain d where "length d = 32" "sc_val d = x" .
    with x l [of d] sc_reduce32_correct [of d] show "x \<in> sc_val ` ?D" by force
  qed (use l sc_reduce32_correct in auto)
  moreover have "inj_on sc_val ?D" using sc_val_inj by (rule inj_on_subset) auto
  ultimately show ?thesis using card_image [of sc_val ?D] card_residue_class [OF sc_order_pos assms, of 15] by simp
qed

text \<open>The draws that the loop passes over: those from fifteen times the order on, and the multiples of the order.\<close>

definition rejected :: "bytes \<Rightarrow> bool" where
  "rejected d \<longleftrightarrow> 15 * sc_order \<le> sc_val d \<or> sc_val d mod sc_order = 0"

lemma less32_limit: "length d = 32 \<Longrightarrow> less32 d random_limit \<longleftrightarrow> sc_val d < 15 * sc_order"
  using less32_correct [OF _ random_limit_value(1), of d] random_limit_value(2) by linarith

lemma random32_unbiased_step:
  assumes "length d = 32"
  shows "random32_unbiased (d # ds) = (if rejected d then random32_unbiased ds else Some (sc_reduce32 d, ds))"
  using less32_limit [OF assms] sc_isnonzero_0 [of "sc_reduce32 d"] sc_reduce32_correct [OF assms]
  by (auto simp: rejected_def Let_def)

declare random32_unbiased.simps(2) [simp del]

lemma random32_unbiased_first:
  "\<forall>d \<in> set ds. length d = 32 \<Longrightarrow> random32_unbiased ds =
    (case dropWhile rejected ds of [] \<Rightarrow> None | d # ds' \<Rightarrow> Some (sc_reduce32 d, ds'))"
  by (induction ds) (simp_all add: random32_unbiased_step)

lemma random32_unbiased_scalar:
  assumes "random32_unbiased ds = Some (s, ds')" "\<forall>d \<in> set ds. length d = 32"
  shows "length s = 32 \<and> 0 < sc_val s \<and> sc_val s < sc_order \<and> (\<forall>d \<in> set ds'. length d = 32)"
proof -
  from assms obtain d where d: "dropWhile rejected ds = d # ds'" "s = sc_reduce32 d"
    by (auto simp: random32_unbiased_first split: list.splits)
  have "set (d # ds') \<subseteq> set ds" unfolding d(1) [symmetric] by (rule set_dropWhileD [THEN subsetI])
  then have l: "length d = 32" "\<forall>x \<in> set ds'. length x = 32" using assms(2) by auto
  have "\<not> rejected d" using d(1) by (metis dropWhile_eq_Cons_conv)
  then have "sc_val d mod sc_order \<noteq> 0" by (simp add: rejected_def)
  then show ?thesis
    using sc_reduce32_correct [OF l(1)] l(2) pos_mod_bound [OF sc_order_pos, of "sc_val d"] pos_mod_sign [OF sc_order_pos, of "sc_val d"]
    by (simp add: d(2))
qed

text \<open>One draw yields a given scalar in fifteen of the cases, and none in fewer than one of sixteen.\<close>

lemma single_draw_none: "length d = 32 \<Longrightarrow> random32_unbiased [d] = None \<longleftrightarrow> rejected d"
  by (simp add: random32_unbiased_step)

lemma single_draw_some:
  assumes "length s = 32" "length d = 32"
  shows "random32_unbiased [d] = Some (s, []) \<longleftrightarrow> \<not> rejected d \<and> sc_val (sc_reduce32 d) = sc_val s"
proof -
  have "sc_reduce32 d = s \<longleftrightarrow> sc_val (sc_reduce32 d) = sc_val s"
    using inj_onD [OF sc_val_inj, of "sc_reduce32 d" s] sc_reduce32_correct [OF assms(2)] assms(1) by auto
  then show ?thesis using random32_unbiased_step [OF assms(2), of "[]"] by simp
qed

lemma card_draws_of:
  assumes "length s = 32" "0 < sc_val s" "sc_val s < sc_order"
  shows "card {d. length d = 32 \<and> random32_unbiased [d] = Some (s, [])} = 15"
proof -
  have arith: "m = v \<Longrightarrow> 0 < w \<Longrightarrow> \<not> (a \<le> x \<or> m = 0) \<and> v = w \<longleftrightarrow> x < a \<and> v = w" for a m v w x :: int by auto
  have "random32_unbiased [d] = Some (s, []) \<longleftrightarrow> less32 d random_limit \<and> sc_val (sc_reduce32 d) = sc_val s" if "length d = 32" for d
    unfolding single_draw_some [OF assms(1) that] less32_limit [OF that] rejected_def
    using sc_reduce32_correct [OF that] assms(2) by (intro arith) simp_all
  then have "{d. length d = 32 \<and> random32_unbiased [d] = Some (s, [])} =
      {d. length d = 32 \<and> less32 d random_limit \<and> sc_val (sc_reduce32 d) = sc_val s}" by blast
  then show ?thesis using random_draws_of [of "sc_val s"] assms by simp
qed

lemma card_rejected: "16 * card {d. length d = 32 \<and> rejected d} < 2 ^ 256"
proof -
  let ?R = "{d. length d = 32 \<and> rejected d}"
  let ?M = "(\<lambda>j. int j * sc_order + 0) ` {..<15}"
  have "sc_val d \<in> {15 * sc_order..<2 ^ 256} \<union> ?M" if "length d = 32" "rejected d" for d
  proof (cases "15 * sc_order \<le> sc_val d")
    case True
    have "le_val d < 2 ^ 256" using le_val_bound [of d] that(1) by simp
    then show ?thesis using True by (simp only: of_nat_less_iff [symmetric, where 'a = int]) simp
  next
    case False
    then have "sc_val d \<in> {x. 0 \<le> x \<and> x < int 15 * sc_order \<and> x mod sc_order = 0}" using that(2) by (simp add: rejected_def)
    then show ?thesis unfolding residue_class [OF sc_order_pos order_refl sc_order_pos] by blast
  qed
  then have sub: "sc_val ` ?R \<subseteq> {15 * sc_order..<2 ^ 256} \<union> ?M" by blast
  have "card ?R = card (sc_val ` ?R)" by (rule card_image [symmetric]) (use sc_val_inj in \<open>auto simp: inj_on_def\<close>)
  also have "\<dots> \<le> card ({15 * sc_order..<2 ^ 256} \<union> ?M)" by (rule card_mono [OF _ sub]) simp
  also have "\<dots> \<le> card {15 * sc_order..<2 ^ 256} + card ?M" by (rule card_Un_le)
  also have "\<dots> \<le> nat (2 ^ 256 - 15 * sc_order) + 15"
    using card_image_le [of "{..<15 :: nat}" "\<lambda>j. int j * sc_order + 0"] by simp
  finally have "card ?R \<le> nat (2 ^ 256 - 15 * sc_order) + 15" .
  then show ?thesis unfolding sc_order_def by simp
qed

text \<open>The runs of the loop on \<open>n\<close> draws that end with a given scalar.\<close>

definition runs :: "nat \<Rightarrow> bytes \<Rightarrow> bytes list set" where
  "runs n s = {ds. length ds = n \<and> (\<forall>d \<in> set ds. length d = 32) \<and> (\<exists>ds'. random32_unbiased ds = Some (s, ds'))}"

lemma runs_Suc:
  assumes "length s = 32"
  shows "runs (Suc n) s = (\<lambda>(d, ds). d # ds) `
    ({d. length d = 32 \<and> random32_unbiased [d] = Some (s, [])} \<times> {ds. set ds \<subseteq> {d. length d = 32} \<and> length ds = n} \<union>
     {d. length d = 32 \<and> rejected d} \<times> runs n s)"
proof (intro set_eqI iffI)
  fix x assume x: "x \<in> runs (Suc n) s"
  then obtain d ds where c: "x = d # ds" "length d = 32" "length ds = n" "\<forall>d \<in> set ds. length d = 32"
    by (auto simp: runs_def length_Suc_conv)
  show "x \<in> (\<lambda>(d, ds). d # ds) `
    ({d. length d = 32 \<and> random32_unbiased [d] = Some (s, [])} \<times> {ds. set ds \<subseteq> {d. length d = 32} \<and> length ds = n} \<union>
     {d. length d = 32 \<and> rejected d} \<times> runs n s)"
    using x c by (auto simp: runs_def random32_unbiased_step split: if_splits)
qed (auto simp: runs_def random32_unbiased_step split: if_splits)

lemma finite_bytes: "finite {d :: bytes. length d = n}"
  using finite_lists_length_eq [of "UNIV :: u8 set" n] by simp

lemma card_runs_Suc:
  assumes "length s = 32" "0 < sc_val s" "sc_val s < sc_order"
  shows "card (runs (Suc n) s) =
    15 * card {ds :: bytes list. set ds \<subseteq> {d. length d = 32} \<and> length ds = n} + card {d. length d = 32 \<and> rejected d} * card (runs n s)"
proof -
  let ?A = "{d. length d = 32 \<and> random32_unbiased [d] = Some (s, [])}"
  let ?L = "{ds :: bytes list. set ds \<subseteq> {d. length d = 32} \<and> length ds = n}"
  let ?R = "{d. length d = 32 \<and> rejected d}"
  have fin: "finite ?L" by (rule finite_lists_length_eq [OF finite_bytes])
  moreover have "runs n s \<subseteq> ?L" by (auto simp: runs_def)
  ultimately have "finite (runs n s)" by (rule rev_finite_subset)
  moreover have "finite ?A" "finite ?R" by (rule finite_subset [OF _ finite_bytes [of 32]], blast)+
  moreover have "?A \<times> ?L \<inter> ?R \<times> runs n s = {}" using single_draw_some [OF assms(1)] by auto
  ultimately have "card (?A \<times> ?L \<union> ?R \<times> runs n s) = card ?A * card ?L + card ?R * card (runs n s)"
    using fin by (subst card_Un_disjoint) (simp_all add: card_cartesian_product)
  moreover have "inj_on (\<lambda>(d, ds). d # ds) B" for B :: "(bytes \<times> bytes list) set" by (auto simp: inj_on_def)
  ultimately show ?thesis unfolding runs_Suc [OF assms(1)] card_draws_of [OF assms, symmetric] by (simp add: card_image)
qed

text \<open>For every number of draws, all scalars are the result of equally many runs.\<close>

lemma card_runs_eq:
  assumes "length s = 32" "0 < sc_val s" "sc_val s < sc_order" "length t = 32" "0 < sc_val t" "sc_val t < sc_order"
  shows "card (runs n s) = card (runs n t)"
proof (induction n)
  case 0
  have "runs 0 x = {}" for x by (auto simp: runs_def)
  then show ?case by simp
next
  case (Suc n)
  then show ?case using card_runs_Suc [OF assms(1-3), of n] card_runs_Suc [OF assms(4-6), of n] by simp
qed

section \<open>Signatures\<close>

text \<open>The point of the check stands for the combination of the key and the base point that the signature names.\<close>

abbreviation base_label :: "'g \<Rightarrow> 'g \<times> fq \<times> fq \<times> fq" where
  "base_label b \<equiv> (b, of_int base_x, of_int base_y, 1)"

abbreviation point_label :: "'g \<Rightarrow> ge_p3 \<Rightarrow> 'g \<times> fq \<times> fq \<times> fq" where
  "point_label a P \<equiv> (a, fe_fq (p3_X P), fe_fq (p3_Y P), fe_fq (p3_Z P))"

lemma point_label_is: "p3_ok P \<Longrightarrow> point_label a P \<in> G \<Longrightarrow> p3_is G a P"
  using comb_gen [of a _ _ _ G] by (simp add: p3_is_def)

lemma base_label_odd: "base_label b \<in> G \<Longrightarrow> odd_base G b"
  by (rule base_table_odd, rule comb_gen)

lemma verifier_point_is:
  fixes G :: "('g::comm_ring_1 \<times> fq \<times> fq \<times> fq) set"
  assumes "length pub = 32" "ge_frombytes_vartime pub = Some P" "length c = 32" "length r = 32" "sc_val c < sc_order" "sc_val r < sc_order"
    and "point_label a P \<in> G" "base_label b \<in> G"
  shows "p2_is G (of_int (sc_val c) * a + of_int (sc_val r) * b) (ge_double_scalarmult_base_vartime c P r)"
  using assms by (intro ge_double_scalarmult_base_vartime_is(1) canonical_reduced point_label_is base_label_odd ge_frombytes_ok)

lemma check_signature_iff:
  assumes "length pub = 32" "length c = 32" "length r = 32"
  shows "check_signature h pub (c, r) = Some True \<longleftrightarrow>
    (\<exists>P. ge_frombytes_vartime pub = Some P \<and> 0 < sc_val c \<and> sc_val c < sc_order \<and> sc_val r < sc_order \<and>
      (let comm = ge_tobytes (ge_double_scalarmult_base_vartime c P r)
       in comm \<noteq> infinity \<and> c = hash_to_scalar (h @ pub @ comm)))"
proof (cases "ge_frombytes_vartime pub")
  case None
  then show ?thesis by (simp add: check_signature_def check_key_def)
next
  case (Some P)
  let ?comm = "ge_tobytes (ge_double_scalarmult_base_vartime c P r)"
  let ?c = "hash_to_scalar (h @ pub @ ?comm)"
  have t: "sc_isnonzero (sc_sub ?c c) = 0 \<longleftrightarrow> c = ?c" if "sc_val c < sc_order"
    using difference_test [OF hash_to_scalar_correct(2) assms(2)]
      canonical_eq [OF hash_to_scalar_correct(2) assms(2) hash_to_scalar_correct(3) that] by auto
  have n: "0 < sc_val c \<longleftrightarrow> sc_val c \<noteq> 0" by auto
  show ?thesis
    using t by (auto simp: check_signature_def check_key_def s_comm_def Some n Let_def sc_check_0 [OF assms(2)] sc_check_0 [OF assms(3)]
        sc_isnonzero_0 [OF assms(2)] simp del: of_nat_eq_0_iff)
qed

subsection \<open>Signing\<close>

lemma signature_loop_result:
  assumes "signature_loop h pub sec draws = Some ((c, r), draws')" "\<forall>d \<in> set draws. length d = 32" "length sec = 32"
  shows "\<exists>k tmp3. length k = 32 \<and> 0 < sc_val k \<and> sc_val k < sc_order \<and> ge_scalarmult_base k = Some tmp3 \<and>
    c = hash_to_scalar (h @ pub @ ge_p3_tobytes tmp3) \<and> sc_val c \<noteq> 0 \<and>
    r = sc_mulsub c sec k \<and> sc_val r \<noteq> 0"
  using assms(1,2)
proof (induction "length draws" arbitrary: draws rule: less_induct)
  case less
  from less.prems(1) obtain k ds tmp3 where k: "random32_unbiased draws = Some (k, ds)" "ge_scalarmult_base k = Some tmp3"
    by (subst (asm) signature_loop.simps) (auto split: option.splits)
  note s = random32_unbiased_scalar [OF k(1) less.prems(2)]
  let ?c = "hash_to_scalar (h @ pub @ ge_p3_tobytes tmp3)"
  let ?r = "sc_mulsub ?c sec k"
  have lr: "length ?r = 32" using sc_mulsub_correct [OF hash_to_scalar_correct(2) assms(3)] s by blast
  have e: "signature_loop h pub sec draws = (if sc_isnonzero ?c = 0 \<or> sc_isnonzero ?r = 0 then signature_loop h pub sec ds else Some ((?c, ?r), ds))"
    using k by (subst signature_loop.simps) (simp add: s_comm_def Let_def)
  show ?case
  proof (cases "sc_isnonzero ?c \<noteq> 0 \<and> sc_isnonzero ?r \<noteq> 0")
    case True
    then have "c = ?c" "r = ?r" using less.prems(1) unfolding e by auto
    moreover have "sc_val ?c \<noteq> 0" "sc_val ?r \<noteq> 0"
      using True sc_isnonzero_0 [OF hash_to_scalar_correct(2)] sc_isnonzero_0 [OF lr] by blast+
    ultimately show ?thesis using s k(2) by blast
  next
    case False
    then have "signature_loop h pub sec ds = Some ((c, r), draws')"
      using less.prems(1) unfolding e by auto
    from less.hyps [OF random32_unbiased_shorter [OF k(1)] this] s show ?thesis by blast
  qed
qed

lemma generate_signature_result:
  assumes "generate_signature h pub sec draws = Some ((c, r), draws')" "\<forall>d \<in> set draws. length d = 32" "length sec = 32"
  shows "\<exists>k comm. length k = 32 \<and> 0 < sc_val k \<and> sc_val k < sc_order \<and> map_option ge_p3_tobytes (ge_scalarmult_base k) = Some comm \<and>
    c = hash_to_scalar (h @ pub @ comm) \<and> length c = 32 \<and> 0 < sc_val c \<and> sc_val c < sc_order \<and>
    length r = 32 \<and> 0 < sc_val r \<and> sc_val r < sc_order \<and> (sc_val r + sc_val c * sc_val sec) mod sc_order = sc_val k"
proof -
  from assms(1) have "signature_loop h pub sec draws = Some ((c, r), draws')"
    by (auto simp: generate_signature_def bind_eq_Some_conv split: if_splits)
  from signature_loop_result [OF this assms(2,3)] obtain k tmp3 where
    k: "length k = 32" "0 < sc_val k" "sc_val k < sc_order" "ge_scalarmult_base k = Some tmp3"
      "c = hash_to_scalar (h @ pub @ ge_p3_tobytes tmp3)" "sc_val c \<noteq> 0" "r = sc_mulsub c sec k" "sc_val r \<noteq> 0" by blast
  have c: "length c = 32" "sc_val c < sc_order" using hash_to_scalar_correct k(5) by auto
  have r: "sc_val r = (sc_val k - sc_val c * sc_val sec) mod sc_order" "length r = 32"
    using sc_mulsub_correct [OF c(1) assms(3) k(1)] k(7) by simp_all
  have "sc_val r < sc_order" unfolding r(1) by (rule pos_mod_bound [OF sc_order_pos])
  moreover have "(sc_val r + sc_val c * sc_val sec) mod sc_order = sc_val k"
    unfolding r(1) using k(2,3) by (simp add: mod_add_left_eq mod_pos_pos_trivial)
  moreover have "0 < sc_val c" "0 < sc_val r" using k(6,8) by linarith+
  ultimately show ?thesis using k c r by (intro exI [of _ k] exI [of _ "ge_p3_tobytes tmp3"]) simp
qed

subsection \<open>Ring signatures\<close>

lemma biased_hash_to_ec_ok:
  assumes "biased_hash_to_ec key = Some P"
  shows "p3_ok P"
proof -
  from assms obtain p where p: "ge_fromfe_frombytes_vartime (cn_fast_hash key) = Some p" "P = ge_p1p1_to_p3 (ge_mul8 p)"
    by (auto simp: biased_hash_to_ec_def bind_eq_Some_conv)
  show ?thesis unfolding p(2) using fromfe_frombytes_ok [OF length_cn_fast_hash p(1)] ge_mul8_wide ge_p1p1_to_p3_ok(1) by blast
qed

text \<open>
  A member of an accepted ring: the challenge and the response are canonical, the key is a point, and the two points of the
  member stand for the combinations that the signature names of the key with the base point, and of the hashed key with the
  key image.
\<close>

definition ring_member :: "'g::comm_ring_1 \<Rightarrow> 'g \<Rightarrow> ge_p3 \<Rightarrow> bytes \<times> (bytes \<times> bytes) \<Rightarrow> bytes \<times> bytes \<Rightarrow> bool" where
  "ring_member \<alpha> \<beta> I = (\<lambda>(pub, (c, r)) (a, b).
    sc_val c < sc_order \<and> sc_val r < sc_order \<and>
    (\<exists>P H A B. ge_frombytes_vartime pub = Some P \<and> biased_hash_to_ec pub = Some H \<and> a = ge_tobytes A \<and> b = ge_tobytes B \<and>
      A = ge_double_scalarmult_base_vartime c P r \<and> B = ge_double_scalarmult_precomp_vartime r H c (ge_dsm_precomp I) \<and>
      p2_is {point_label \<alpha> P, base_label \<beta>} (of_int (sc_val c) * \<alpha> + of_int (sc_val r) * \<beta>) A \<and>
      p2_is {point_label \<alpha> I, point_label \<beta> H} (of_int (sc_val c) * \<alpha> + of_int (sc_val r) * \<beta>) B))"

definition ring_input :: "bytes \<times> (bytes \<times> bytes) \<Rightarrow> bool" where
  "ring_input = (\<lambda>(pub, (c, r)). length pub = 32 \<and> length c = 32 \<and> length r = 32)"

lemma ring_member_iff:
  assumes "p3_ok I" "ring_input (pub, (c, r))"
  shows "ring_member \<alpha> \<beta> I (pub, (c, r)) (a, b) \<longleftrightarrow> sc_check c = 0 \<and> sc_check r = 0 \<and>
    (\<exists>P. ge_frombytes_vartime pub = Some P \<and> ring_points (ge_dsm_precomp I) pub P (c, r) = Some (a, b))"
proof -
  have l: "length pub = 32" "length c = 32" "length r = 32" using assms(2) by (simp_all add: ring_input_def)
  have A: "p2_is {point_label \<alpha> P, base_label \<beta>} (of_int (sc_val c) * \<alpha> + of_int (sc_val r) * \<beta>) (ge_double_scalarmult_base_vartime c P r)"
    if "sc_val c < sc_order" "sc_val r < sc_order" "ge_frombytes_vartime pub = Some P" for P
    by (rule verifier_point_is [OF l(1) that(3) l(2,3) that(1,2)]) simp_all
  have B: "p2_is {point_label \<alpha> I, point_label \<beta> H} (of_int (sc_val c) * \<alpha> + of_int (sc_val r) * \<beta>)
      (ge_double_scalarmult_precomp_vartime r H c (ge_dsm_precomp I))"
    if "sc_val c < sc_order" "sc_val r < sc_order" "biased_hash_to_ec pub = Some H" for H
    unfolding add.commute [of "of_int (sc_val c) * \<alpha>"] using l that assms(1) biased_hash_to_ec_ok [OF that(3)]
    by (intro ge_double_scalarmult_precomp_vartime_is canonical_reduced point_label_is ge_dsm_precomp_odd) simp_all
  show ?thesis
    unfolding ring_member_def prod.case sc_check_0 [OF l(2)] sc_check_0 [OF l(3)] using A B
    by (auto simp: ring_points_def bind_eq_Some_conv Let_def)
qed

abbreviation challenge :: "bytes \<times> (bytes \<times> bytes) \<Rightarrow> int" where
  "challenge m \<equiv> sc_val (fst (snd m))"

text \<open>The loop succeeds exactly with the points of all members, and adds the challenges up modulo the order.\<close>

fun ring_sum :: "bytes \<Rightarrow> (bytes \<times> (bytes \<times> bytes)) list \<Rightarrow> bytes" where
  "ring_sum s [] = s"
| "ring_sum s (m # ms) = ring_sum (sc_add s (fst (snd m))) ms"

lemma ring_sum_correct:
  "list_all ring_input ms \<Longrightarrow> length s = 32 \<Longrightarrow>
    length (ring_sum s ms) = 32 \<and> sc_val (ring_sum s ms) mod sc_order = (sc_val s + sum_list (map challenge ms)) mod sc_order"
proof (induction ms arbitrary: s)
  case (Cons m ms)
  have "length (fst (snd m)) = 32" using Cons.prems(1) by (auto simp: ring_input_def split: prod.splits)
  from sc_add_correct [OF Cons.prems(2) this] Cons.IH [of "sc_add s (fst (snd m))"] Cons.prems(1)
  show ?case by (simp add: mod_add_left_eq add.assoc)
qed simp

lemma ring_check_loop_iff:
  assumes "p3_ok I" "list_all ring_input (zip pubs sigs)"
  shows "ring_check_loop (ge_dsm_precomp I) pubs sigs (s, buf) = Some (Some (s', buf')) \<longleftrightarrow>
    length pubs \<le> length sigs \<and> s' = ring_sum s (zip pubs sigs) \<and>
    (\<exists>abs. list_all2 (ring_member \<alpha> \<beta> I) (zip pubs sigs) abs \<and> buf' = buf @ concat (map (\<lambda>(a, b). a @ b) abs))"
  using assms(2)
proof (induction pubs arbitrary: sigs s buf)
  case Nil
  then show ?case by auto
next
  case (Cons pub pubs)
  show ?case
  proof (cases sigs)
    case sigs: (Cons sig rest)
    obtain c r where m: "sig = (c, r)" by (metis surj_pair)
    have i: "ring_input (pub, (c, r))" "list_all ring_input (zip pubs rest)" using Cons.prems by (simp_all add: sigs m)
    have "ring_check_loop (ge_dsm_precomp I) (pub # pubs) sigs (s, buf) = Some (Some (s', buf')) \<longleftrightarrow>
      (\<exists>a b. ring_member \<alpha> \<beta> I (pub, sig) (a, b) \<and> ring_check_loop (ge_dsm_precomp I) pubs rest (sc_add s c, buf @ a @ b) = Some (Some (s', buf')))"
      unfolding m sigs ring_member_iff [OF assms(1) i(1)] by (auto simp: bind_eq_Some_conv split: option.splits)
    also have "\<dots> \<longleftrightarrow> length (pub # pubs) \<le> length sigs \<and> s' = ring_sum s (zip (pub # pubs) sigs) \<and>
        (\<exists>a b abs. ring_member \<alpha> \<beta> I (pub, sig) (a, b) \<and> list_all2 (ring_member \<alpha> \<beta> I) (zip pubs rest) abs \<and>
          buf' = (buf @ a @ b) @ concat (map (\<lambda>(a, b). a @ b) abs))"
      unfolding Cons.IH [OF i(2)] by (auto simp: m sigs)
    also have "\<dots> \<longleftrightarrow> length (pub # pubs) \<le> length sigs \<and> s' = ring_sum s (zip (pub # pubs) sigs) \<and>
        (\<exists>abs. list_all2 (ring_member \<alpha> \<beta> I) (zip (pub # pubs) sigs) abs \<and> buf' = buf @ concat (map (\<lambda>(a, b). a @ b) abs))"
      unfolding sigs zip_Cons_Cons list_all2_Cons1 by (force simp: split_paired_Ex)
    finally show ?thesis .
  qed simp
qed

lemma sc_l_reduced: "reduced sc_l" "sc_val sc_l = sc_order"
  by (simp_all add: sc_l_def sc_order_def)

text \<open>An accepted key image is not the neutral point, and the group order times it is the neutral point.\<close>

definition image_ok :: "'g::comm_ring_1 \<Rightarrow> bytes \<Rightarrow> ge_p3 \<Rightarrow> bool" where
  "image_ok \<alpha> img I \<longleftrightarrow> img \<noteq> infinity \<and> ge_frombytes_vartime img = Some I \<and>
    (\<exists>Q. ge_scalarmult_p3 sc_l I = Some Q \<and> p3_is {point_label \<alpha> I} (of_int sc_order * \<alpha>) Q \<and>
      fe_fq (p3_X Q) = 0 \<and> fe_fq (p3_T Q) = 0 \<and> fe_fq (p3_Y Q) = fe_fq (p3_Z Q) \<and> fe_fq (p3_Y Q) \<noteq> 0)"

lemma image_ok_iff:
  assumes "length img = 32"
  shows "image_ok \<alpha> img I \<longleftrightarrow> img \<noteq> infinity \<and> ge_frombytes_vartime img = Some I \<and>
    (\<exists>Q. ge_scalarmult_p3 sc_l I = Some Q \<and> ge_p3_is_point_at_infinity_vartime Q)"
proof -
  have "p3_is {point_label \<alpha> I} (of_int sc_order * \<alpha>) Q \<and> p3_ok Q"
    if "ge_frombytes_vartime img = Some I" "ge_scalarmult_p3 sc_l I = Some Q" for Q
  proof -
    have "p3_is {point_label \<alpha> I} \<alpha> I" by (rule point_label_is [OF ge_frombytes_ok [OF assms that(1)]]) simp
    from ge_scalarmult_p3_is [OF this, of sc_l, unfolded sc_l_reduced(2)] sc_l_reduced(1) that(2) show ?thesis
      by (auto simp: p3_is_def)
  qed
  then show ?thesis unfolding image_ok_def using infinity_correct by blast
qed

lemma ring_test:
  assumes "list_all ring_input ms"
  shows "sc_isnonzero (sc_sub (hash_to_scalar m) (ring_sum sc_0 ms)) = 0 \<longleftrightarrow> sum_list (map challenge ms) mod sc_order = sc_val (hash_to_scalar m)"
proof -
  have z: "length sc_0 = 32" "sc_val sc_0 = 0" by (simp_all add: sc_0_def le_val_zeros)
  note s = ring_sum_correct [OF assms z(1), unfolded z(2)]
  show ?thesis
    using difference_test [OF hash_to_scalar_correct(2), of "ring_sum sc_0 ms" m] s hash_to_scalar_correct(3) [of m]
    by (auto simp: mod_pos_pos_trivial)
qed

lemma check_ring_signature_iff:
  assumes "length img = 32" "list_all ring_input (zip pubs sig)"
  shows "check_ring_signature malloc h img pubs sig = Some True \<longleftrightarrow>
    malloc (rs_comm_size (of_nat (length pubs))) \<and> length pubs \<le> length sig \<and> list_all check_key pubs \<and>
    (\<exists>I abs. image_ok \<alpha> img I \<and> list_all2 (ring_member \<alpha> \<beta> I) (zip pubs sig) abs \<and>
      sum_list (map challenge (zip pubs sig)) mod sc_order = sc_val (hash_to_scalar (h @ concat (map (\<lambda>(a, b). a @ b) abs))))"
proof -
  have "check_ring_signature malloc h img pubs sig = Some True \<longleftrightarrow>
    malloc (rs_comm_size (of_nat (length pubs))) \<and> list_all check_key pubs \<and> (\<exists>I. image_ok \<alpha> img I \<and>
    (\<exists>s buf. ring_check_loop (ge_dsm_precomp I) pubs sig (sc_0, []) = Some (Some (s, buf)) \<and>
      sc_isnonzero (sc_sub (hash_to_scalar (h @ buf)) s) = 0))"
    unfolding image_ok_iff [OF assms(1)]
    by (auto simp: check_ring_signature_def Let_def bind_eq_Some_conv split: option.splits)
  also have "\<dots> \<longleftrightarrow> malloc (rs_comm_size (of_nat (length pubs))) \<and> list_all check_key pubs \<and> (\<exists>I. image_ok \<alpha> img I \<and>
    length pubs \<le> length sig \<and> (\<exists>abs. list_all2 (ring_member \<alpha> \<beta> I) (zip pubs sig) abs \<and>
      sum_list (map challenge (zip pubs sig)) mod sc_order = sc_val (hash_to_scalar (h @ concat (map (\<lambda>(a, b). a @ b) abs)))))"
  proof (intro conj_cong refl ex_cong1)
    fix I assume "image_ok \<alpha> img I"
    then have "p3_ok I" using ge_frombytes_ok [OF assms(1)] by (simp add: image_ok_def)
    from ring_check_loop_iff [OF this assms(2), where \<alpha> = \<alpha> and \<beta> = \<beta>]
    show "(\<exists>s buf. ring_check_loop (ge_dsm_precomp I) pubs sig (sc_0, []) = Some (Some (s, buf)) \<and>
      sc_isnonzero (sc_sub (hash_to_scalar (h @ buf)) s) = 0) \<longleftrightarrow>
      length pubs \<le> length sig \<and> (\<exists>abs. list_all2 (ring_member \<alpha> \<beta> I) (zip pubs sig) abs \<and>
      sum_list (map challenge (zip pubs sig)) mod sc_order = sc_val (hash_to_scalar (h @ concat (map (\<lambda>(a, b). a @ b) abs))))"
      by (auto simp: ring_test [OF assms(2)])
  qed
  finally show ?thesis by blast
qed

subsection \<open>Signing and checking\<close>

text \<open>A generated signature has a canonical nonzero challenge and response; the challenge is the hash of the message, the key
  and the encoding of the multiple of the base point by a canonical nonzero nonce \<open>k\<close>, and \<open>r + c x = k\<close> modulo the order
  for the secret key \<open>x\<close>.  So the point that the check computes for it has label \<open>k\<close>, modulo the order, when the key has
  label \<open>x\<close> and the base point 1, and the check accepts it if that point has the encoding that the signer hashed and is not
  the neutral one.\<close>

lemma generate_signature_correct:
  assumes "generate_signature h pub sec draws = Some ((c, r), draws')" "\<forall>d \<in> set draws. length d = 32" "length sec = 32"
    and "length pub = 32" "ge_frombytes_vartime pub = Some P"
  shows "\<exists>k comm l. 0 < sc_val k \<and> sc_val k < sc_order \<and> map_option ge_p3_tobytes (ge_scalarmult_base k) = Some comm \<and>
    c = hash_to_scalar (h @ pub @ comm) \<and> 0 < sc_val c \<and> sc_val c < sc_order \<and> 0 < sc_val r \<and> sc_val r < sc_order \<and>
    p2_is {point_label (sc_val sec) P, base_label 1} l (ge_double_scalarmult_base_vartime c P r) \<and> l mod sc_order = sc_val k \<and>
    (ge_tobytes (ge_double_scalarmult_base_vartime c P r) = comm \<and> comm \<noteq> infinity \<longrightarrow> check_signature h pub (c, r) = Some True)"
proof -
  from generate_signature_result [OF assms(1-3)] obtain k comm where
    k: "0 < sc_val k" "sc_val k < sc_order" "map_option ge_p3_tobytes (ge_scalarmult_base k) = Some comm"
      "c = hash_to_scalar (h @ pub @ comm)" "length c = 32" "0 < sc_val c" "sc_val c < sc_order"
      "length r = 32" "0 < sc_val r" "sc_val r < sc_order" "(sc_val r + sc_val c * sc_val sec) mod sc_order = sc_val k" by blast
  have "p2_is {point_label (sc_val sec) P, base_label 1} (of_int (sc_val c) * sc_val sec + of_int (sc_val r) * 1)
      (ge_double_scalarmult_base_vartime c P r)"
    by (rule verifier_point_is [OF assms(4,5) k(5,8,7,10)]) simp_all
  moreover have "(of_int (sc_val c) * sc_val sec + of_int (sc_val r) * 1) mod sc_order = sc_val k"
    using k(11) by (simp add: add.commute)
  moreover have "ge_tobytes (ge_double_scalarmult_base_vartime c P r) = comm \<and> comm \<noteq> infinity \<longrightarrow> check_signature h pub (c, r) = Some True"
    unfolding check_signature_iff [OF assms(4) k(5,8)] using assms(5) k by (auto simp: Let_def)
  ultimately show ?thesis using k by blast
qed

section \<open>Properties\<close>

text \<open>C1: A signature check accepts exactly the canonical pairs with a nonzero challenge that is the hash of the message, the
  key and the encoding of a point other than the neutral one; that point lies on the curve and stands for \<open>c P + r B\<close>, with
  \<open>P\<close> the decoded key and \<open>B\<close> the base point: its label is \<open>c \<alpha> + r \<beta>\<close> whatever labels \<open>P\<close> and \<open>B\<close> are given.\<close>

theorem check_signature_spec:
  fixes \<alpha> \<beta> :: "'g::comm_ring_1"
  assumes "length pub = 32" "length c = 32" "length r = 32"
  shows "check_signature h pub (c, r) = Some True \<longleftrightarrow>
    (\<exists>P. ge_frombytes_vartime pub = Some P \<and> 0 < sc_val c \<and> sc_val c < sc_order \<and> sc_val r < sc_order \<and>
      (let V = ge_double_scalarmult_base_vartime c P r
       in p2_is {point_label \<alpha> P, base_label \<beta>} (of_int (sc_val c) * \<alpha> + of_int (sc_val r) * \<beta>) V \<and>
          ge_tobytes V \<noteq> infinity \<and> c = hash_to_scalar (h @ pub @ ge_tobytes V)))"
proof -
  have "p2_is {point_label \<alpha> P, base_label \<beta>} (of_int (sc_val c) * \<alpha> + of_int (sc_val r) * \<beta>) (ge_double_scalarmult_base_vartime c P r)"
    if "ge_frombytes_vartime pub = Some P" "sc_val c < sc_order" "sc_val r < sc_order" for P
    by (rule verifier_point_is [OF assms(1) that(1) assms(2,3) that(2,3)]) simp_all
  then show ?thesis unfolding check_signature_iff [OF assms] Let_def by blast
qed

theorem check_signature_spec_witness:
  "check_signature [] (1 # replicate 31 0) (replicate 32 0, 7 # replicate 31 0) \<noteq> Some True \<and>
    check_signature [] (1 # replicate 31 0) (replicate 32 255, 7 # replicate 31 0) \<noteq> Some True"
proof -
  have l: "length (1 # replicate 31 0 :: bytes) = 32" "length (replicate 32 (x :: u8)) = 32" "length (7 # replicate 31 0 :: bytes) = 32" for x
    by simp_all
  have "sc_val (replicate 32 0) = 0" "\<not> sc_val (replicate 32 255) < sc_order"
    unfolding le_val_zeros le_val_ones sc_order_def by simp_all
  then show ?thesis
    using check_signature_spec [OF l(1) l(2) [of 0] l(3), of "[]" "0 :: int" 1] check_signature_spec [OF l(1) l(2) [of 255] l(3), of "[]" "0 :: int" 1]
    by auto
qed

text \<open>C6: A ring signature is accepted exactly when the buffer can be allocated, there is a signature for every key, all keys
  are points, its scalars are canonical, its key image is a point other than the neutral one that the group order maps to the
  neutral point, and the sum of the challenges is, modulo the order, the hash of the message and of the encodings of the points
  \<open>c P + r B\<close> and \<open>c I + r H\<close> of the members, with \<open>P\<close> the key of a member, \<open>H\<close> the point its key hashes to, \<open>I\<close> the key
  image and \<open>B\<close> the base point.\<close>

theorem check_ring_signature_spec:
  fixes \<alpha> \<beta> :: "'g::comm_ring_1"
  assumes "length img = 32" "list_all ring_input (zip pubs sig)"
  shows "check_ring_signature malloc h img pubs sig = Some True \<longleftrightarrow>
    malloc (rs_comm_size (of_nat (length pubs))) \<and> length pubs \<le> length sig \<and> list_all check_key pubs \<and>
    (\<exists>I abs. image_ok \<alpha> img I \<and> list_all2 (ring_member \<alpha> \<beta> I) (zip pubs sig) abs \<and>
      sum_list (map challenge (zip pubs sig)) mod sc_order = sc_val (hash_to_scalar (h @ concat (map (\<lambda>(a, b). a @ b) abs))))"
  by (rule check_ring_signature_iff [OF assms])

theorem check_ring_signature_spec_witness:
  "check_ring_signature (\<lambda>_. True) [] infinity [infinity] [(sc_0, sc_1)] \<noteq> Some True"
proof -
  have "length infinity = 32" "list_all ring_input (zip [infinity] [(sc_0, sc_1)])"
    by (simp_all add: infinity_def ring_input_def sc_0_def sc_1_def)
  from check_ring_signature_spec [OF this, of "\<lambda>_. True" "[]" "0 :: int" 1] show ?thesis by (simp add: image_ok_def)
qed

text \<open>C15: Random scalars are unbiased.  The loop returns the remainder, modulo the group order, of the first draw that is below
  fifteen times the order and no multiple of the order, leaving the draws after it, and needs more draws as long as there is no
  such draw; fewer than one of sixteen possible draws is passed over.  Of the possible draws exactly fifteen yield a given
  scalar \<open>s\<close>, and among the sequences of \<open>n\<close> draws as many end with \<open>s\<close> as with any other scalar \<open>t\<close>.\<close>

theorem random32_unbiased_spec:
  assumes "\<forall>d \<in> set ds. length d = 32"
    and "length s = 32" "0 < sc_val s" "sc_val s < sc_order" "length t = 32" "0 < sc_val t" "sc_val t < sc_order"
  shows "(case dropWhile (\<lambda>d. 15 * sc_order \<le> sc_val d \<or> sc_order dvd sc_val d) ds of
      [] \<Rightarrow> random32_unbiased ds = None
    | d # ds' \<Rightarrow> \<exists>r. random32_unbiased ds = Some (r, ds') \<and> length r = 32 \<and> sc_val r = sc_val d mod sc_order) \<and>
    16 * card {d. length d = 32 \<and> random32_unbiased [d] = None} < 2 ^ 256 \<and>
    card {d. length d = 32 \<and> random32_unbiased [d] = Some (s, [])} = 15 \<and>
    card {ds. length ds = n \<and> (\<forall>d \<in> set ds. length d = 32) \<and> (\<exists>ds'. random32_unbiased ds = Some (s, ds'))} =
    card {ds. length ds = n \<and> (\<forall>d \<in> set ds. length d = 32) \<and> (\<exists>ds'. random32_unbiased ds = Some (t, ds'))}"
proof (intro conjI)
  have r: "(\<lambda>d. 15 * sc_order \<le> sc_val d \<or> sc_order dvd sc_val d) = rejected" by (auto simp: rejected_def dvd_eq_mod_eq_0)
  show "case dropWhile (\<lambda>d. 15 * sc_order \<le> sc_val d \<or> sc_order dvd sc_val d) ds of
      [] \<Rightarrow> random32_unbiased ds = None
    | d # ds' \<Rightarrow> \<exists>r. random32_unbiased ds = Some (r, ds') \<and> length r = 32 \<and> sc_val r = sc_val d mod sc_order"
  proof (cases "dropWhile rejected ds")
    case Nil
    then show ?thesis unfolding r using random32_unbiased_first [OF assms(1)] by (simp only: list.case)
  next
    case (Cons d ds')
    then have "d \<in> set ds" using set_dropWhileD [of d rejected ds] by simp
    then show ?thesis unfolding r using Cons assms(1) sc_reduce32_correct [of d] by (simp add: random32_unbiased_first)
  qed
  show "16 * card {d. length d = 32 \<and> random32_unbiased [d] = None} < 2 ^ 256"
    using card_rejected by (simp add: single_draw_none cong: conj_cong)
  show "card {d. length d = 32 \<and> random32_unbiased [d] = Some (s, [])} = 15" by (rule card_draws_of [OF assms(2-4)])
  show "card {ds. length ds = n \<and> (\<forall>d \<in> set ds. length d = 32) \<and> (\<exists>ds'. random32_unbiased ds = Some (s, ds'))} =
    card {ds. length ds = n \<and> (\<forall>d \<in> set ds. length d = 32) \<and> (\<exists>ds'. random32_unbiased ds = Some (t, ds'))}"
    using card_runs_eq [OF assms(2-)] by (simp only: runs_def)
qed

text \<open>At the scalars 1 and 2: a draw of all ones is passed over, the draw 2 after it is taken.\<close>

theorem random32_unbiased_spec_witness:
  "(\<exists>r. random32_unbiased [replicate 32 255, 2 # replicate 31 0, sc_0] = Some (r, [sc_0]) \<and> length r = 32 \<and> sc_val r = 2) \<and>
   card {d. length d = 32 \<and> random32_unbiased [d] = Some (1 # replicate 31 0, [])} = 15 \<and>
   card {ds. length ds = 3 \<and> (\<forall>d \<in> set ds. length d = 32) \<and> (\<exists>ds'. random32_unbiased ds = Some (1 # replicate 31 0, ds'))} =
   card {ds. length ds = 3 \<and> (\<forall>d \<in> set ds. length d = 32) \<and> (\<exists>ds'. random32_unbiased ds = Some (2 # replicate 31 0, ds'))}"
proof -
  have l: "\<forall>d \<in> set [replicate 32 255, 2 # replicate 31 0, sc_0]. length d = 32" by (simp add: sc_0_def)
  have s: "length (1 # replicate 31 0 :: bytes) = 32" "0 < sc_val (1 # replicate 31 0)" "sc_val (1 # replicate 31 0) < sc_order"
    "length (2 # replicate 31 0 :: bytes) = 32" "0 < sc_val (2 # replicate 31 0)" "sc_val (2 # replicate 31 0) < sc_order"
    by (simp_all add: le_val_zeros sc_order_def)
  have d: "15 * sc_order \<le> sc_val (replicate 32 255)" "\<not> 15 * sc_order \<le> sc_val (2 # replicate 31 0)"
    "\<not> sc_order dvd sc_val (2 # replicate 31 0)" "sc_val (2 # replicate 31 0) mod sc_order = 2"
    by (simp_all add: le_val_zeros le_val_ones sc_order_def zdvd_not_zless)
  note spec = random32_unbiased_spec [OF l s]
  have "\<exists>r. random32_unbiased [replicate 32 255, 2 # replicate 31 0, sc_0] = Some (r, [sc_0]) \<and> length r = 32 \<and> sc_val r = 2"
    using conjunct1 [OF spec] d by (simp only: dropWhile.simps list.case if_True if_False simp_thms)
  moreover note spec [THEN conjunct2, THEN conjunct2, THEN conjunct1] spec [THEN conjunct2, THEN conjunct2, THEN conjunct2, of 3]
  ultimately show ?thesis by blast
qed

end
