(* ===== verification/TreeHash.thy ===== *)
theory TreeHash
  imports Keccak "HOL-Library.While_Combinator"
begin

unbundle bit_operations_syntax

text \<open>
  The tree hash of transaction hashes, \<open>src/crypto/tree-hash.c\<close>: the root of the tree, the branch that proves that a
  hash is a leaf, and the check of a branch.  The array of hashes is a list of byte strings whose length is \<open>count\<close>; the
  buffer \<open>ints\<close> is updated in place as in the code.  A failed assertion and the answer \<open>false\<close> are the two errors.
\<close>

subsection \<open>The root\<close>

definition tree_hash_cnt :: "nat \<Rightarrow> nat option" where
  "tree_hash_cnt count =
    (if count \<ge> 3 \<and> count \<le> 0x10000000
     then Some (while (\<lambda>pow. pow < count) (\<lambda>pow. 2 * pow) 2 div 2)
     else None)"

text \<open>The first loop hashes the last leaves in pairs, from leaf \<open>i\<close> into entry \<open>j\<close> on; the other leaves are copied.\<close>

definition tree_copy :: "bytes list \<Rightarrow> nat \<Rightarrow> bytes list" where
  "tree_copy hashes cnt =
    take (2 * cnt - length hashes) hashes @ replicate (cnt - (2 * cnt - length hashes)) (replicate 32 0)"

definition tree_first :: "bytes list \<Rightarrow> nat \<Rightarrow> nat \<times> bytes list" where
  "tree_first hashes cnt =
    fold (\<lambda>j (i, ints). (i + 2, ints[j := cn_fast_hash (hashes ! i @ hashes ! (i + 1))]))
      [2 * cnt - length hashes..<cnt] (2 * cnt - length hashes, tree_copy hashes cnt)"

definition tree_level :: "nat \<Rightarrow> bytes list \<Rightarrow> bytes list" where
  "tree_level cnt ints =
    snd (fold (\<lambda>j (i, ints). (i + 2, ints[j := cn_fast_hash (ints ! i @ ints ! (i + 1))])) [0..<cnt] (0 :: nat, ints))"

fun tree_levels :: "nat \<Rightarrow> bytes list \<Rightarrow> bytes list" where
  "tree_levels cnt ints = (if cnt > 2 then tree_levels (cnt div 2) (tree_level (cnt div 2) ints) else ints)"

declare tree_levels.simps [simp del]

definition tree_hash :: "bytes list \<Rightarrow> bytes option" where
  "tree_hash hashes =
    (let count = length hashes
     in if count = 0 then None
        else if count = 1 then Some (hashes ! 0)
        else if count = 2 then Some (cn_fast_hash (hashes ! 0 @ hashes ! 1))
        else do {
          cnt \<leftarrow> tree_hash_cnt count;
          let (i, ints) = tree_first hashes cnt;
          if i = count then do {
            let ints = tree_levels cnt ints;
            Some (cn_fast_hash (ints ! 0 @ ints ! 1)) }
          else None })"

subsection \<open>The path of a leaf\<close>

text \<open>One visit of a pair: the index moves to the parent when the pair holds it.\<close>

definition path_visit :: "nat \<Rightarrow> nat \<Rightarrow> nat \<times> u32 \<Rightarrow> nat \<times> u32" where
  "path_visit i j = (\<lambda>(idx, path).
    if idx = i \<or> idx = i + 1 then (j, push_bit 1 path OR (if idx = i then 0 else 1)) else (idx, path))"

definition path_level :: "nat \<Rightarrow> nat \<times> u32 \<Rightarrow> nat \<times> u32" where
  "path_level cnt ip = snd (fold (\<lambda>j (i, ip). (i + 2, path_visit i j ip)) [0..<cnt] (0 :: nat, ip))"

fun path_levels :: "nat \<Rightarrow> nat \<times> u32 \<Rightarrow> nat \<times> u32" where
  "path_levels cnt ip = (if cnt > 2 then path_levels (cnt div 2) (path_level (cnt div 2) ip) else ip)"

declare path_levels.simps [simp del]

datatype tree_error = Tree_false | Tree_assertion

definition tree_path :: "nat \<Rightarrow> nat \<Rightarrow> tree_error + u32" where
  "tree_path count idx =
    (if count = 0 then Inl Tree_false
     else if count = 1 then Inr 0
     else if count = 2 then Inr (if idx = 0 then 0 else 1)
     else case tree_hash_cnt count of
       None \<Rightarrow> Inl Tree_assertion
     | Some cnt \<Rightarrow>
         let (i, ip) = fold (\<lambda>j (i, ip). (i + 2, path_visit i j ip)) [2 * cnt - count..<cnt] (2 * cnt - count, (idx, 0))
         in if i = count
            then let (idx, path) = path_levels cnt ip
                 in Inr (if idx = 0 \<or> idx = 1 then push_bit 1 path OR (if idx = 0 then 0 else 1) else path)
            else Inl Tree_assertion)"

subsection \<open>The branch of a leaf\<close>

text \<open>The search for the hash; the index of the first occurrence, or \<open>count\<close>.\<close>

definition tree_index :: "bytes list \<Rightarrow> bytes \<Rightarrow> nat" where
  "tree_index hashes hash = length (takeWhile (\<lambda>x. x \<noteq> hash) hashes)"

text \<open>A visit also records the sibling; \<open>branch\<close> grows by one entry, and \<open>depth\<close> is its length.\<close>

type_synonym branch_state = "nat \<times> bytes list \<times> u32"

definition branch_visit :: "bytes list \<Rightarrow> nat \<Rightarrow> nat \<Rightarrow> branch_state \<Rightarrow> branch_state" where
  "branch_visit xs i j = (\<lambda>(idx, branch, path).
    if idx = i \<or> idx = i + 1
    then (j, branch @ [xs ! (if idx = i then i + 1 else i)], push_bit 1 path OR (if idx = i then 0 else 1))
    else (idx, branch, path))"

definition branch_first :: "bytes list \<Rightarrow> nat \<Rightarrow> branch_state \<Rightarrow> nat \<times> branch_state \<times> bytes list" where
  "branch_first hashes cnt st =
    fold (\<lambda>j (i, st, ints). (i + 2, branch_visit hashes i j st, ints[j := cn_fast_hash (hashes ! i @ hashes ! (i + 1))]))
      [2 * cnt - length hashes..<cnt] (2 * cnt - length hashes, st, tree_copy hashes cnt)"

definition branch_level :: "nat \<Rightarrow> branch_state \<times> bytes list \<Rightarrow> branch_state \<times> bytes list" where
  "branch_level cnt si =
    snd (fold (\<lambda>j (i, st, ints). (i + 2, branch_visit ints i j st, ints[j := cn_fast_hash (ints ! i @ ints ! (i + 1))]))
      [0..<cnt] (0 :: nat, si))"

fun branch_levels :: "nat \<Rightarrow> branch_state \<times> bytes list \<Rightarrow> branch_state \<times> bytes list" where
  "branch_levels cnt si = (if cnt > 2 then branch_levels (cnt div 2) (branch_level (cnt div 2) si) else si)"

declare branch_levels.simps [simp del]

definition tree_branch :: "bytes list \<Rightarrow> bytes \<Rightarrow> tree_error + bytes list \<times> u32" where
  "tree_branch hashes hash =
    (let count = length hashes; idx = tree_index hashes hash
     in if count = 0 then Inl Tree_false
        else if idx = count then Inl Tree_false
        else if count = 1 then Inr ([], 0)
        else if count = 2 then Inr ([hashes ! (idx XOR 1)], if idx = 0 then 0 else 1)
        else case tree_hash_cnt count of
          None \<Rightarrow> Inl Tree_assertion
        | Some cnt \<Rightarrow>
            let (i, st, ints) = branch_first hashes cnt (idx, [], 0)
            in if i = count
               then let ((idx, branch, path), ints) = branch_levels cnt (st, ints)
                    in Inr (if idx = 0 \<or> idx = 1
                            then (branch @ [ints ! (if idx = 0 then 1 else 0)], push_bit 1 path OR (if idx = 0 then 0 else 1))
                            else (branch, path))
               else Inl Tree_assertion)"

subsection \<open>Checking a branch\<close>

definition branch_buffer :: "bytes list \<Rightarrow> u32 \<Rightarrow> nat \<Rightarrow> bytes \<Rightarrow> bytes" where
  "branch_buffer branch path d partial =
    (if drop_bit (length branch - d - 1) path AND 1 \<noteq> 0 then branch ! d @ partial else partial @ branch ! d)"

definition tree_branch_hash :: "bytes \<Rightarrow> bytes list \<Rightarrow> u32 \<Rightarrow> bytes" where
  "tree_branch_hash hash branch path =
    fold (\<lambda>d partial. cn_fast_hash (branch_buffer branch path d partial)) [0..<length branch] hash"

definition is_branch_in_tree :: "bytes \<Rightarrow> bytes \<Rightarrow> bytes list \<Rightarrow> u32 \<Rightarrow> bool" where
  "is_branch_in_tree hash root branch path \<longleftrightarrow> tree_branch_hash hash branch path = root"

subsection \<open>The number of leaves below the top\<close>

lemma tree_hash_cnt_power:
  assumes "3 \<le> count" "count \<le> 0x10000000"
  obtains m where "tree_hash_cnt count = Some (2 ^ m)" "1 \<le> m" "m \<le> 27" "2 ^ m < count" "count \<le> 2 ^ Suc m"
proof -
  define I where "I pow \<longleftrightarrow> (\<exists>k. pow = (2 :: nat) ^ Suc k \<and> 2 ^ k < count)" for pow
  have "I (while (\<lambda>pow. pow < count) (\<lambda>pow. 2 * pow) 2) \<and> \<not> while (\<lambda>pow. pow < count) (\<lambda>pow. 2 * pow) 2 < count"
  proof (rule while_rule [where P = I and r = "measure (\<lambda>pow. count - pow)"])
    show "I 2" using assms by (auto simp: I_def intro: exI [of _ 0])
    show "I (2 * pow)" if "I pow" "pow < count" for pow
    proof -
      from that obtain k where "pow = 2 ^ Suc k" by (auto simp: I_def)
      then show ?thesis using that(2) by (auto simp: I_def intro!: exI [of _ "Suc k"])
    qed
    show "(2 * pow, pow) \<in> measure (\<lambda>pow. count - pow)" if "I pow" "pow < count" for pow
    proof -
      have "0 < pow" using that(1) by (auto simp: I_def)
      then show ?thesis using that(2) by simp
    qed
  qed auto
  then obtain k where k: "while (\<lambda>pow. pow < count) (\<lambda>pow. 2 * pow) 2 = 2 ^ Suc k" "2 ^ k < count" "count \<le> 2 ^ Suc k"
    by (auto simp: I_def not_less)
  have "1 \<le> k" using assms(1) k(3) by (cases k) simp_all
  moreover have "(2 :: nat) ^ k < 2 ^ 28" using k(2) assms(2) by simp
  then have "k < 28" by (simp only: power_strict_increasing_iff)
  then have "k \<le> 27" by simp
  ultimately show ?thesis using that [of k] k assms by (simp add: tree_hash_cnt_def)
qed

lemma tree_hash_cnt_None: "tree_hash_cnt count = None \<longleftrightarrow> count < 3 \<or> 0x10000000 < count"
  by (auto simp: tree_hash_cnt_def)

subsection \<open>Levels of the tree\<close>

fun pairs :: "bytes list \<Rightarrow> bytes list" where
  "pairs (x # y # zs) = cn_fast_hash (x @ y) # pairs zs"
| "pairs [] = []"
| "pairs [x] = []"

lemma length_pairs: "length (pairs xs) = length xs div 2"
  by (induction xs rule: pairs.induct) simp_all

lemma nth_pairs: "k < length xs div 2 \<Longrightarrow> pairs xs ! k = cn_fast_hash (xs ! (2 * k) @ xs ! (2 * k + 1))"
proof (induction xs arbitrary: k rule: pairs.induct)
  case (1 x y zs)
  then show ?case by (cases k) simp_all
qed simp_all

lemma pairs_take: "pairs (take (2 * n) xs) = take n (pairs xs)"
proof (induction xs arbitrary: n rule: pairs.induct)
  case (1 x y zs)
  then show ?case by (cases n) simp_all
next
  case (3 v)
  then show ?case by (cases n) simp_all
qed simp_all

lemma pairs_drop: "pairs (drop (2 * n) xs) = drop n (pairs xs)"
proof (induction xs arbitrary: n rule: pairs.induct)
  case (1 x y zs)
  then show ?case by (cases n) simp_all
next
  case (3 v)
  then show ?case by (cases n) simp_all
qed simp_all

text \<open>The first loop and the level loop, after the entries below \<open>k\<close>.\<close>

lemma tree_first_spec:
  assumes "cnt \<le> length hashes" "length hashes \<le> 2 * cnt"
  defines "s \<equiv> 2 * cnt - length hashes"
  shows "tree_first hashes cnt = (length hashes, take s hashes @ pairs (drop s hashes))"
proof -
  define f where "f = (\<lambda>j (i, ints). (i + 2, ints[j := cn_fast_hash (hashes ! i @ hashes ! (i + 1))]))"
  have s: "s \<le> cnt" using assms by (simp add: s_def)
  have "\<exists>ints. fold f [s..<k] (s, tree_copy hashes cnt) = (2 * k - s, ints) \<and> length ints = cnt \<and>
      (\<forall>j < k. ints ! j = (if j < s then hashes ! j else cn_fast_hash (hashes ! (2 * j - s) @ hashes ! (2 * j - s + 1))))"
    if "s \<le> k" "k \<le> cnt" for k
    using that
  proof (induction k rule: dec_induct)
    case base
    have "length (tree_copy hashes cnt) = cnt" "\<forall>j < s. tree_copy hashes cnt ! j = hashes ! j"
      using s assms by (auto simp: tree_copy_def nth_append)
    then show ?case by simp
  next
    case (step k)
    then obtain ints where "fold f [s..<k] (s, tree_copy hashes cnt) = (2 * k - s, ints)" "length ints = cnt"
      "\<forall>j < k. ints ! j = (if j < s then hashes ! j else cn_fast_hash (hashes ! (2 * j - s) @ hashes ! (2 * j - s + 1)))" by auto
    then show ?case using step.hyps step.prems by (simp add: f_def nth_list_update less_Suc_eq Suc_diff_le)
  qed
  from this [of cnt] obtain ints where r: "fold f [s..<cnt] (s, tree_copy hashes cnt) = (2 * cnt - s, ints)" "length ints = cnt"
    "\<And>j. j < cnt \<Longrightarrow> ints ! j = (if j < s then hashes ! j else cn_fast_hash (hashes ! (2 * j - s) @ hashes ! (2 * j - s + 1)))"
    using s by auto
  have "ints = take s hashes @ pairs (drop s hashes)"
  proof (rule nth_equalityI)
    show len: "length ints = length (take s hashes @ pairs (drop s hashes))"
      using r(2) assms by (simp add: length_pairs s_def)
    fix j assume j: "j < length ints"
    show "ints ! j = (take s hashes @ pairs (drop s hashes)) ! j"
    proof (cases "j < s")
      case False
      then have "j - s < length (drop s hashes) div 2" using j len by (simp add: length_pairs)
      moreover have "s + 2 * (j - s) = 2 * j - s" using False by simp
      ultimately show ?thesis using False j r assms
        by (simp add: nth_append nth_pairs s_def)
    qed (use j r assms in \<open>simp add: nth_append s_def\<close>)
  qed
  moreover have "2 * cnt - s = length hashes" using assms by (simp add: s_def)
  ultimately show ?thesis using r(1) by (simp add: tree_first_def f_def s_def)
qed

lemma branch_visit_cong:
  "xs ! i = ys ! i \<Longrightarrow> xs ! (i + 1) = ys ! (i + 1) \<Longrightarrow> branch_visit xs i j st = branch_visit ys i j st"
  by (auto simp: branch_visit_def split: prod.splits)

text \<open>The visits of one pass over the pairs from \<open>s\<close> on, apart from the buffer.\<close>

definition visits :: "bytes list \<Rightarrow> nat \<Rightarrow> nat \<Rightarrow> branch_state \<Rightarrow> branch_state" where
  "visits xs s cnt st = fold (\<lambda>j. branch_visit xs (2 * j - s) j) [s..<cnt] st"

lemma branch_first_visits:
  assumes "cnt \<le> length hashes" "length hashes \<le> 2 * cnt"
  shows "branch_first hashes cnt st =
    (let (i, ints) = tree_first hashes cnt in (i, visits hashes (2 * cnt - length hashes) cnt st, ints))"
proof -
  define s where "s = 2 * cnt - length hashes"
  define f where "f = (\<lambda>j (i, ints). (i + 2, ints[j := cn_fast_hash (hashes ! i @ hashes ! (i + 1))]))"
  define g where "g = (\<lambda>j (i, st, ints). (i + 2, branch_visit hashes i j st, ints[j := cn_fast_hash (hashes ! i @ hashes ! (i + 1))]))"
  have "\<exists>ints. fold f [s..<k] (s, x) = (2 * k - s, ints) \<and> fold g [s..<k] (s, st, x) = (2 * k - s, visits hashes s k st, ints)"
    if "s \<le> k" for k x
    using that
  proof (induction k rule: dec_induct)
    case base
    then show ?case by (simp add: visits_def)
  next
    case (step k)
    then show ?case by (auto simp: f_def g_def visits_def Suc_diff_le)
  qed
  moreover have "s \<le> cnt" using assms by (simp add: s_def)
  ultimately obtain ints where "fold f [s..<cnt] (s, tree_copy hashes cnt) = (2 * cnt - s, ints)"
    "fold g [s..<cnt] (s, st, tree_copy hashes cnt) = (2 * cnt - s, visits hashes s cnt st, ints)" by blast
  then show ?thesis unfolding branch_first_def tree_first_def s_def [symmetric] f_def [symmetric] g_def [symmetric] by simp
qed

text \<open>A level in place: the entries below \<open>cnt\<close> become the hashes of the pairs.\<close>

lemma branch_level_visits:
  assumes "2 * cnt \<le> length ints"
  obtains ints' where "branch_level cnt (st, ints) = (visits ints 0 cnt st, ints')" "tree_level cnt ints = ints'"
    "length ints' = length ints" "take cnt ints' = pairs (take (2 * cnt) ints)"
proof -
  define f where "f = (\<lambda>j (i, ints). (i + 2, ints[j := cn_fast_hash (ints ! i @ ints ! (i + 1))]))"
  define g where "g = (\<lambda>j (i, st, ints). (i + 2, branch_visit ints i j st, ints[j := cn_fast_hash (ints ! i @ ints ! (i + 1))]))"
  have "\<exists>r. fold f [0..<k] (0, ints) = (2 * k, r) \<and> fold g [0..<k] (0, st, ints) = (2 * k, visits ints 0 k st, r) \<and>
      length r = length ints \<and> (\<forall>j < k. r ! j = cn_fast_hash (ints ! (2 * j) @ ints ! (2 * j + 1))) \<and>
      (\<forall>j. k \<le> j \<longrightarrow> j < length ints \<longrightarrow> r ! j = ints ! j)" if "k \<le> cnt" for k
    using that
  proof (induction k)
    case 0
    then show ?case by (simp add: visits_def)
  next
    case (Suc k)
    then obtain r where r: "fold f [0..<k] (0, ints) = (2 * k, r)" "fold g [0..<k] (0, st, ints) = (2 * k, visits ints 0 k st, r)"
      "length r = length ints" "\<forall>j < k. r ! j = cn_fast_hash (ints ! (2 * j) @ ints ! (2 * j + 1))"
      "\<forall>j. k \<le> j \<longrightarrow> j < length ints \<longrightarrow> r ! j = ints ! j" by auto
    have e: "r ! (2 * k) = ints ! (2 * k)" "r ! (2 * k + 1) = ints ! (2 * k + 1)" using r(5) Suc.prems assms by simp_all
    have "branch_visit r (2 * k) k st' = branch_visit ints (2 * k) k st'" for st' using e by (rule branch_visit_cong)
    then show ?case using r e Suc.prems assms by (simp add: f_def g_def visits_def nth_list_update less_Suc_eq)
  qed
  from this [of cnt] obtain r where r: "fold f [0..<cnt] (0, ints) = (2 * cnt, r)"
    "fold g [0..<cnt] (0, st, ints) = (2 * cnt, visits ints 0 cnt st, r)" "length r = length ints"
    "\<forall>j < cnt. r ! j = cn_fast_hash (ints ! (2 * j) @ ints ! (2 * j + 1))" by auto
  have "take cnt r = pairs (take (2 * cnt) ints)"
    using r(3,4) assms by (intro nth_equalityI) (simp_all add: length_pairs nth_pairs)
  then show ?thesis using that [of r] r(1-3) by (simp add: branch_level_def tree_level_def f_def g_def)
qed

text \<open>A pass moves an index at or above \<open>s\<close> to its parent and records its sibling and its side, and leaves one below \<open>s\<close> alone.\<close>

definition sibling :: "nat \<Rightarrow> nat \<Rightarrow> nat" where
  "sibling s idx = (if even (idx - s) then idx + 1 else idx - 1)"

lemma visits_result:
  assumes "s \<le> cnt"
  shows "visits xs s cnt (idx, branch, path) =
    (if s \<le> idx \<and> idx < 2 * cnt - s
     then (s + (idx - s) div 2, branch @ [xs ! sibling s idx], push_bit 1 path OR (if even (idx - s) then 0 else 1))
     else (idx, branch, path))"
  using assms
proof (induction cnt rule: dec_induct)
  case base
  then show ?case by (auto simp: visits_def)
next
  case (step k)
  have e: "visits xs s (Suc k) (idx, branch, path) = branch_visit xs (2 * k - s) k (visits xs s k (idx, branch, path))"
    using step.hyps by (simp add: visits_def)
  show ?case
  proof (cases "s \<le> idx \<and> idx < 2 * k - s")
    case True
    then have "s + (idx - s) div 2 < 2 * k - s" by linarith
    then show ?thesis using True step by (auto simp: e branch_visit_def)
  next
    case False
    then have v: "visits xs s k (idx, branch, path) = (idx, branch, path)" using step by auto
    show ?thesis
    proof (cases "s \<le> idx \<and> idx < 2 * Suc k - s")
      case True
      then have "idx = 2 * k - s \<or> idx = 2 * k - s + 1" using False step.hyps by auto
      then show ?thesis unfolding e v
      proof
        assume i: "idx = 2 * k - s"
        then have "even (idx - s)" "s + (idx - s) div 2 = k" using step.hyps by (simp_all, presburger?)
        then show "branch_visit xs (2 * k - s) k (idx, branch, path) = (if s \<le> idx \<and> idx < 2 * Suc k - s
            then (s + (idx - s) div 2, branch @ [xs ! sibling s idx], push_bit 1 path OR (if even (idx - s) then 0 else 1))
            else (idx, branch, path))" using True i by (simp add: branch_visit_def sibling_def)
      next
        assume i: "idx = 2 * k - s + 1"
        then have "odd (idx - s)" "s + (idx - s) div 2 = k" using step.hyps by (simp_all, presburger?)
        then show "branch_visit xs (2 * k - s) k (idx, branch, path) = (if s \<le> idx \<and> idx < 2 * Suc k - s
            then (s + (idx - s) div 2, branch @ [xs ! sibling s idx], push_bit 1 path OR (if even (idx - s) then 0 else 1))
            else (idx, branch, path))" using True i by (simp add: branch_visit_def sibling_def)
      qed
    next
      case f: False
      then show ?thesis using False step.hyps unfolding e v by (auto simp: branch_visit_def)
    qed
  qed
qed

subsection \<open>Chains of siblings\<close>

text \<open>A branch is a list of siblings with their sides; the path packs the sides into a number.\<close>

definition join :: "bytes \<times> bool \<Rightarrow> bytes \<Rightarrow> bytes" where
  "join br p = (case br of (b, right) \<Rightarrow> if right then b @ p else p @ b)"

definition chain :: "bytes \<Rightarrow> (bytes \<times> bool) list \<Rightarrow> bytes" where
  "chain h steps = fold (\<lambda>s p. cn_fast_hash (join s p)) steps h"

definition path_of :: "(bytes \<times> bool) list \<Rightarrow> u32" where
  "path_of steps = fold (\<lambda>s p. push_bit 1 p OR (if snd s then 1 else 0)) steps 0"

lemma path_of_bit:
  "length steps \<le> 32 \<Longrightarrow> d < length steps \<Longrightarrow> bit (path_of steps) (length steps - d - 1) = snd (steps ! d)"
proof (induction steps arbitrary: d rule: rev_induct)
  case (snoc x xs)
  have p: "path_of (xs @ [x]) = push_bit 1 (path_of xs) OR (if snd x then 1 else 0)" by (simp add: path_of_def)
  show ?case
  proof (cases "d = length xs")
    case True
    then show ?thesis unfolding p bit_or_iff bit_push_bit_iff by (simp add: bit_0)
  next
    case False
    then have d: "d < length xs" using snoc.prems by simp
    then have i: "length (xs @ [x]) - d - 1 = Suc (length xs - d - 1)" by simp
    have "bit (path_of (xs @ [x])) (Suc n) = bit (path_of xs) n" if "n < 31" for n
      unfolding p bit_or_iff bit_push_bit_iff using that by (simp add: bit_1_iff)
    then show ?thesis unfolding i using snoc.IH [of d] snoc.prems d by (simp add: nth_append)
  qed
qed simp

lemma branch_buffer_join:
  assumes "length steps \<le> 32" "d < length steps"
  shows "branch_buffer (map fst steps) (path_of steps) d p = join (steps ! d) p"
proof -
  have "drop_bit n (path_of steps) AND 1 \<noteq> 0 \<longleftrightarrow> bit (path_of steps) n" for n
    by (simp add: and_one_eq bit_iff_odd_drop_bit odd_iff_mod_2_eq_one)
  then show ?thesis using path_of_bit [OF assms] assms
    by (simp add: branch_buffer_def join_def case_prod_beta split: prod.splits)
qed


lemma tree_branch_hash_chain:
  assumes "length steps \<le> 32"
  shows "tree_branch_hash h (map fst steps) (path_of steps) = chain h steps"
proof -
  have "tree_branch_hash h (map fst steps) (path_of steps) =
      fold (\<lambda>d p. cn_fast_hash (join (steps ! d) p)) [0..<length steps] h"
    unfolding tree_branch_hash_def using branch_buffer_join [OF assms] by (intro fold_cong) simp_all
  also have "\<dots> = fold (\<lambda>s p. cn_fast_hash (join s p)) (map (\<lambda>d. steps ! d) [0..<length steps]) h"
    by (simp add: fold_map comp_def)
  finally show ?thesis by (simp add: map_nth chain_def)
qed

text \<open>The invariant of the walk to the root: the entry at the index is the chain so far.\<close>

definition on_path :: "bytes \<Rightarrow> bytes list \<Rightarrow> nat \<Rightarrow> branch_state \<Rightarrow> bool" where
  "on_path h L n st \<longleftrightarrow> (case st of (idx, branch, path) \<Rightarrow>
    \<exists>steps. branch = map fst steps \<and> path = path_of steps \<and> length steps = n \<and> idx < length L \<and> L ! idx = chain h steps)"

lemma chain_snoc: "chain h (steps @ [(b, r)]) = cn_fast_hash (if r then b @ chain h steps else chain h steps @ b)"
  by (simp add: chain_def join_def)

lemma path_of_snoc: "path_of (steps @ [(b, r)]) = push_bit 1 (path_of steps) OR (if r then 1 else 0)"
  by (simp add: path_of_def)

lemma half_less: "a < b \<Longrightarrow> even b \<Longrightarrow> a div 2 < b div 2" for a b :: nat
  by (elim evenE) (simp add: less_mult_imp_div_less mult.commute)

text \<open>The parent of an entry at or above \<open>s\<close>, when the entries from \<open>s\<close> on are hashed in pairs.\<close>

lemma on_path_up:
  assumes p: "on_path h xs n (idx, branch, path)" and s: "s \<le> idx" and even: "even (length xs - s)"
  shows "on_path h (take s xs @ pairs (drop s xs)) (Suc n)
    (s + (idx - s) div 2, branch @ [xs ! sibling s idx], push_bit 1 path OR (if even (idx - s) then 0 else 1))"
proof -
  from p obtain steps where st: "branch = map fst steps" "path = path_of steps" "length steps = n" "idx < length xs" "xs ! idx = chain h steps"
    by (auto simp: on_path_def)
  define k where "k = (idx - s) div 2"
  have k: "k < (length xs - s) div 2" unfolding k_def using st(4) s even by (intro half_less) simp_all
  have n: "(take s xs @ pairs (drop s xs)) ! (s + k) = cn_fast_hash (xs ! (s + 2 * k) @ xs ! (s + 2 * k + 1))"
    using k st(4) s by (simp add: nth_append nth_pairs min_def add.assoc)
  have "(take s xs @ pairs (drop s xs)) ! (s + k) = chain h (steps @ [(xs ! sibling s idx, odd (idx - s))])"
  proof (cases "even (idx - s)")
    case True
    then have "s + 2 * k = idx" using s by (simp add: k_def)
    then show ?thesis using True by (simp add: n chain_snoc sibling_def st(5))
  next
    case False
    then have "s + 2 * k + 1 = idx" using s by (simp add: k_def) presburger
    moreover from this have "idx - 1 = s + 2 * k" by simp
    ultimately show ?thesis using False by (simp add: n chain_snoc sibling_def flip: st(5))
  qed
  moreover have "s + k < length (take s xs @ pairs (drop s xs))" using k st(4) s by (simp add: length_pairs min_def)
  ultimately show ?thesis unfolding on_path_def prod.case k_def [symmetric]
    using st(1-3) by (intro exI [of _ "steps @ [(xs ! sibling s idx, odd (idx - s))]"]) (simp add: path_of_snoc)
qed

subsection \<open>From the leaves to the root\<close>

text \<open>The root of a tree with \<open>2 ^ n\<close> leaves, from the top.\<close>

fun merkle :: "nat \<Rightarrow> bytes list \<Rightarrow> bytes" where
  "merkle 0 xs = xs ! 0"
| "merkle (Suc n) xs = cn_fast_hash (merkle n (take (2 ^ n) xs) @ merkle n (drop (2 ^ n) xs))"

lemma merkle_pairs: "length xs = 2 ^ Suc n \<Longrightarrow> merkle (Suc n) xs = merkle n (pairs xs)"
proof (induction n arbitrary: xs)
  case 0
  then obtain x y where "xs = [x, y]" by (auto simp: length_Suc_conv numeral_2_eq_2)
  then show ?case by simp
next
  case (Suc n)
  have "merkle (Suc n) (take (2 ^ Suc n) xs) = merkle n (pairs (take (2 * 2 ^ n) xs))"
    "merkle (Suc n) (drop (2 ^ Suc n) xs) = merkle n (pairs (drop (2 * 2 ^ n) xs))"
    using Suc.prems Suc.IH [of "take (2 ^ Suc n) xs"] Suc.IH [of "drop (2 ^ Suc n) xs"] by simp_all
  then show ?case unfolding pairs_take pairs_drop
    by (subst merkle.simps(2)) (simp add: merkle.simps(2) [of n "pairs xs"] del: merkle.simps)
qed

lemma sibling_even: "idx < 2 * m \<Longrightarrow> sibling 0 idx < 2 * m"
  by (auto simp: sibling_def elim!: evenE)

text \<open>The loop over the levels, with the branch alongside.\<close>

lemma tree_levels_merkle:
  assumes "2 ^ n \<le> length ints" "1 \<le> n"
  obtains ints' where "tree_levels (2 ^ n) ints = ints'" "merkle n (take (2 ^ n) ints) = cn_fast_hash (ints' ! 0 @ ints' ! 1)"
    "2 \<le> length ints'" "\<And>st. snd (branch_levels (2 ^ n) (st, ints)) = ints'"
    "\<And>h k idx branch path. on_path h (take (2 ^ n) ints) k (idx, branch, path) \<Longrightarrow>
      on_path h (take 2 ints') (k + (n - 1)) (fst (branch_levels (2 ^ n) ((idx, branch, path), ints)))"
proof -
  have "\<exists>ints'. tree_levels (2 ^ n) ints = ints' \<and> merkle n (take (2 ^ n) ints) = cn_fast_hash (ints' ! 0 @ ints' ! 1) \<and>
    2 \<le> length ints' \<and> (\<forall>st. snd (branch_levels (2 ^ n) (st, ints)) = ints') \<and>
    (\<forall>h k idx branch path. on_path h (take (2 ^ n) ints) k (idx, branch, path) \<longrightarrow>
      on_path h (take 2 ints') (k + (n - 1)) (fst (branch_levels (2 ^ n) ((idx, branch, path), ints))))"
    using assms(2,1)
  proof (induction n arbitrary: ints rule: dec_induct)
    case base
    then show ?case by (auto simp: tree_levels.simps branch_levels.simps numeral_2_eq_2)
  next
    case (step n)
    define L where "L = tree_level (2 ^ n) ints"
    have len: "2 * 2 ^ n \<le> length ints" using step.prems by simp
    have L: "length L = length ints" "take (2 ^ n) L = pairs (take (2 * 2 ^ n) ints)"
      "branch_level (2 ^ n) (st, ints) = (visits ints 0 (2 ^ n) st, L)" for st
      by (rule branch_level_visits [OF len, of st], simp add: L_def)+
    have "(2 :: nat) ^ 1 \<le> 2 ^ n" using step.hyps(1) by (intro power_increasing) simp_all
    then have gt: "(2 :: nat) < 2 ^ Suc n" by simp
    then have t: "tree_levels (2 ^ Suc n) ints = tree_levels (2 ^ n) L" by (subst tree_levels.simps) (simp add: L_def)
    have b: "branch_levels (2 ^ Suc n) (st, ints) = branch_levels (2 ^ n) (visits ints 0 (2 ^ n) st, L)" for st
      using gt by (subst branch_levels.simps) (simp add: L(3))
    obtain ints' where IH: "tree_levels (2 ^ n) L = ints'" "merkle n (take (2 ^ n) L) = cn_fast_hash (ints' ! 0 @ ints' ! 1)"
      "2 \<le> length ints'" "\<forall>st. snd (branch_levels (2 ^ n) (st, L)) = ints'"
      "\<And>h k idx branch path. on_path h (take (2 ^ n) L) k (idx, branch, path) \<Longrightarrow>
        on_path h (take 2 ints') (k + (n - 1)) (fst (branch_levels (2 ^ n) ((idx, branch, path), L)))"
      using step.IH [of L] L(1) step.prems by auto
    have m: "merkle (Suc n) (take (2 ^ Suc n) ints) = merkle n (take (2 ^ n) L)" using len by (subst merkle_pairs) (simp_all add: L(2))
    have "on_path h (take 2 ints') (k + (Suc n - 1)) (fst (branch_levels (2 ^ Suc n) ((idx, branch, path), ints)))"
      if p: "on_path h (take (2 ^ Suc n) ints) k (idx, branch, path)" for h k idx branch path
    proof -
      have idx: "idx < 2 * 2 ^ n" using p by (auto simp: on_path_def)
      then have "take (2 ^ Suc n) ints ! sibling 0 idx = ints ! sibling 0 idx" by (simp add: sibling_even)
      then have "on_path h (take (2 ^ n) L) (Suc k) (visits ints 0 (2 ^ n) (idx, branch, path))"
        using on_path_up [OF p, of 0] len idx by (simp add: L(2) visits_result)
      then show ?thesis unfolding b using IH(5) step.hyps by (cases "visits ints 0 (2 ^ n) (idx, branch, path)") fastforce
    qed
    then show ?case using IH(2-4) unfolding t b m IH(1) by blast
  qed
  then show ?thesis using that by blast
qed

text \<open>The path alone follows the branch.\<close>

definition idx_path :: "branch_state \<Rightarrow> nat \<times> u32" where
  "idx_path st = (case st of (idx, branch, path) \<Rightarrow> (idx, path))"

lemma path_visit_branch: "path_visit i j (idx_path st) = idx_path (branch_visit xs i j st)"
  by (auto simp: path_visit_def idx_path_def branch_visit_def split: prod.splits)

lemma path_pass:
  assumes "s \<le> cnt"
  shows "fold (\<lambda>j (i, ip). (i + 2, path_visit i j ip)) [s..<cnt] (s, idx_path st) = (2 * cnt - s, idx_path (visits xs s cnt st))"
  using assms
proof (induction cnt rule: dec_induct)
  case base
  then show ?case by (simp add: visits_def)
next
  case (step k)
  then show ?case by (simp add: visits_def path_visit_branch [of _ _ _ xs] Suc_diff_le)
qed

lemma path_levels_branch:
  assumes "2 ^ n \<le> length ints"
  shows "path_levels (2 ^ n) (idx_path st) = idx_path (fst (branch_levels (2 ^ n) (st, ints)))"
  using assms
proof (induction n arbitrary: ints st)
  case 0
  then show ?case by (simp add: path_levels.simps branch_levels.simps)
next
  case (Suc n)
  show ?case
  proof (cases "2 < (2 :: nat) ^ Suc n")
    case True
    have len: "2 * 2 ^ n \<le> length ints" using Suc.prems by simp
    from branch_level_visits [OF len, of st] obtain L where L: "branch_level (2 ^ n) (st, ints) = (visits ints 0 (2 ^ n) st, L)"
      "length L = length ints" by metis
    have "path_levels (2 ^ Suc n) (idx_path st) = path_levels (2 ^ n) (idx_path (visits ints 0 (2 ^ n) st))"
      using True path_pass [of 0 "2 ^ n" st ints] by (subst path_levels.simps) (simp add: path_level_def)
    moreover have "branch_levels (2 ^ Suc n) (st, ints) = branch_levels (2 ^ n) (visits ints 0 (2 ^ n) st, L)"
      using True by (subst branch_levels.simps) (simp add: L(1))
    ultimately show ?thesis using Suc.IH [of L] L(2) Suc.prems by simp
  next
    case False
    then show ?thesis by (subst path_levels.simps, subst branch_levels.simps) (simp only: if_False fst_conv)
  qed
qed

subsection \<open>The tree hash\<close>

lemma tree_hash_large:
  assumes "3 \<le> length hashes" "length hashes \<le> 0x10000000"
  obtains m L ints where "tree_hash_cnt (length hashes) = Some (2 ^ m)" "1 \<le> m" "m \<le> 27" "2 ^ m < length hashes" "length hashes \<le> 2 ^ Suc m"
    "L = take (2 ^ Suc m - length hashes) hashes @ pairs (drop (2 ^ Suc m - length hashes) hashes)" "length L = 2 ^ m"
    "tree_first hashes (2 ^ m) = (length hashes, L)" "tree_levels (2 ^ m) L = ints" "tree_hash hashes = Some (cn_fast_hash (ints ! 0 @ ints ! 1))"
    "merkle m L = cn_fast_hash (ints ! 0 @ ints ! 1)" "2 \<le> length ints" "\<And>st. snd (branch_levels (2 ^ m) (st, L)) = ints"
    "\<And>h k idx branch path. on_path h L k (idx, branch, path) \<Longrightarrow>
      on_path h (take 2 ints) (k + (m - 1)) (fst (branch_levels (2 ^ m) ((idx, branch, path), L)))"
proof -
  obtain m where m: "tree_hash_cnt (length hashes) = Some (2 ^ m)" "1 \<le> m" "m \<le> 27" "2 ^ m < length hashes" "length hashes \<le> 2 ^ Suc m"
    using tree_hash_cnt_power [OF assms] by blast
  define L where "L = take (2 ^ Suc m - length hashes) hashes @ pairs (drop (2 ^ Suc m - length hashes) hashes)"
  have L: "length L = 2 ^ m" using m by (simp add: L_def length_pairs)
  have f: "tree_first hashes (2 ^ m) = (length hashes, L)" using tree_first_spec [of "2 ^ m" hashes] m by (simp add: L_def)
  have tl: "take (2 ^ m) L = L" using L by simp
  obtain ints where i: "tree_levels (2 ^ m) L = ints" "merkle m L = cn_fast_hash (ints ! 0 @ ints ! 1)"
    "2 \<le> length ints" "\<And>st. snd (branch_levels (2 ^ m) (st, L)) = ints"
    "\<And>h k idx branch path. on_path h L k (idx, branch, path) \<Longrightarrow>
      on_path h (take 2 ints) (k + (m - 1)) (fst (branch_levels (2 ^ m) ((idx, branch, path), L)))"
    by (rule tree_levels_merkle [OF eq_refl [OF L [symmetric]] m(2), unfolded tl]) blast
  have "tree_hash hashes = Some (cn_fast_hash (ints ! 0 @ ints ! 1))" using assms(1) m(1) f i(1) by (auto simp: tree_hash_def Let_def)
  from that [OF m L_def L f i(1) this i(2-5)] show ?thesis by blast
qed

lemma tree_hash_merkle:
  assumes "2 \<le> length hashes" "length hashes \<le> 0x10000000"
  shows "\<exists>m. 2 ^ m < length hashes \<and> length hashes \<le> 2 ^ Suc m \<and>
    tree_hash hashes = Some (merkle m (take (2 ^ Suc m - length hashes) hashes @ pairs (drop (2 ^ Suc m - length hashes) hashes)))"
proof (cases "length hashes = 2")
  case True
  then obtain x y where "hashes = [x, y]" by (auto simp: length_Suc_conv numeral_2_eq_2)
  then show ?thesis by (intro exI [of _ 0]) (simp add: tree_hash_def)
next
  case False
  then have "3 \<le> length hashes" using assms(1) by simp
  from tree_hash_large [OF this assms(2)] show ?thesis by metis
qed

subsection \<open>Branches\<close>

lemma tree_index_props:
  assumes "h \<in> set hashes"
  shows "tree_index hashes h < length hashes" "hashes ! tree_index hashes h = h"
proof -
  show l: "tree_index hashes h < length hashes" unfolding tree_index_def using assms
    by (metis (mono_tags, lifting) length_takeWhile_le nat_less_le takeWhile_eq_all_conv takeWhile_eq_take take_all_iff order.refl)
  show "hashes ! tree_index hashes h = h" using nth_length_takeWhile [of "\<lambda>x. x \<noteq> h" hashes] l unfolding tree_index_def by blast
qed

lemma tree_index_notin: "h \<notin> set hashes \<Longrightarrow> tree_index hashes h = length hashes"
  unfolding tree_index_def by (rule arg_cong [where f = length], rule takeWhile_eq_all_conv [THEN iffD2]) auto

lemma on_path_start: "idx < length xs \<Longrightarrow> on_path (xs ! idx) xs 0 (idx, [], 0)"
  by (simp add: on_path_def path_of_def chain_def)

text \<open>After the first pass the leaf is at most one step below its entry.\<close>

lemma on_path_first:
  assumes "on_path h hashes 0 (idx, [], 0)" "cnt \<le> length hashes" "length hashes \<le> 2 * cnt"
  defines "s \<equiv> 2 * cnt - length hashes"
  shows "\<exists>k \<le> 1. on_path h (take s hashes @ pairs (drop s hashes)) k (visits hashes s cnt (idx, [], 0))"
proof -
  have s: "s \<le> cnt" "2 * cnt - s = length hashes" "even (length hashes - s)" using assms by (simp_all add: s_def)
  have idx: "idx < length hashes" using assms(1) by (simp add: on_path_def)
  show ?thesis
  proof (cases "s \<le> idx")
    case True
    then show ?thesis using on_path_up [OF assms(1) True s(3)] idx s by (intro exI [of _ 1]) (simp add: visits_result)
  next
    case False
    then show ?thesis using assms(1) s idx by (intro exI [of _ 0]) (simp add: visits_result on_path_def nth_append)
  qed
qed

lemma on_path_last:
  assumes "on_path h (take 2 ints) k (idx, branch, path)" "2 \<le> length ints"
  obtains steps where "length steps = Suc k" "branch @ [ints ! (if idx = 0 then 1 else 0)] = map fst steps"
    "push_bit 1 path OR (if idx = 0 then 0 else 1) = path_of steps" "chain h steps = cn_fast_hash (ints ! 0 @ ints ! 1)" "idx = 0 \<or> idx = 1"
proof -
  obtain steps where s: "branch = map fst steps" "path = path_of steps" "length steps = k" "idx < 2" "ints ! idx = chain h steps"
    using assms by (auto simp: on_path_def)
  then have i: "idx = 0 \<or> idx = 1" by auto
  show ?thesis
    by (rule that [of "steps @ [(ints ! (if idx = 0 then 1 else 0), idx = 1)]"])
      (use s i in \<open>auto simp: path_of_snoc chain_snoc\<close>)
qed

lemma tree_branch_correct:
  assumes h: "h \<in> set hashes" and len: "length hashes \<le> 0x10000000"
  obtains steps where "tree_branch hashes h = Inr (map fst steps, path_of steps)" "tree_hash hashes = Some (chain h steps)"
    "tree_path (length hashes) (tree_index hashes h) = Inr (path_of steps)" "length steps \<le> 28"
proof -
  define idx where "idx = tree_index hashes h"
  have idx: "idx < length hashes" "hashes ! idx = h" unfolding idx_def by (rule tree_index_props [OF h])+
  consider "length hashes = 1" | "length hashes = 2" | "3 \<le> length hashes" using idx by fastforce
  then show ?thesis
  proof cases
    case 1
    then have "idx = 0" using idx by simp
    then show ?thesis using 1 idx that [of "[]"]
      by (simp add: tree_branch_def Let_def idx_def [symmetric] path_of_def tree_hash_def chain_def tree_path_def)
  next
    case 2
    then obtain x y where xy: "hashes = [x, y]" by (auto simp: length_Suc_conv numeral_2_eq_2)
    have "idx = 0 \<or> idx = 1" using idx(1) 2 by auto
    then show ?thesis using idx that [of "[(hashes ! (1 - idx), idx = 1)]"]
      by (auto simp: xy tree_branch_def Let_def idx_def [symmetric, unfolded xy] path_of_def tree_hash_def chain_def tree_path_def join_def)
  next
    case 3
    obtain m L ints where m: "tree_hash_cnt (length hashes) = Some (2 ^ m)" "1 \<le> m" "m \<le> 27" "2 ^ m < length hashes" "length hashes \<le> 2 ^ Suc m"
      "L = take (2 ^ Suc m - length hashes) hashes @ pairs (drop (2 ^ Suc m - length hashes) hashes)" "length L = 2 ^ m"
      "tree_first hashes (2 ^ m) = (length hashes, L)" "tree_hash hashes = Some (cn_fast_hash (ints ! 0 @ ints ! 1))"
      "2 \<le> length ints" "\<And>st. snd (branch_levels (2 ^ m) (st, L)) = ints"
      "\<And>h k idx branch path. on_path h L k (idx, branch, path) \<Longrightarrow>
        on_path h (take 2 ints) (k + (m - 1)) (fst (branch_levels (2 ^ m) ((idx, branch, path), L)))"
      by (rule tree_hash_large [OF 3 len]) blast
    define s where "s = 2 * 2 ^ m - length hashes"
    define st where "st = visits hashes s (2 ^ m) (idx, [], 0)"
    have c: "2 ^ m \<le> length hashes" "length hashes \<le> 2 * 2 ^ m" "s \<le> 2 ^ m" using m(4,5) by (simp_all add: s_def)
    have bf: "branch_first hashes (2 ^ m) (idx, [], 0) = (length hashes, st, L)"
      using branch_first_visits [OF c(1,2)] m(8) by (simp add: st_def s_def)
    obtain k where k: "k \<le> 1" "on_path h L k st"
      using on_path_first [OF _ c(1,2), of h idx] on_path_start [OF idx(1)] idx(2) m(6) by (auto simp: st_def s_def)
    obtain i br p where bl: "branch_levels (2 ^ m) (st, L) = ((i, br, p), ints)"
      using m(11) [of st] by (metis prod.collapse)
    have "on_path h (take 2 ints) (k + (m - 1)) (i, br, p)" using m(12) k(2) bl by (cases st) fastforce
    then obtain steps where steps: "length steps = Suc (k + (m - 1))" "br @ [ints ! (if i = 0 then 1 else 0)] = map fst steps"
      "push_bit 1 p OR (if i = 0 then 0 else 1) = path_of steps" "chain h steps = cn_fast_hash (ints ! 0 @ ints ! 1)" "i = 0 \<or> i = 1"
      using m(10) by (rule on_path_last)
    have b: "tree_branch hashes h = Inr (map fst steps, path_of steps)"
      using 3 idx(1) m(1) bf bl steps(2,3,5) unfolding tree_branch_def Let_def idx_def [symmetric] by auto
    have "fold (\<lambda>j (i, ip). (i + 2, path_visit i j ip)) [s..<2 ^ m] (s, (idx, 0)) = (length hashes, idx_path st)"
      using path_pass [OF c(3), of "(idx, [], 0)" hashes] c(2) by (simp add: idx_path_def st_def) (simp add: s_def)
    moreover have "path_levels (2 ^ m) (idx_path st) = (i, p)" using path_levels_branch [of m L st] m(7) bl by (simp add: idx_path_def)
    ultimately have "tree_path (length hashes) idx = Inr (path_of steps)"
      using 3 m(1) steps(3,5) unfolding tree_path_def s_def by auto
    then show ?thesis using that [of steps] b m(9) steps(1,4) k(1) m(3) by (simp add: idx_def)
  qed
qed

subsection \<open>Two branches with one root\<close>

text \<open>The partial hash before step \<open>d\<close>, and what two branches with the same root must share unless two different buffers
  have one hash.\<close>

definition branch_partial :: "bytes \<Rightarrow> bytes list \<Rightarrow> u32 \<Rightarrow> nat \<Rightarrow> bytes" where
  "branch_partial hash branch path d = fold (\<lambda>d partial. cn_fast_hash (branch_buffer branch path d partial)) [0..<d] hash"

definition branch_collision :: "bytes \<Rightarrow> bytes list \<Rightarrow> bytes \<Rightarrow> bytes list \<Rightarrow> u32 \<Rightarrow> bool" where
  "branch_collision h b h' b' path \<longleftrightarrow> (\<exists>d < length b.
    branch_buffer b path d (branch_partial h b path d) \<noteq> branch_buffer b' path d (branch_partial h' b' path d) \<and>
    cn_fast_hash (branch_buffer b path d (branch_partial h b path d)) = cn_fast_hash (branch_buffer b' path d (branch_partial h' b' path d)))"

lemma branch_partial_Suc:
  "branch_partial h b path (Suc d) = cn_fast_hash (branch_buffer b path d (branch_partial h b path d))"
  by (simp add: branch_partial_def)

lemma length_branch_partial: "length h = 32 \<Longrightarrow> length (branch_partial h b path d) = 32"
  by (cases d) (simp_all add: branch_partial_Suc cn_fast_hash_keccak32 branch_partial_def)

lemma tree_branch_hash_partial: "tree_branch_hash h b path = branch_partial h b path (length b)"
  by (simp add: tree_branch_hash_def branch_partial_def)

lemma branch_binding:
  assumes len: "length b' = length b" "length h = 32" "length h' = 32" "\<forall>x \<in> set b. length x = 32" "\<forall>x \<in> set b'. length x = 32"
    and root: "tree_branch_hash h b path = tree_branch_hash h' b' path" and no: "\<not> branch_collision h b h' b' path"
  shows "h' = h \<and> b' = b"
proof -
  have "branch_partial h b path d = branch_partial h' b' path d \<and> (\<forall>e. d \<le> e \<longrightarrow> e < length b \<longrightarrow> b ! e = b' ! e)" if "d \<le> length b" for d
    using that
  proof (induction d rule: inc_induct)
    case base
    then show ?case using root len(1) by (simp add: tree_branch_hash_partial)
  next
    case (step d)
    then have e: "branch_buffer b path d (branch_partial h b path d) = branch_buffer b' path d (branch_partial h' b' path d)"
      using no unfolding branch_collision_def branch_partial_Suc by blast
    have "length (b ! d) = 32" "length (b' ! d) = 32" using step.hyps len by (metis nth_mem)+
    then have "branch_partial h b path d = branch_partial h' b' path d \<and> b ! d = b' ! d"
      using e length_branch_partial [OF len(2)] length_branch_partial [OF len(3)] len(1) by (auto simp: branch_buffer_def split: if_splits)
    then show ?case using step.IH by (metis Suc_leI le_neq_implies_less)
  qed
  from this [of 0] show ?thesis using len(1) by (auto simp: branch_partial_def list_eq_iff_nth_eq)
qed

subsection \<open>Properties\<close>

text \<open>C8: The root.  For 2 to \<open>2^28\<close> hashes, \<open>tree_hash\<close> is the root of the binary tree with \<open>2^m\<close> entries, where \<open>2^m\<close> is
  the largest power of two below the count: the entries are the first hashes and the hashes of the pairs of the others,
  and every node is the hash of its two children.  The code computes it from the bottom, in place, in one buffer.  A single
  hash is its own root, and exactly the empty list and the lists longer than \<open>2^28\<close> fail an assertion.\<close>

theorem tree_hash_spec:
  "(tree_hash hashes = None \<longleftrightarrow> hashes = [] \<or> 2 ^ 28 < length hashes) \<and>
   (length hashes = 1 \<longrightarrow> tree_hash hashes = Some (hashes ! 0)) \<and>
   (2 \<le> length hashes \<and> length hashes \<le> 2 ^ 28 \<longrightarrow>
     (\<exists>m. 2 ^ m < length hashes \<and> length hashes \<le> 2 ^ Suc m \<and>
       tree_hash hashes = Some (merkle m (take (2 ^ Suc m - length hashes) hashes @ pairs (drop (2 ^ Suc m - length hashes) hashes)))))"
proof (intro conjI impI)
  show one: "tree_hash hashes = Some (hashes ! 0)" if "length hashes = 1" using that by (auto simp: tree_hash_def)
  show many: "\<exists>m. 2 ^ m < length hashes \<and> length hashes \<le> 2 ^ Suc m \<and>
       tree_hash hashes = Some (merkle m (take (2 ^ Suc m - length hashes) hashes @ pairs (drop (2 ^ Suc m - length hashes) hashes)))"
    if "2 \<le> length hashes \<and> length hashes \<le> 2 ^ 28" using that by (intro tree_hash_merkle) simp_all
  have "tree_hash hashes = None" if "2 ^ 28 < length hashes"
  proof -
    have "tree_hash_cnt (length hashes) = None" "length hashes \<noteq> 0" "length hashes \<noteq> 1" "length hashes \<noteq> 2"
      using that by (auto simp: tree_hash_cnt_None)
    then show ?thesis by (simp add: tree_hash_def Let_def del: length_0_conv)
  qed
  moreover have "tree_hash [] = None" by (simp add: tree_hash_def)
  moreover have "length hashes = 0 \<or> length hashes = 1 \<or> 2 \<le> length hashes" by linarith
  ultimately show "tree_hash hashes = None \<longleftrightarrow> hashes = [] \<or> 2 ^ 28 < length hashes" using one many by fastforce
qed

theorem tree_hash_spec_witness: "\<exists>m. (2 :: nat) ^ m < 3 \<and> 3 \<le> (2 :: nat) ^ Suc m \<and>
    tree_hash [[1], [2], [3]] = Some (merkle m (take (2 ^ Suc m - 3) [[1], [2], [3]] @ pairs (drop (2 ^ Suc m - 3) [[1], [2], [3]])))"
  using tree_hash_spec [of "[[1], [2], [3]]"] by (simp add: numeral_3_eq_3)

text \<open>C3: Branches.  For a hash that is a leaf, \<open>tree_branch\<close> succeeds, with the path that \<open>tree_path\<close> computes from the
  index alone, at most 28 siblings, and a branch that \<open>is_branch_in_tree\<close> accepts with the root of the tree; for any other
  hash it answers \<open>false\<close>.\<close>

theorem tree_branch_spec:
  assumes "length hashes \<le> 2 ^ 28"
  shows "(h \<notin> set hashes \<longrightarrow> tree_branch hashes h = Inl Tree_false) \<and>
    (h \<in> set hashes \<longrightarrow> (\<exists>branch path root. tree_branch hashes h = Inr (branch, path) \<and> tree_hash hashes = Some root \<and>
      is_branch_in_tree h root branch path \<and> tree_path (length hashes) (tree_index hashes h) = Inr path \<and> length branch \<le> 28))"
proof (intro conjI impI)
  show "tree_branch hashes h = Inl Tree_false" if "h \<notin> set hashes" using tree_index_notin [OF that] by (simp add: tree_branch_def Let_def)
  assume h: "h \<in> set hashes"
  have l: "length hashes \<le> 0x10000000" using assms by simp
  obtain steps where "tree_branch hashes h = Inr (map fst steps, path_of steps)" "tree_hash hashes = Some (chain h steps)"
    "tree_path (length hashes) (tree_index hashes h) = Inr (path_of steps)" "length steps \<le> 28" by (rule tree_branch_correct [OF h l])
  then show "\<exists>branch path root. tree_branch hashes h = Inr (branch, path) \<and> tree_hash hashes = Some root \<and>
      is_branch_in_tree h root branch path \<and> tree_path (length hashes) (tree_index hashes h) = Inr path \<and> length branch \<le> 28"
    using tree_branch_hash_chain [of steps h] by (auto simp: is_branch_in_tree_def)
qed

theorem tree_branch_spec_witness:
  "\<exists>branch path root. tree_branch [[1], [2], [3]] [3] = Inr (branch, path) \<and> tree_hash [[1], [2], [3]] = Some root \<and>
    is_branch_in_tree [3] root branch path"
  using tree_branch_spec [of "[[1], [2], [3]]" "[3]"] by auto

text \<open>C13: A branch proves membership.  Take the branch and the path of a leaf \<open>h\<close>.  When the check accepts another hash
  \<open>h'\<close> with the same root and path and a branch of the same depth, then \<open>h'\<close> is \<open>h\<close> and the branches are equal, unless the
  two computations hash two different 64 byte buffers to one value at some step.\<close>

theorem tree_branch_binding:
  assumes "length hashes \<le> 2 ^ 28" "\<forall>x \<in> set hashes. length x = 32" "h \<in> set hashes"
    and "tree_branch hashes h = Inr (branch, path)" "tree_hash hashes = Some root"
    and "is_branch_in_tree h' root branch' path" "length branch' = length branch" "length h' = 32" "\<forall>x \<in> set (branch @ branch'). length x = 32"
  shows "h' = h \<and> branch' = branch \<or> branch_collision h branch h' branch' path"
proof -
  have l: "length hashes \<le> 0x10000000" using assms(1) by simp
  obtain steps where "tree_branch hashes h = Inr (map fst steps, path_of steps)" "tree_hash hashes = Some (chain h steps)" "length steps \<le> 28"
    by (rule tree_branch_correct [OF assms(3) l])
  then have "tree_branch_hash h branch path = root" using assms(4,5) tree_branch_hash_chain [of steps h] by simp
  then have "tree_branch_hash h branch path = tree_branch_hash h' branch' path" using assms(6) by (simp add: is_branch_in_tree_def)
  then show ?thesis using branch_binding [of branch' branch h h' path] assms by auto
qed

text \<open>Of a tree with two leaves: the hashes and branches that the check accepts for the path of the first leaf contain
  that leaf with its branch, and every other one among them gives two different buffers with the same hash.\<close>

theorem tree_branch_binding_witness:
  "tree_branch [replicate 32 1, replicate 32 2] (replicate 32 1) = Inr ([replicate 32 2], 0) \<and>
   tree_hash [replicate 32 1, replicate 32 2] = Some (cn_fast_hash (replicate 32 1 @ replicate 32 2)) \<and>
   (replicate 32 1, replicate 32 2) \<in> {(h', b). length h' = 32 \<and> length b = 32 \<and>
     is_branch_in_tree h' (cn_fast_hash (replicate 32 1 @ replicate 32 2)) [b] 0} \<and>
   {(h', b). length h' = 32 \<and> length b = 32 \<and> is_branch_in_tree h' (cn_fast_hash (replicate 32 1 @ replicate 32 2)) [b] 0} -
     {(replicate 32 1, replicate 32 2)} \<subseteq>
   {(h', b). h' @ b \<noteq> replicate 32 1 @ replicate 32 2 \<and> cn_fast_hash (h' @ b) = cn_fast_hash (replicate 32 1 @ replicate 32 2)}"
proof (intro conjI)
  show b: "tree_branch [replicate 32 1, replicate 32 2] (replicate 32 1) = Inr ([replicate 32 2], 0)"
    by (simp add: tree_branch_def tree_index_def)
  show r: "tree_hash [replicate 32 1, replicate 32 2] = Some (cn_fast_hash (replicate 32 1 @ replicate 32 2))"
    by (simp add: tree_hash_def)
  show "(replicate 32 1, replicate 32 2) \<in> {(h', b). length h' = 32 \<and> length b = 32 \<and>
      is_branch_in_tree h' (cn_fast_hash (replicate 32 1 @ replicate 32 2)) [b] 0}"
    by (simp add: is_branch_in_tree_def tree_branch_hash_def branch_buffer_def)
  have "h' @ b' \<noteq> replicate 32 1 @ replicate 32 2 \<and> cn_fast_hash (h' @ b') = cn_fast_hash (replicate 32 1 @ replicate 32 2)"
    if "length h' = 32" "length b' = 32" "is_branch_in_tree h' (cn_fast_hash (replicate 32 1 @ replicate 32 2)) [b'] 0"
      "(h', b') \<noteq> (replicate 32 1, replicate 32 2)" for h' b'
    using tree_branch_binding [OF _ _ _ b r that(3)] that
    by (auto simp: branch_collision_def branch_partial_def branch_buffer_def)
  then show "{(h', b). length h' = 32 \<and> length b = 32 \<and> is_branch_in_tree h' (cn_fast_hash (replicate 32 1 @ replicate 32 2)) [b] 0} -
     {(replicate 32 1, replicate 32 2)} \<subseteq>
   {(h', b). h' @ b \<noteq> replicate 32 1 @ replicate 32 2 \<and> cn_fast_hash (h' @ b) = cn_fast_hash (replicate 32 1 @ replicate 32 2)}"
    by blast
qed

end
