(* ===== verification/HardFork.thy ===== *)
theory HardFork
  imports Prelude "HOL-Library.Multiset"
begin

text \<open>
  The hard fork voting of \<open>src/cryptonote_basic/hardfork.cpp\<close> as a state machine.  The object and the part of the database
  that it reads and writes are one record: the blocks by height, of which only the two version bytes matter, and the table of
  hard fork versions.  A raised exception, a failed assertion and an access out of range are the value \<open>None\<close>; the lock and
  the database transactions have no counterpart.  Counters and heights keep their width.
\<close>

subsection \<open>State\<close>

record hardfork_t =
  fork_version :: u8
  fork_height :: u64
  fork_threshold :: u8
  fork_time :: int

record hf_block =
  major_version :: u8
  minor_version :: u8

record hard_fork =
  db_blocks :: "hf_block list"
  db_versions :: "u64 \<rightharpoonup> u8"
  forked_time :: int
  update_time :: int
  window_size :: u64
  default_threshold_percent :: u8
  original_version :: u8
  original_version_till_height :: u64
  heights :: "hardfork_t list"
  versions :: "u8 list"
  last_versions :: "u8 \<Rightarrow> u32"
  current_fork_index :: u32

datatype fork_state = LikelyForked | UpdateNeeded | Ready

definition db_height :: "hard_fork \<Rightarrow> u64" where
  "db_height s = of_nat (length (db_blocks s))"

definition get_block_from_height :: "hard_fork \<Rightarrow> u64 \<Rightarrow> hf_block option" where
  "get_block_from_height s h = (if unat h < length (db_blocks s) then Some (db_blocks s ! unat h) else None)"

definition get_block_vote :: "hf_block \<Rightarrow> u8" where
  "get_block_vote b = (if minor_version b = 0 then 1 else minor_version b)"

definition get_block_version :: "hf_block \<Rightarrow> u8" where
  "get_block_version b = major_version b"

text \<open>The constructor, for a given database; it leaves the counters as the memory \<open>lv\<close> has them.\<close>

definition HardFork_new :: "(u8 \<Rightarrow> u32) \<Rightarrow> hf_block list \<Rightarrow> (u64 \<rightharpoonup> u8) \<Rightarrow> u8 \<Rightarrow> u64 \<Rightarrow> int \<Rightarrow> int \<Rightarrow> u64 \<Rightarrow> u8 \<Rightarrow> hard_fork option" where
  "HardFork_new lv blocks vs orig till forked update window threshold =
    (if window = 0 then None
     else if threshold > 100 then None
     else Some \<lparr>db_blocks = blocks, db_versions = vs, forked_time = forked, update_time = update, window_size = window,
       default_threshold_percent = threshold, original_version = orig, original_version_till_height = till, heights = [],
       versions = [], last_versions = lv, current_fork_index = 0\<rparr>)"

subsection \<open>The schedule\<close>

definition add_fork :: "u8 \<Rightarrow> u64 \<Rightarrow> u8 \<Rightarrow> int \<Rightarrow> hard_fork \<Rightarrow> bool \<times> hard_fork" where
  "add_fork version height threshold time s =
    (if version = 0 then (False, s)
     else if heights s \<noteq> [] \<and> version \<le> fork_version (last (heights s)) then (False, s)
     else if heights s \<noteq> [] \<and> height \<le> fork_height (last (heights s)) then (False, s)
     else if heights s \<noteq> [] \<and> time \<le> fork_time (last (heights s)) then (False, s)
     else if threshold > 100 then (False, s)
     else (True, s\<lparr>heights := heights s @
       [\<lparr>fork_version = version, fork_height = height, fork_threshold = threshold, fork_time = time\<rparr>]\<rparr>))"

definition add_fork_default :: "u8 \<Rightarrow> u64 \<Rightarrow> int \<Rightarrow> hard_fork \<Rightarrow> bool \<times> hard_fork" where
  "add_fork_default version height time s = add_fork version height (default_threshold_percent s) time s"

definition get_effective_version :: "hard_fork \<Rightarrow> u8 \<Rightarrow> u8" where
  "get_effective_version s voting_version =
    (if heights s \<noteq> []
     then let max_version = fork_version (last (heights s)) in if voting_version > max_version then max_version else voting_version
     else voting_version)"

text \<open>An entry of the schedule by index.\<close>

definition fork_at :: "hard_fork \<Rightarrow> u32 \<Rightarrow> hardfork_t option" where
  "fork_at s i = (if unat i < length (heights s) then Some (heights s ! unat i) else None)"

subsection \<open>Votes\<close>

definition votes_needed :: "u64 \<Rightarrow> u8 \<Rightarrow> u32" where
  "votes_needed window threshold = ucast ((window * ucast threshold + 99) div 100)"

fun voted_loop :: "hard_fork \<Rightarrow> u64 \<Rightarrow> nat \<Rightarrow> u32 \<Rightarrow> u32" where
  "voted_loop s height 0 accumulated_votes = current_fork_index s"
| "voted_loop s height (Suc n) accumulated_votes =
    (let f = heights s ! n; accumulated_votes = accumulated_votes + last_versions s (fork_version f)
     in if height \<ge> fork_height f \<and> accumulated_votes \<ge> votes_needed (window_size s) (fork_threshold f)
        then of_nat n
        else voted_loop s height n accumulated_votes)"

definition get_voted_fork_index :: "hard_fork \<Rightarrow> u64 \<Rightarrow> u32" where
  "get_voted_fork_index s height = voted_loop s height (length (heights s)) 0"

definition do_check :: "hard_fork \<Rightarrow> u8 \<Rightarrow> u8 \<Rightarrow> bool option" where
  "do_check s block_version voting_version = do {
    f \<leftarrow> fork_at s (current_fork_index s);
    Some (block_version = fork_version f \<and> voting_version \<ge> fork_version f) }"

definition check :: "hard_fork \<Rightarrow> hf_block \<Rightarrow> bool option" where
  "check s b = do_check s (get_block_version b) (get_block_vote b)"

definition do_check_for_height :: "hard_fork \<Rightarrow> u8 \<Rightarrow> u8 \<Rightarrow> u64 \<Rightarrow> bool option" where
  "do_check_for_height s block_version voting_version height = do {
    f \<leftarrow> fork_at s (get_voted_fork_index s height);
    Some (block_version = fork_version f \<and> voting_version \<ge> fork_version f) }"

definition check_for_height :: "hard_fork \<Rightarrow> hf_block \<Rightarrow> u64 \<Rightarrow> bool option" where
  "check_for_height s b height = do_check_for_height s (get_block_version b) (get_block_vote b) height"

text \<open>The votes that leave the window; the loop ends because the list shrinks.\<close>

fun trim_votes :: "u64 \<Rightarrow> u8 list \<Rightarrow> (u8 \<Rightarrow> u32) \<Rightarrow> (u8 list \<times> (u8 \<Rightarrow> u32)) option" where
  "trim_votes window [] lv = (if window = 0 then None else Some ([], lv))"
| "trim_votes window (v # vs) lv =
    (if unat window \<le> Suc (length vs)
     then if lv v \<ge> 1 then trim_votes window vs (lv(v := lv v - 1)) else None
     else Some (v # vs, lv))"

definition push_vote :: "u8 \<Rightarrow> hard_fork \<Rightarrow> hard_fork" where
  "push_vote v s = s\<lparr>versions := versions s @ [v], last_versions := (last_versions s)(v := last_versions s v + 1)\<rparr>"

text \<open>Move to the fork that has been voted; the index passes through an 8 bit variable.\<close>

definition apply_votes :: "u64 \<Rightarrow> hard_fork \<Rightarrow> hard_fork" where
  "apply_votes height s =
    (let voted = ucast (get_voted_fork_index s height) :: u8
     in if (ucast voted :: u32) > current_fork_index s then s\<lparr>current_fork_index := ucast voted\<rparr> else s)"

definition add_version :: "u8 \<Rightarrow> u8 \<Rightarrow> u64 \<Rightarrow> hard_fork \<Rightarrow> (bool \<times> hard_fork) option" where
  "add_version block_version voting_version height s = do {
    ok \<leftarrow> do_check s block_version voting_version;
    if \<not> ok then Some (False, s)
    else do {
      f \<leftarrow> fork_at s (current_fork_index s);
      let s = s\<lparr>db_versions := (db_versions s)(height \<mapsto> fork_version f)\<rparr>;
      let voting_version = get_effective_version s voting_version;
      (vs, lv) \<leftarrow> trim_votes (window_size s) (versions s) (last_versions s);
      let s = s\<lparr>versions := vs, last_versions := lv\<rparr>;
      let s = push_vote voting_version s;
      Some (True, apply_votes (height + 1) s) } }"

definition add :: "hf_block \<Rightarrow> u64 \<Rightarrow> hard_fork \<Rightarrow> (bool \<times> hard_fork) option" where
  "add b height s = add_version (get_block_version b) (get_block_vote b) height s"

subsection \<open>Following the chain\<close>

definition clear_votes :: "hard_fork \<Rightarrow> hard_fork" where
  "clear_votes s = s\<lparr>versions := [], last_versions := (\<lambda>_. 0)\<rparr>"

text \<open>Read the votes of the blocks from height \<open>h\<close> on, \<open>n\<close> of them.\<close>

fun scan_votes :: "u64 \<Rightarrow> nat \<Rightarrow> hard_fork \<Rightarrow> hard_fork option" where
  "scan_votes h 0 s = Some s"
| "scan_votes h (Suc n) s = do {
    b \<leftarrow> get_block_from_height s h;
    scan_votes (h + 1) n (push_vote (get_effective_version s (get_block_vote b)) s) }"

text \<open>The index of the fork whose version the last block has, or the last index.\<close>

function find_fork :: "hard_fork \<Rightarrow> u8 \<Rightarrow> nat \<Rightarrow> nat" where
  "find_fork s lastv i =
    (if i + 1 < length (heights s) \<and> fork_version (heights s ! i) \<noteq> lastv then find_fork s lastv (i + 1) else i)"
  by pat_completeness auto

termination by (relation "measure (\<lambda>(s, v, i). length (heights s) - i)") auto

declare find_fork.simps [simp del]

definition rescan_from_block_height :: "u64 \<Rightarrow> hard_fork \<Rightarrow> (bool \<times> hard_fork) option" where
  "rescan_from_block_height height s =
    (if height \<ge> db_height s then Some (False, s)
     else do {
       s \<leftarrow> scan_votes height (unat (db_height s) - unat height) (clear_votes s);
       lastv \<leftarrow> db_versions s (db_height s - 1);
       let s = s\<lparr>current_fork_index := of_nat (find_fork s lastv 0)\<rparr>;
       Some (True, apply_votes (db_height s) s) })"

definition rescan_from_chain_height :: "u64 \<Rightarrow> hard_fork \<Rightarrow> (bool \<times> hard_fork) option" where
  "rescan_from_chain_height height s = (if height = 0 then Some (False, s) else rescan_from_block_height (height - 1) s)"

definition init :: "hard_fork \<Rightarrow> hard_fork option" where
  "init s = do {
    let s = (if heights s = []
             then s\<lparr>heights := [\<lparr>fork_version = original_version s, fork_height = 0, fork_threshold = 0, fork_time = 0\<rparr>]\<rparr>
             else s);
    let s = (clear_votes s)\<lparr>current_fork_index := 0\<rparr>;
    let height = db_height s;
    let height = (if height > window_size s then height - (window_size s - 1) else 1);
    (r, s) \<leftarrow> rescan_from_chain_height height s;
    Some s }"

definition get_block_version_at :: "hard_fork \<Rightarrow> u64 \<Rightarrow> u8 option" where
  "get_block_version_at s height =
    (if height \<le> original_version_till_height s then Some (original_version s)
     else do { b \<leftarrow> get_block_from_height s height; Some (get_block_version b) })"

text \<open>Step the index back while its version is above that of the start.\<close>

fun step_back :: "hard_fork \<Rightarrow> u8 \<Rightarrow> nat \<Rightarrow> nat" where
  "step_back s start_version 0 = 0"
| "step_back s start_version (Suc i) =
    (if fork_version (heights s ! Suc i) > start_version then step_back s start_version i else Suc i)"

text \<open>Add the blocks from height \<open>h\<close> on, \<open>n\<close> of them; the answers of \<open>add\<close> are not looked at.\<close>

fun add_blocks :: "u64 \<Rightarrow> nat \<Rightarrow> hard_fork \<Rightarrow> hard_fork option" where
  "add_blocks h 0 s = Some s"
| "add_blocks h (Suc n) s = do {
    b \<leftarrow> get_block_from_height s h;
    (r, s) \<leftarrow> add b h s;
    add_blocks (h + 1) n s }"

definition reorganize_from_block_height :: "u64 \<Rightarrow> hard_fork \<Rightarrow> (bool \<times> hard_fork) option" where
  "reorganize_from_block_height height s =
    (if height \<ge> db_height s then Some (False, s)
     else do {
       let s = clear_votes s;
       let rescan_height = (if height \<ge> window_size s - 1 then height - (window_size s - 1) else 0);
       start_version \<leftarrow> (if height = 0 then Some (original_version s) else db_versions s height);
       s \<leftarrow> (if current_fork_index s > 0 \<and> unat (current_fork_index s) \<ge> length (heights s) then None
            else Some (s\<lparr>current_fork_index := of_nat (step_back s start_version (unat (current_fork_index s)))\<rparr>));
       s \<leftarrow> scan_votes rescan_height (unat height + 1 - unat rescan_height) s;
       let s = apply_votes (height + 1) s;
       s \<leftarrow> add_blocks (height + 1) (unat (db_height s) - (unat height + 1)) s;
       Some (True, s) })"

definition reorganize_from_chain_height :: "u64 \<Rightarrow> hard_fork \<Rightarrow> (bool \<times> hard_fork) option" where
  "reorganize_from_chain_height height s = (if height = 0 then Some (False, s) else reorganize_from_block_height (height - 1) s)"

text \<open>
  Popped blocks: for every height from the top down, the last vote leaves the window and the version of that height enters
  it at the front.  The loop counts an unsigned height down to the new height of the chain, so it has no end when that is 0.
\<close>

definition pop_vote :: "u64 \<Rightarrow> hard_fork \<Rightarrow> hard_fork option" where
  "pop_vote height s =
    (if versions s = [] then None
     else do {
       let v = last (versions s);
       let s = s\<lparr>last_versions := (last_versions s)(v := last_versions s v - 1), versions := butlast (versions s)\<rparr>;
       w \<leftarrow> db_versions s height;
       Some (s\<lparr>versions := w # versions s, last_versions := (last_versions s)(w := last_versions s w + 1)\<rparr>) })"

fun fork_by_height :: "hard_fork \<Rightarrow> u64 \<Rightarrow> nat \<Rightarrow> nat" where
  "fork_by_height s height 0 = 0"
| "fork_by_height s height (Suc i) =
    (if height \<ge> fork_height (heights s ! Suc i) then Suc i else fork_by_height s height i)"

definition on_block_popped :: "u64 \<Rightarrow> hard_fork \<Rightarrow> hard_fork option" where
  "on_block_popped nblocks s =
    (if nblocks = 0 then None
     else do {
       let new_chain_height = db_height s;
       let old_chain_height = new_chain_height + nblocks;
       s \<leftarrow> (if new_chain_height = 0 then None
            else opt_fold pop_vote (map of_nat (rev [unat new_chain_height..<Suc (unat (old_chain_height - 1))])) s);
       if heights s = [] then None
       else Some (s\<lparr>current_fork_index := of_nat (fork_by_height s new_chain_height (length (heights s) - 1))\<rparr>) })"

subsection \<open>Queries\<close>

definition get_state :: "hard_fork \<Rightarrow> int \<Rightarrow> fork_state" where
  "get_state s t =
    (if length (heights s) \<le> 1 then Ready
     else let t_last_fork = fork_time (last (heights s))
          in if t \<ge> t_last_fork + forked_time s then LikelyForked
             else if t \<ge> t_last_fork + update_time s then UpdateNeeded
             else Ready)"

definition get_current_version :: "hard_fork \<Rightarrow> u8 option" where
  "get_current_version s = do { f \<leftarrow> fork_at s (current_fork_index s); Some (fork_version f) }"

text \<open>Asking for a height above the chain fails an assertion.\<close>

definition get :: "hard_fork \<Rightarrow> u64 \<Rightarrow> u8 option" where
  "get s height =
    (if height > db_height s then None
     else if height = db_height s then get_current_version s
     else db_versions s height)"

definition get_ideal_version :: "hard_fork \<Rightarrow> u8 option" where
  "get_ideal_version s = (if heights s = [] then None else Some (fork_version (last (heights s))))"

fun ideal_loop :: "hard_fork \<Rightarrow> u64 \<Rightarrow> nat \<Rightarrow> u8" where
  "ideal_loop s height 0 = original_version s"
| "ideal_loop s height (Suc n) =
    (if height \<ge> fork_height (heights s ! Suc n) then fork_version (heights s ! Suc n) else ideal_loop s height n)"

definition get_ideal_version_at :: "hard_fork \<Rightarrow> u64 \<Rightarrow> u8 option" where
  "get_ideal_version_at s height = (if heights s = [] then None else Some (ideal_loop s height (length (heights s) - 1)))"

definition get_earliest_ideal_height_for_version :: "hard_fork \<Rightarrow> u8 \<Rightarrow> u64" where
  "get_earliest_ideal_height_for_version s version =
    (case takeWhile (\<lambda>f. fork_version f \<ge> version) (rev (heights s)) of
       [] \<Rightarrow> - 1
     | fs \<Rightarrow> fork_height (last fs))"

fun next_loop :: "hard_fork \<Rightarrow> u64 \<Rightarrow> nat \<Rightarrow> u8" where
  "next_loop s height 0 = original_version s"
| "next_loop s height (Suc n) =
    (if height \<ge> fork_height (heights s ! n)
     then fork_version (heights s ! (if Suc n = length (heights s) then n else Suc n))
     else next_loop s height n)"

definition get_next_version :: "hard_fork \<Rightarrow> u8" where
  "get_next_version s = next_loop s (db_height s) (length (heights s))"

text \<open>Whether a version is enabled, with the window, the votes for it or above, the threshold, the earliest height and the
  version voted for.\<close>

definition get_voting_info :: "hard_fork \<Rightarrow> u8 \<Rightarrow> (bool \<times> u32 \<times> u32 \<times> u32 \<times> u64 \<times> u8) option" where
  "get_voting_info s version = do {
    f \<leftarrow> fork_at s (current_fork_index s);
    let window = (of_nat (length (versions s)) :: u32);
    let votes = fold (\<lambda>n votes. votes + last_versions s (of_nat n)) [unat version..<256] 0;
    let threshold = (window * ucast (fork_threshold f) + 99) div 100;
    Some (fork_version f \<ge> version, window, votes, threshold, get_earliest_ideal_height_for_version s version,
      fork_version (last (heights s))) }"


section \<open>The invariant\<close>

text \<open>The schedule ascends in version, height and time, and no threshold is above 100 percent.\<close>

definition fork_before :: "hardfork_t \<Rightarrow> hardfork_t \<Rightarrow> bool" where
  "fork_before f g \<longleftrightarrow> fork_version f < fork_version g \<and> fork_height f < fork_height g \<and> fork_time f < fork_time g"

definition schedule_ok :: "hardfork_t list \<Rightarrow> bool" where
  "schedule_ok fs \<longleftrightarrow> sorted_wrt fork_before fs \<and> (\<forall>f \<in> set fs. fork_threshold f \<le> 100)"

text \<open>The counters count the votes of the window.\<close>

definition counts :: "u8 list \<Rightarrow> (u8 \<Rightarrow> u32) \<Rightarrow> bool" where
  "counts vs lv \<longleftrightarrow> (\<forall>v. unat (lv v) = count_list vs v)"

definition config_ok :: "hard_fork \<Rightarrow> bool" where
  "config_ok s \<longleftrightarrow> schedule_ok (heights s) \<and> 0 < unat (window_size s) \<and> unat (window_size s) < 2 ^ 32 \<and>
    default_threshold_percent s \<le> 100 \<and> length (db_blocks s) < 2 ^ 64"

definition hf_inv :: "hard_fork \<Rightarrow> bool" where
  "hf_inv s \<longleftrightarrow> config_ok s \<and> heights s \<noteq> [] \<and> unat (current_fork_index s) < length (heights s) \<and>
    counts (versions s) (last_versions s) \<and> length (versions s) \<le> unat (window_size s)"

subsection \<open>Counting votes\<close>

lemma counts_Nil [simp]: "counts [] (\<lambda>_. 0)"
  by (simp add: counts_def)

lemma unat_succ_32: "unat (x :: u32) + 1 < 2 ^ 32 \<Longrightarrow> unat (x + 1) = unat x + 1"
  by (simp add: unat_word_ariths)

lemma unat_pred_32: "unat (x :: u32) > 0 \<Longrightarrow> unat (x - 1) = unat x - 1"
  by (simp add: unat_sub_if_size word_less_nat_alt Suc_leI)

lemma count_list_le_length: "count_list xs x \<le> length xs"
  by (induction xs) auto

lemma counts_snoc:
  assumes "counts vs lv" "length vs + 1 < 2 ^ 32"
  shows "counts (vs @ [v]) (lv(v := lv v + 1))"
proof -
  have "unat (lv v + 1) = unat (lv v) + 1"
    using assms count_list_le_length [of vs v] by (intro unat_succ_32) (simp add: counts_def)
  with assms show ?thesis by (auto simp: counts_def)
qed

lemma counts_Cons:
  assumes "counts vs lv" "length vs + 1 < 2 ^ 32"
  shows "counts (v # vs) (lv(v := lv v + 1))"
  using counts_snoc [OF assms] by (auto simp: counts_def)

lemma counts_tl:
  assumes "counts (v # vs) lv"
  shows "lv v \<ge> 1" "counts vs (lv(v := lv v - 1))"
proof -
  have u: "unat (lv v) = count_list vs v + 1" using assms by (simp add: counts_def)
  then show "lv v \<ge> 1" by (simp add: word_le_nat_alt)
  have "unat (lv v - 1) = count_list vs v" using u unat_pred_32 [of "lv v"] by simp
  with assms show "counts vs (lv(v := lv v - 1))" by (auto simp: counts_def split: if_splits)
qed

lemma counts_butlast:
  assumes "counts vs lv" "vs \<noteq> []"
  shows "counts (butlast vs) (lv(last vs := lv (last vs) - 1))"
proof -
  have "count_list vs v = count_list (last vs # butlast vs) v" for v
  proof -
    have "count_list (butlast vs @ [last vs]) v = count_list (last vs # butlast vs) v" by simp
    with assms(2) show ?thesis by simp
  qed
  with assms(1) have "counts (last vs # butlast vs) lv" by (simp only: counts_def) simp
  then show ?thesis by (rule counts_tl)
qed

text \<open>Trimming never fails its assertion and leaves room for exactly one vote.\<close>

lemma trim_votes_spec:
  assumes "counts vs lv" "0 < unat w"
  shows "\<exists>lv'. trim_votes w vs lv = Some (drop (Suc (length vs) - unat w) vs, lv') \<and>
    counts (drop (Suc (length vs) - unat w) vs) lv'"
  using assms
proof (induction vs arbitrary: lv)
  case Nil
  then show ?case by (auto simp: word_less_nat_alt)
next
  case (Cons v vs)
  show ?case
  proof (cases "unat w \<le> Suc (length vs)")
    case True
    then have "drop (Suc (length (v # vs)) - unat w) (v # vs) = drop (Suc (length vs) - unat w) vs"
      by (simp add: Suc_diff_le)
    with True Cons.IH [OF counts_tl(2) [OF Cons.prems(1)] Cons.prems(2)] counts_tl(1) [OF Cons.prems(1)]
    show ?thesis by (simp add: fun_upd_def)
  next
    case False
    with Cons.prems show ?thesis by auto
  qed
qed

subsection \<open>The schedule\<close>

lemma schedule_ok_less:
  assumes "schedule_ok fs" "i < j" "j < length fs"
  shows "fork_version (fs ! i) < fork_version (fs ! j)" "fork_height (fs ! i) < fork_height (fs ! j)"
  using assms by (auto simp: schedule_ok_def sorted_wrt_iff_nth_less fork_before_def)

lemma schedule_ok_le:
  assumes "schedule_ok fs" "i \<le> j" "j < length fs"
  shows "fork_version (fs ! i) \<le> fork_version (fs ! j)"
  using schedule_ok_less(1) [OF assms(1), of i j] assms by (cases "i = j") auto

lemma schedule_ok_distinct:
  assumes "schedule_ok fs"
  shows "distinct (map fork_version fs)"
  unfolding distinct_conv_nth length_map
proof (intro allI impI)
  fix i j assume ij: "i < length fs" "j < length fs" "i \<noteq> j"
  consider "i < j" | "j < i" using ij(3) by linarith
  then have "fork_version (fs ! i) \<noteq> fork_version (fs ! j)"
    using schedule_ok_less(1) [OF assms, of i j] schedule_ok_less(1) [OF assms, of j i] ij by cases auto
  then show "map fork_version fs ! i \<noteq> map fork_version fs ! j" using ij by simp
qed

lemma card_u8: "card (UNIV :: u8 set) = 256"
  by (simp add: card_word)

lemma schedule_ok_length:
  assumes "schedule_ok fs"
  shows "length fs \<le> 256"
proof -
  have "length fs = card (fork_version ` set fs)"
    using distinct_card [OF schedule_ok_distinct [OF assms]] by simp
  also have "\<dots> \<le> card (UNIV :: u8 set)" by (intro card_mono) auto
  finally show ?thesis by (simp only: card_u8)
qed

lemma schedule_ok_snoc:
  assumes "schedule_ok fs" "fs \<noteq> [] \<Longrightarrow> fork_before (last fs) f" "fork_threshold f \<le> 100"
  shows "schedule_ok (fs @ [f])"
proof -
  have "fork_before g f" if "g \<in> set fs" for g
  proof -
    from that obtain i where i: "i < length fs" "g = fs ! i" by (auto simp: in_set_conv_nth)
    have l: "last fs = fs ! (length fs - 1)" using i by (intro last_conv_nth) auto
    have ne: "fs \<noteq> []" using i by auto
    show ?thesis
    proof (cases "i = length fs - 1")
      case True with i l assms(2) [OF ne] show ?thesis by simp
    next
      case False
      with i have "fork_before g (last fs)"
        using assms(1) by (auto simp: schedule_ok_def sorted_wrt_iff_nth_less l)
      with assms(2) [OF ne] show ?thesis by (auto simp: fork_before_def)
    qed
  qed
  with assms show ?thesis by (auto simp: schedule_ok_def sorted_wrt_append)
qed

lemma last_heights:
  assumes "hf_inv s"
  shows "last (heights s) = heights s ! (length (heights s) - 1)"
  using assms by (intro last_conv_nth) (simp add: hf_inv_def)

lemma fork_at_current:
  assumes "hf_inv s"
  shows "fork_at s (current_fork_index s) = Some (heights s ! unat (current_fork_index s))"
  using assms by (simp add: hf_inv_def fork_at_def)

lemma get_current_version_inv:
  assumes "hf_inv s"
  shows "get_current_version s = Some (fork_version (heights s ! unat (current_fork_index s)))"
  using assms by (simp add: get_current_version_def fork_at_current)


subsection \<open>The voted fork\<close>

text \<open>
  The votes for a fork: those in the window for its version or for the version of a later fork.  A fork is voted at a height
  when its own height is reached and its share of the window is.
\<close>

definition fork_votes :: "hard_fork \<Rightarrow> nat \<Rightarrow> nat" where
  "fork_votes s n = length (filter (\<lambda>v. v \<in> fork_version ` set (drop n (heights s))) (versions s))"

definition fork_voted :: "hard_fork \<Rightarrow> u64 \<Rightarrow> nat \<Rightarrow> bool" where
  "fork_voted s height n \<longleftrightarrow> n < length (heights s) \<and> fork_height (heights s ! n) \<le> height \<and>
    unat (window_size s) * unat (fork_threshold (heights s ! n)) \<le> 100 * fork_votes s n"

lemma length_filter_insert:
  "a \<notin> A \<Longrightarrow> length (filter (\<lambda>v. v = a \<or> v \<in> A) vs) = count_list vs a + length (filter (\<lambda>v. v \<in> A) vs)"
  by (induction vs) auto

lemma fork_votes_Suc:
  assumes "schedule_ok (heights s)" "n < length (heights s)"
  shows "fork_votes s n = count_list (versions s) (fork_version (heights s ! n)) + fork_votes s (Suc n)"
proof -
  have d: "drop n (heights s) = heights s ! n # drop (Suc n) (heights s)"
    using assms(2) by (simp add: Cons_nth_drop_Suc)
  have "distinct (map fork_version (drop n (heights s)))"
    using schedule_ok_distinct [OF assms(1)] by (simp add: drop_map [symmetric])
  then have "fork_version (heights s ! n) \<notin> fork_version ` set (drop (Suc n) (heights s))" by (simp add: d)
  from length_filter_insert [OF this, of "versions s"] show ?thesis by (simp add: fork_votes_def d)
qed

lemma fork_votes_le: "fork_votes s n \<le> length (versions s)"
  by (simp add: fork_votes_def)

lemma votes_needed_spec:
  assumes "unat w < 2 ^ 32" "t \<le> 100" "unat a = k"
  shows "votes_needed w t \<le> a \<longleftrightarrow> unat w * unat t \<le> 100 * k"
proof -
  have t: "unat t \<le> 100" using assms(2) by (simp add: word_le_nat_alt)
  have b: "unat w * unat t \<le> 2 ^ 32 * 100" using assms(1) t by (intro mult_mono) auto
  have u: "unat (ucast t :: u64) = unat t" using t by (simp add: unsigned_ucast_eq take_bit_nat_eq_self)
  have e: "unat (w * ucast t + 99) = unat w * unat t + 99"
    using b by (simp add: unat_word_ariths u)
  have "unat ((w * ucast t + 99) div 100) = (unat w * unat t + 99) div 100"
    by (simp add: unat_div e)
  moreover have "(unat w * unat t + 99) div 100 < 2 ^ 32 \<or> unat w * unat t \<le> 2 ^ 32 * 100" using b by blast
  moreover have "(unat w * unat t + 99) div 100 < 2 ^ 32"
  proof -
    have "unat w * unat t \<le> (2 ^ 32 - 1) * 100" using assms(1) t by (intro mult_mono) auto
    then show ?thesis by simp
  qed
  ultimately have "unat (votes_needed w t) = (unat w * unat t + 99) div 100"
    by (simp add: votes_needed_def unsigned_ucast_eq take_bit_nat_eq_self)
  then have "votes_needed w t \<le> a \<longleftrightarrow> (unat w * unat t + 99) div 100 \<le> k"
    by (simp add: word_le_nat_alt assms(3))
  also have "\<dots> \<longleftrightarrow> unat w * unat t \<le> 100 * k" by linarith
  finally show ?thesis .
qed

definition voted_result :: "hard_fork \<Rightarrow> u64 \<Rightarrow> nat \<Rightarrow> u32 \<Rightarrow> bool" where
  "voted_result s height n r \<longleftrightarrow>
    (r = current_fork_index s \<and> (\<forall>m < n. \<not> fork_voted s height m)) \<or>
    (\<exists>m < n. r = of_nat m \<and> fork_voted s height m \<and> (\<forall>k < n. fork_voted s height k \<longrightarrow> k \<le> m))"

lemma voted_loop_result:
  assumes "config_ok s" "counts (versions s) (last_versions s)" "length (versions s) < 2 ^ 32"
  shows "n \<le> length (heights s) \<Longrightarrow> unat acc = fork_votes s n \<Longrightarrow> voted_result s height n (voted_loop s height n acc)"
proof (induction n arbitrary: acc)
  case 0
  then show ?case by (simp add: voted_result_def)
next
  case (Suc n)
  let ?f = "heights s ! n" and ?acc = "acc + last_versions s (fork_version (heights s ! n))"
  have ok: "schedule_ok (heights s)" "unat (window_size s) < 2 ^ 32" using assms(1) by (simp_all add: config_ok_def)
  have v: "fork_votes s n = unat (last_versions s (fork_version ?f)) + fork_votes s (Suc n)"
    using fork_votes_Suc [OF ok(1), of n] Suc.prems(1) assms(2) by (simp add: counts_def)
  have "fork_votes s n < 2 ^ 32" using fork_votes_le [of s n] assms(3) by linarith
  then have a: "unat ?acc = fork_votes s n" using v Suc.prems(2) by (simp add: unat_word_ariths)
  have "fork_threshold ?f \<le> 100" using ok(1) Suc.prems(1) by (simp add: schedule_ok_def)
  then have r: "fork_height ?f \<le> height \<and> votes_needed (window_size s) (fork_threshold ?f) \<le> ?acc \<longleftrightarrow> fork_voted s height n"
    using votes_needed_spec [OF ok(2) _ a] Suc.prems(1) by (auto simp: fork_voted_def)
  show ?case
  proof (cases "fork_voted s height n")
    case True
    with r show ?thesis by (auto simp: voted_result_def Let_def less_Suc_eq)
  next
    case False
    have "voted_result s height n (voted_loop s height n ?acc)" using Suc.IH [OF _ a] Suc.prems(1) by simp
    with False r show ?thesis by (auto simp: voted_result_def Let_def less_Suc_eq)
  qed
qed

lemma get_voted_fork_index_result:
  assumes "config_ok s" "counts (versions s) (last_versions s)" "length (versions s) < 2 ^ 32"
  shows "voted_result s height (length (heights s)) (get_voted_fork_index s height)"
  unfolding get_voted_fork_index_def
  by (rule voted_loop_result [OF assms]) (simp_all add: fork_votes_def)

text \<open>The index that the votes lead to: the highest fork that is voted, if it is above the current one.\<close>

definition target_index :: "hard_fork \<Rightarrow> u64 \<Rightarrow> nat" where
  "target_index s height = Max (insert (unat (current_fork_index s)) {n. fork_voted s height n})"

lemma finite_fork_voted [simp]: "finite {n. fork_voted s height n}"
  by (rule finite_subset [of _ "{..< length (heights s)}"]) (auto simp: fork_voted_def)

lemma target_index_less:
  assumes "unat (current_fork_index s) < length (heights s)"
  shows "target_index s height < length (heights s)"
  using assms by (auto simp: target_index_def fork_voted_def)

lemma target_index_ge: "unat (current_fork_index s) \<le> target_index s height"
  by (simp add: target_index_def)

lemma target_index_voted: "fork_voted s height n \<Longrightarrow> n \<le> target_index s height"
  by (simp add: target_index_def)

lemma unat_of_nat_32: "n < 2 ^ 32 \<Longrightarrow> unat (of_nat n :: u32) = n"
  by (simp add: unat_of_nat take_bit_nat_eq_self)

lemma ucast_8_32:
  assumes "unat (x :: u32) < 256"
  shows "(ucast (ucast x :: u8) :: u32) = x"
  by (rule word_eq_unatI) (use assms in \<open>simp add: unsigned_ucast_eq unsigned_take_bit_eq take_bit_nat_eq_self\<close>)

lemma apply_votes_spec:
  assumes "config_ok s" "counts (versions s) (last_versions s)" "length (versions s) < 2 ^ 32"
    and "unat (current_fork_index s) < length (heights s)"
  shows "apply_votes height s = s\<lparr>current_fork_index := of_nat (target_index s height)\<rparr>"
proof -
  let ?r = "get_voted_fork_index s height" and ?c = "current_fork_index s"
  have len: "length (heights s) \<le> 256" using assms(1) by (simp add: config_ok_def schedule_ok_length)
  from get_voted_fork_index_result [OF assms(1-3), of height]
  consider (none) "?r = ?c" "\<forall>m < length (heights s). \<not> fork_voted s height m"
    | (some) m where "m < length (heights s)" "?r = of_nat m" "fork_voted s height m"
        "\<forall>k < length (heights s). fork_voted s height k \<longrightarrow> k \<le> m"
    unfolding voted_result_def by blast
  then show ?thesis
  proof cases
    case none
    then have "{n. fork_voted s height n} = {}" by (auto simp: fork_voted_def)
    then have "target_index s height = unat ?c" by (simp add: target_index_def)
    moreover have "(ucast (ucast ?r :: u8) :: u32) = ?c" using assms(4) len none(1) by (simp add: ucast_8_32)
    ultimately show ?thesis by (simp add: apply_votes_def)
  next
    case some
    then have u: "unat ?r = m" using len by (simp add: unat_of_nat_32)
    have c: "(ucast (ucast ?r :: u8) :: u32) = ?r" by (rule ucast_8_32) (use some(1) u len in linarith)
    have "Max {n. fork_voted s height n} = m"
      using some by (intro Max_eqI) (auto simp: fork_voted_def)
    then have "target_index s height = max (unat ?c) m"
      using some(3) by (auto simp: target_index_def intro: Max_insert)
    moreover have "apply_votes height s = (if ?c < ?r then s\<lparr>current_fork_index := ?r\<rparr> else s)"
      by (simp only: apply_votes_def Let_def c)
    ultimately show ?thesis using u some(2) by (cases "unat ?c < m") (auto simp: word_less_nat_alt max_def)
  qed
qed

subsection \<open>Adding a block\<close>

text \<open>A block is accepted when it has the current version and votes for no lower one.\<close>

definition accepted :: "hard_fork \<Rightarrow> hf_block \<Rightarrow> bool" where
  "accepted s b \<longleftrightarrow> (let v = fork_version (heights s ! unat (current_fork_index s)) in get_block_version b = v \<and> get_block_vote b \<ge> v)"

text \<open>The window after a vote: the last votes, as many as fit.\<close>

definition window_after :: "hard_fork \<Rightarrow> hf_block \<Rightarrow> u8 list" where
  "window_after s b = drop (Suc (length (versions s)) - unat (window_size s)) (versions s) @ [get_effective_version s (get_block_vote b)]"

definition after_vote :: "hard_fork \<Rightarrow> hf_block \<Rightarrow> u64 \<Rightarrow> (u8 \<Rightarrow> u32) \<Rightarrow> hard_fork" where
  "after_vote s b height lv =
    s\<lparr>db_versions := (db_versions s)(height \<mapsto> fork_version (heights s ! unat (current_fork_index s))),
      versions := window_after s b, last_versions := lv\<rparr>"

lemma length_window_after:
  assumes "hf_inv s"
  shows "length (window_after s b) \<le> unat (window_size s)" "length (window_after s b) < 2 ^ 32"
proof -
  show "length (window_after s b) \<le> unat (window_size s)"
    using assms by (auto simp: window_after_def hf_inv_def config_ok_def)
  moreover have "unat (window_size s) < 2 ^ 32" using assms by (simp add: hf_inv_def config_ok_def)
  ultimately show "length (window_after s b) < 2 ^ 32" by linarith
qed

lemma do_check_accepted:
  assumes "hf_inv s"
  shows "do_check s (get_block_version b) (get_block_vote b) = Some (accepted s b)"
  using assms by (simp add: do_check_def fork_at_current accepted_def Let_def)

lemma check_accepted:
  assumes "hf_inv s"
  shows "check s b = Some (accepted s b)"
  using assms by (simp add: check_def do_check_accepted)

lemma add_rejected:
  assumes "hf_inv s" "\<not> accepted s b"
  shows "add b height s = Some (False, s)"
  using assms by (simp add: add_def add_version_def do_check_accepted)

lemma add_accepted:
  assumes "hf_inv s" "accepted s b"
  obtains lv where "counts (window_after s b) lv"
    "add b height s = Some (True, apply_votes (height + 1) (after_vote s b height lv))"
proof -
  let ?vs = "drop (Suc (length (versions s)) - unat (window_size s)) (versions s)"
  have i: "counts (versions s) (last_versions s)" "0 < unat (window_size s)"
    using assms(1) by (simp_all add: hf_inv_def config_ok_def)
  from trim_votes_spec [OF i] obtain lv where
    lv: "trim_votes (window_size s) (versions s) (last_versions s) = Some (?vs, lv)" "counts ?vs lv" by blast
  let ?v = "get_effective_version s (get_block_vote b)"
  have "length ?vs + 1 < 2 ^ 32" using length_window_after(2) [OF assms(1), of b] by (simp add: window_after_def)
  from counts_snoc [OF lv(2) this] have "counts (window_after s b) (lv(?v := lv ?v + 1))" by (simp add: window_after_def)
  moreover have "add b height s = Some (True, apply_votes (height + 1) (after_vote s b height (lv(?v := lv ?v + 1))))"
    using assms lv(1)
    by (simp add: add_def add_version_def do_check_accepted fork_at_current after_vote_def window_after_def push_vote_def
        get_effective_version_def Let_def)
  ultimately show thesis by (rule that)
qed

text \<open>Only the schedule, the window and the index matter for the votes.\<close>

lemma fork_voted_cong:
  assumes "heights s' = heights s" "versions s' = versions s" "window_size s' = window_size s"
  shows "fork_voted s' = fork_voted s"
  using assms by (intro ext) (simp add: fork_voted_def fork_votes_def)

lemma target_index_cong:
  assumes "heights s' = heights s" "versions s' = versions s" "window_size s' = window_size s"
    and "current_fork_index s' = current_fork_index s"
  shows "target_index s' = target_index s"
  using assms by (intro ext) (simp add: target_index_def fork_voted_cong [OF assms(1-3)])

lemma apply_votes_inv:
  assumes "hf_inv s"
  shows "hf_inv (apply_votes height s)"
    and "unat (current_fork_index (apply_votes height s)) = target_index s height"
proof -
  have i: "config_ok s" "counts (versions s) (last_versions s)" "unat (current_fork_index s) < length (heights s)"
    "length (versions s) \<le> unat (window_size s)" using assms by (simp_all add: hf_inv_def)
  have "length (versions s) < 2 ^ 32" using i by (simp add: config_ok_def)
  note e = apply_votes_spec [OF i(1,2) this i(3), of height]
  have "target_index s height < length (heights s)" by (rule target_index_less [OF i(3)])
  moreover from this have "unat (of_nat (target_index s height) :: u32) = target_index s height"
    using i(1) schedule_ok_length [of "heights s"] by (intro unat_of_nat_32) (simp add: config_ok_def)
  ultimately show "hf_inv (apply_votes height s)"
    "unat (current_fork_index (apply_votes height s)) = target_index s height"
    using assms by (simp_all add: e hf_inv_def config_ok_def)
qed

lemma apply_votes_frame:
  "\<exists>i. apply_votes height s = s\<lparr>current_fork_index := i\<rparr>"
proof (cases "(ucast (ucast (get_voted_fork_index s height) :: u8) :: u32) > current_fork_index s")
  case True
  then show ?thesis unfolding apply_votes_def Let_def by auto
next
  case False
  then have "apply_votes height s = s\<lparr>current_fork_index := current_fork_index s\<rparr>"
    by (simp add: apply_votes_def Let_def)
  then show ?thesis by blast
qed

lemma after_vote_inv:
  assumes "hf_inv s" "counts (window_after s b) lv"
  shows "hf_inv (after_vote s b height lv)"
  using assms length_window_after(1) [OF assms(1), of b] by (simp add: after_vote_def hf_inv_def config_ok_def)

lemma add_accepted_spec:
  assumes "hf_inv s" "accepted s b"
  obtains s' where "add b height s = Some (True, s')" "hf_inv s'" "versions s' = window_after s b"
    "db_versions s' = (db_versions s)(height \<mapsto> fork_version (heights s ! unat (current_fork_index s)))"
    "heights s' = heights s" "window_size s' = window_size s" "db_blocks s' = db_blocks s"
    "unat (current_fork_index s') = target_index (s\<lparr>versions := window_after s b\<rparr>) (height + 1)"
proof -
  from add_accepted [OF assms] obtain lv where lv: "counts (window_after s b) lv"
    "add b height s = Some (True, apply_votes (height + 1) (after_vote s b height lv))" by blast
  let ?s = "after_vote s b height lv"
  note i = after_vote_inv [OF assms(1) lv(1), of height]
  have t: "target_index ?s = target_index (s\<lparr>versions := window_after s b\<rparr>)"
    by (rule target_index_cong) (simp_all add: after_vote_def)
  from apply_votes_frame [of "height + 1" ?s] obtain j where j: "apply_votes (height + 1) ?s = ?s\<lparr>current_fork_index := j\<rparr>"
    by blast
  show thesis
    by (rule that [OF lv(2) apply_votes_inv(1) [OF i]])
      (simp_all add: apply_votes_inv(2) [OF i] t, simp_all add: j, simp_all add: after_vote_def)
qed

lemma add_inv:
  assumes "hf_inv s" "add b height s = Some (r, s')"
  shows "hf_inv s'"
proof (cases "accepted s b")
  case True
  from add_accepted_spec [OF assms(1) True, of height] assms(2) show ?thesis by (metis option.inject prod.inject)
next
  case False
  with add_rejected [OF assms(1) False, of height] assms show ?thesis by simp
qed

subsection \<open>Following the chain\<close>

lemma scan_votes_frame:
  "scan_votes h n s = Some s' \<Longrightarrow> s' = s\<lparr>versions := versions s', last_versions := last_versions s'\<rparr>"
proof (induction n arbitrary: h s)
  case (Suc n)
  then obtain b where "scan_votes (h + 1) n (push_vote (get_effective_version s (get_block_vote b)) s) = Some s'"
    by (auto simp: bind_eq_Some_conv)
  from Suc.IH [OF this] show ?case by (simp add: push_vote_def)
qed simp

lemma scan_votes_counts:
  assumes "scan_votes h n s = Some s'" "counts (versions s) (last_versions s)" "length (versions s) + n < 2 ^ 32"
  shows "counts (versions s') (last_versions s') \<and> length (versions s') = length (versions s) + n"
  using assms
proof (induction n arbitrary: h s)
  case (Suc n)
  then obtain b where b: "scan_votes (h + 1) n (push_vote (get_effective_version s (get_block_vote b)) s) = Some s'"
    by (auto simp: bind_eq_Some_conv)
  let ?s = "push_vote (get_effective_version s (get_block_vote b)) s"
  have "counts (versions ?s) (last_versions ?s)"
    using Suc.prems counts_snoc [of "versions s" "last_versions s"] by (simp add: push_vote_def)
  moreover have "length (versions ?s) + n < 2 ^ 32" using Suc.prems(3) by (simp add: push_vote_def)
  ultimately have "counts (versions s') (last_versions s') \<and> length (versions s') = length (versions ?s) + n"
    by (rule Suc.IH [OF b])
  then show ?case by (simp add: push_vote_def)
qed simp

lemma scan_votes_inv:
  assumes "scan_votes h n (clear_votes s) = Some s'" "config_ok s" "heights s \<noteq> []"
    and "unat i < length (heights s)" "n \<le> unat (window_size s)"
  shows "hf_inv (s'\<lparr>current_fork_index := i\<rparr>)"
proof -
  have "n < 2 ^ 32" using assms(2,5) by (simp add: config_ok_def)
  then have c: "counts (versions s') (last_versions s') \<and> length (versions s') = n"
    using scan_votes_counts [OF assms(1)] by (simp add: clear_votes_def)
  have "s' = s\<lparr>versions := versions s', last_versions := last_versions s'\<rparr>"
    using scan_votes_frame [OF assms(1)] by (simp add: clear_votes_def)
  then obtain vs lv where "s' = s\<lparr>versions := vs, last_versions := lv\<rparr>" by blast
  with assms c show ?thesis by (simp add: hf_inv_def config_ok_def)
qed

lemma find_fork_less:
  "i < length (heights s) \<Longrightarrow> find_fork s v i < length (heights s)"
proof (induction s v i rule: find_fork.induct)
  case (1 s v i)
  then show ?case by (subst find_fork.simps) auto
qed

lemma small_index:
  assumes "config_ok s" "n < length (heights s)"
  shows "unat (of_nat n :: u32) = n"
  using assms schedule_ok_length [of "heights s"] by (intro unat_of_nat_32) (simp add: config_ok_def)

lemma rescan_inv:
  assumes "rescan_from_block_height height s = Some (r, s')" "config_ok s" "heights s \<noteq> []"
    and "height < db_height s \<Longrightarrow> unat (db_height s) - unat height \<le> unat (window_size s)"
  shows "if r then hf_inv s' else s' = s"
proof (cases "height \<ge> db_height s")
  case True
  with assms(1) show ?thesis by (simp add: rescan_from_block_height_def)
next
  case False
  with assms(1) obtain s1 v where s1: "scan_votes height (unat (db_height s) - unat height) (clear_votes s) = Some s1"
    and r: r "s' = apply_votes (db_height s1) (s1\<lparr>current_fork_index := of_nat (find_fork s1 v 0)\<rparr>)"
    by (auto simp: rescan_from_block_height_def bind_eq_Some_conv Let_def db_height_def)
  have h: "heights s1 = heights s"
    using scan_votes_frame [OF s1] by (metis clear_votes_def hard_fork.surjective hard_fork.update_convs(10,11) hard_fork.select_convs(9))
  have "find_fork s1 v 0 < length (heights s)" using find_fork_less [of 0 s1 v] assms(3) by (simp add: h)
  then have "unat (of_nat (find_fork s1 v 0) :: u32) < length (heights s)" using small_index [OF assms(2)] by simp
  from scan_votes_inv [OF s1 assms(2,3) this] assms(4) False
  have "hf_inv (s1\<lparr>current_fork_index := of_nat (find_fork s1 v 0)\<rparr>)" by simp
  from apply_votes_inv(1) [OF this] r show ?thesis by simp
qed

lemma init_inv:
  assumes "init s = Some s'" "config_ok s"
  shows "hf_inv s'"
proof -
  let ?orig = "\<lparr>fork_version = original_version s, fork_height = 0, fork_threshold = 0, fork_time = 0\<rparr>"
  define s0 where "s0 = (clear_votes (if heights s = [] then s\<lparr>heights := [?orig]\<rparr> else s))\<lparr>current_fork_index := 0\<rparr>"
  define h where "h = (if db_height s0 > window_size s0 then db_height s0 - (window_size s0 - 1) else 1)"
  have c: "config_ok s0" and ne: "heights s0 \<noteq> []"
    using assms(2) by (auto simp: s0_def clear_votes_def config_ok_def schedule_ok_def)
  have i: "hf_inv s0" using c ne by (auto simp: hf_inv_def) (simp_all add: s0_def clear_votes_def)
  have w: "0 < unat (window_size s0)" using c by (simp add: config_ok_def)
  from assms(1) obtain r where r: "rescan_from_chain_height h s0 = Some (r, s')"
    by (auto simp: init_def s0_def h_def Let_def bind_eq_Some_conv split: if_splits)
  show ?thesis
  proof (cases "h = 0")
    case True
    with r i show ?thesis by (simp add: rescan_from_chain_height_def)
  next
    case False
    with r have r: "rescan_from_block_height (h - 1) s0 = Some (r, s')" by (simp add: rescan_from_chain_height_def)
    have "unat (db_height s0) - unat (h - 1) \<le> unat (window_size s0)"
    proof (cases "db_height s0 > window_size s0")
      case True
      then have "h - 1 = db_height s0 - window_size s0" by (simp add: h_def)
      then have "unat (h - 1) = unat (db_height s0) - unat (window_size s0)"
        using True by (simp add: unat_sub word_less_nat_alt word_le_nat_alt)
      then show ?thesis by linarith
    next
      case False
      then show ?thesis by (simp add: h_def word_less_nat_alt)
    qed
    with rescan_inv [OF r c ne] i show ?thesis by (cases r) auto
  qed
qed

lemma step_back_le: "step_back s v i \<le> i"
  by (induction i) auto

lemma add_blocks_inv:
  assumes "add_blocks h n s = Some s'" "hf_inv s"
  shows "hf_inv s'"
  using assms
proof (induction n arbitrary: h s)
  case (Suc n)
  then obtain b r s1 where "add b h s = Some (r, s1)" "add_blocks (h + 1) n s1 = Some s'"
    by (auto simp: bind_eq_Some_conv)
  with Suc add_inv show ?case by blast
qed simp

lemma reorganize_inv:
  assumes "reorganize_from_block_height height s = Some (r, s')" "hf_inv s"
  shows "hf_inv s'"
proof (cases "height \<ge> db_height s")
  case True
  with assms show ?thesis by (simp add: reorganize_from_block_height_def)
next
  case False
  define rh where "rh = (if height \<ge> window_size s - 1 then height - (window_size s - 1) else 0)"
  have c: "config_ok s" "heights s \<noteq> []" "unat (current_fork_index s) < length (heights s)" "0 < unat (window_size s)"
    using assms(2) by (simp_all add: hf_inv_def config_ok_def)
  from assms(1) False c(3) obtain v s1 where
    s1: "scan_votes rh (unat height + 1 - unat rh)
      ((clear_votes s)\<lparr>current_fork_index := of_nat (step_back (clear_votes s) v (unat (current_fork_index s)))\<rparr>) = Some s1"
    and s': "add_blocks (height + 1) (unat (db_height (apply_votes (height + 1) s1)) - (unat height + 1)) (apply_votes (height + 1) s1) = Some s'"
    by (cases "height \<ge> window_size s - 1"; cases "height = 0")
      (auto simp: reorganize_from_block_height_def rh_def Let_def bind_eq_Some_conv clear_votes_def)
  let ?i = "of_nat (step_back (clear_votes s) v (unat (current_fork_index s))) :: u32"
  have "step_back (clear_votes s) v (unat (current_fork_index s)) < length (heights s)"
    using step_back_le [of "clear_votes s" v "unat (current_fork_index s)"] c(3) by linarith
  then have i: "unat ?i < length (heights s)" using small_index [OF c(1)] by simp
  have "clear_votes (s\<lparr>current_fork_index := ?i\<rparr>) = (clear_votes s)\<lparr>current_fork_index := ?i\<rparr>" by (simp add: clear_votes_def)
  with s1 have s2: "scan_votes rh (unat height + 1 - unat rh) (clear_votes (s\<lparr>current_fork_index := ?i\<rparr>)) = Some s1" by simp
  have "unat (window_size s - 1) = unat (window_size s) - 1" using c(4) by (simp add: unat_sub_if_size)
  then have "unat height + 1 - unat rh \<le> unat (window_size s)"
    using c(4) by (auto simp: rh_def unat_sub word_le_nat_alt)
  then have "hf_inv (s1\<lparr>current_fork_index := ?i\<rparr>)"
    using scan_votes_inv [OF s2, of ?i] c i by (simp add: config_ok_def)
  moreover have "s1 = s\<lparr>current_fork_index := ?i, versions := versions s1, last_versions := last_versions s1\<rparr>"
    using scan_votes_frame [OF s2] by (simp add: clear_votes_def)
  then obtain vs lv where "s1 = s\<lparr>current_fork_index := ?i, versions := vs, last_versions := lv\<rparr>" by blast
  ultimately have "hf_inv s1" by (simp add: hf_inv_def config_ok_def)
  from add_blocks_inv [OF s' apply_votes_inv(1) [OF this]] show ?thesis .
qed

lemma pop_vote_inv:
  assumes "pop_vote h s = Some s'" "hf_inv s"
  shows "hf_inv s'"
proof -
  from assms(1) obtain w where ne: "versions s \<noteq> []" and w: "db_versions s h = Some w"
    by (auto simp: pop_vote_def Let_def bind_eq_Some_conv split: if_splits)
  define lv where "lv = (last_versions s)(last (versions s) := last_versions s (last (versions s)) - 1)"
  have s': "s' = s\<lparr>versions := w # butlast (versions s), last_versions := lv(w := lv w + 1)\<rparr>"
    using assms(1) ne w by (simp add: pop_vote_def Let_def lv_def)
  have i: "counts (versions s) (last_versions s)" "length (versions s) < 2 ^ 32"
    using assms(2) by (auto simp: hf_inv_def config_ok_def)
  have "counts (butlast (versions s)) lv" unfolding lv_def by (rule counts_butlast [OF i(1) ne])
  then have "counts (w # butlast (versions s)) (lv(w := lv w + 1))"
    by (rule counts_Cons) (use i(2) ne in simp)
  with assms(2) ne show ?thesis by (simp add: s' hf_inv_def config_ok_def)
qed

lemma pop_votes_inv:
  "opt_fold pop_vote hs s = Some s' \<Longrightarrow> hf_inv s \<Longrightarrow> hf_inv s'"
proof (induction hs arbitrary: s)
  case (Cons h hs)
  then obtain s1 where "pop_vote h s = Some s1" "opt_fold pop_vote hs s1 = Some s'" by (auto simp: bind_eq_Some_conv)
  with Cons pop_vote_inv show ?case by blast
qed simp

lemma fork_by_height_le: "fork_by_height s h i \<le> i"
  by (induction i) auto

lemma on_block_popped_inv:
  assumes "on_block_popped nblocks s = Some s'" "hf_inv s"
  shows "hf_inv s'"
proof -
  define hs :: "u64 list" where "hs = map of_nat (rev [unat (db_height s)..<Suc (unat (db_height s + nblocks - 1))])"
  from assms(1) obtain s1 where s1: "opt_fold pop_vote hs s = Some s1"
    and s': "s' = s1\<lparr>current_fork_index := of_nat (fork_by_height s1 (db_height s) (length (heights s1) - 1))\<rparr>"
    unfolding on_block_popped_def Let_def hs_def [symmetric] by (auto simp: bind_eq_Some_conv split: if_splits)
  have i: "hf_inv s1" by (rule pop_votes_inv [OF s1 assms(2)])
  let ?n = "fork_by_height s1 (db_height s) (length (heights s1) - 1)"
  have c: "config_ok s1" "heights s1 \<noteq> []" using i by (simp_all add: hf_inv_def)
  then have "?n < length (heights s1)"
    using fork_by_height_le [of s1 "db_height s" "length (heights s1) - 1"] by (auto simp: neq_Nil_conv)
  with small_index [OF c(1) this] i show ?thesis by (simp add: s' hf_inv_def config_ok_def)
qed

lemma add_fork_config:
  assumes "config_ok s"
  shows "config_ok (snd (add_fork v h t time s))"
proof (cases "fst (add_fork v h t time s)")
  case True
  then have "heights s \<noteq> [] \<Longrightarrow>
      fork_before (last (heights s)) \<lparr>fork_version = v, fork_height = h, fork_threshold = t, fork_time = time\<rparr>" "t \<le> 100"
    by (auto simp: add_fork_def fork_before_def not_le split: if_splits)
  then have "schedule_ok (heights s @ [\<lparr>fork_version = v, fork_height = h, fork_threshold = t, fork_time = time\<rparr>])"
    using assms by (intro schedule_ok_snoc) (auto simp: config_ok_def)
  then show ?thesis using True assms by (auto simp: add_fork_def config_ok_def split: if_splits)
next
  case False
  then show ?thesis using assms by (auto simp: add_fork_def split: if_splits)
qed

subsection \<open>The life of the object\<close>

text \<open>
  Construction, the scheduling of forks, and then any sequence of the public operations; between them the blockchain
  replaces the blocks of the database.
\<close>

inductive hf_config :: "hard_fork \<Rightarrow> bool" where
  config_new: "HardFork_new lv blocks vs orig till forked update window threshold = Some s \<Longrightarrow>
    unat window < 2 ^ 32 \<Longrightarrow> length blocks < 2 ^ 64 \<Longrightarrow> hf_config s"
| config_fork: "hf_config s \<Longrightarrow> hf_config (snd (add_fork v h t time s))"
| config_fork_default: "hf_config s \<Longrightarrow> hf_config (snd (add_fork_default v h time s))"

inductive hf_step :: "hard_fork \<Rightarrow> hard_fork \<Rightarrow> bool" where
  step_init: "init s = Some s' \<Longrightarrow> hf_step s s'"
| step_add: "add b h s = Some (r, s') \<Longrightarrow> hf_step s s'"
| step_reorganize: "reorganize_from_chain_height h s = Some (r, s') \<Longrightarrow> hf_step s s'"
| step_reorganize_block: "reorganize_from_block_height h s = Some (r, s') \<Longrightarrow> hf_step s s'"
| step_popped: "on_block_popped n s = Some s' \<Longrightarrow> hf_step s s'"
| step_blocks: "length bs < 2 ^ 64 \<Longrightarrow> hf_step s (s\<lparr>db_blocks := bs\<rparr>)"

inductive hf_reach :: "hard_fork \<Rightarrow> bool" where
  reach_init: "hf_config s \<Longrightarrow> init s = Some s' \<Longrightarrow> hf_reach s'"
| reach_step: "hf_reach s \<Longrightarrow> hf_step s s' \<Longrightarrow> hf_reach s'"

lemma hf_config_ok: "hf_config s \<Longrightarrow> config_ok s"
proof (induction rule: hf_config.induct)
  case (config_new lv blocks vs orig till forked update window threshold s)
  then show ?case
    by (auto simp: HardFork_new_def config_ok_def schedule_ok_def unat_gt_0 split: if_splits)
qed (simp_all add: add_fork_config add_fork_default_def)

lemma hf_step_inv:
  assumes "hf_step s s'" "hf_inv s"
  shows "hf_inv s'"
  using assms(1)
proof (cases rule: hf_step.cases)
  case step_init with assms(2) init_inv show ?thesis by (simp add: hf_inv_def)
next
  case step_add with assms(2) add_inv show ?thesis by blast
next
  case step_reorganize
  with assms(2) reorganize_inv show ?thesis by (auto simp: reorganize_from_chain_height_def split: if_splits)
next
  case step_reorganize_block with assms(2) reorganize_inv show ?thesis by blast
next
  case step_popped with assms(2) on_block_popped_inv show ?thesis by blast
next
  case step_blocks with assms(2) show ?thesis by (simp add: hf_inv_def config_ok_def)
qed

lemma hf_reach_inv: "hf_reach s \<Longrightarrow> hf_inv s"
  by (induction rule: hf_reach.induct) (blast intro: init_inv hf_config_ok hf_step_inv)+

subsection \<open>Miners that vote for the last fork\<close>

text \<open>Blocks are produced with the version of the moment and the given votes, from a height on; each must be accepted.\<close>

fun mine :: "u8 list \<Rightarrow> u64 \<Rightarrow> hard_fork \<Rightarrow> hard_fork option" where
  "mine [] height s = Some s"
| "mine (m # ms) height s = do {
    v \<leftarrow> get_current_version s;
    (r, s) \<leftarrow> add \<lparr>major_version = v, minor_version = m\<rparr> height s;
    if r then mine ms (height + 1) s else None }"

lemma ideal_ge_current:
  assumes "hf_inv s"
  shows "fork_version (heights s ! unat (current_fork_index s)) \<le> fork_version (last (heights s))"
  unfolding last_heights [OF assms]
  by (rule schedule_ok_le) (use assms in \<open>auto simp: hf_inv_def config_ok_def\<close>)

lemma vote_ge_ideal:
  assumes "fork_version f \<le> m" "0 < fork_version f"
  shows "get_block_vote \<lparr>major_version = v, minor_version = m\<rparr> = m"
  using assms by (auto simp: get_block_vote_def)

text \<open>One such block is accepted, and the window then ends with one more vote for the last version.\<close>

lemma mine_step:
  assumes "hf_inv s" "fork_version (last (heights s)) \<le> m" "0 < fork_version (last (heights s))"
  obtains s' v where "get_current_version s = Some v" "add \<lparr>major_version = v, minor_version = m\<rparr> height s = Some (True, s')"
    "hf_inv s'" "heights s' = heights s" "window_size s' = window_size s"
    "versions s' = drop (Suc (length (versions s)) - unat (window_size s)) (versions s) @ [fork_version (last (heights s))]"
    "unat (current_fork_index s') = target_index (s'\<lparr>current_fork_index := current_fork_index s\<rparr>) (height + 1)"
proof -
  let ?v = "fork_version (heights s ! unat (current_fork_index s))"
  let ?b = "\<lparr>major_version = ?v, minor_version = m\<rparr>"
  have vote: "get_block_vote ?b = m" by (rule vote_ge_ideal [OF assms(2,3)])
  have "accepted s ?b"
    using ideal_ge_current [OF assms(1)] assms(2) by (simp add: accepted_def get_block_version_def vote)
  from add_accepted_spec [OF assms(1) this, of height] obtain s' where
    s': "add ?b height s = Some (True, s')" "hf_inv s'" "versions s' = window_after s ?b" "heights s' = heights s"
      "window_size s' = window_size s"
      "unat (current_fork_index s') = target_index (s\<lparr>versions := window_after s ?b\<rparr>) (height + 1)" by blast
  have "get_effective_version s m = fork_version (last (heights s))"
    using assms by (auto simp: get_effective_version_def hf_inv_def Let_def not_less)
  then have "versions s' = drop (Suc (length (versions s)) - unat (window_size s)) (versions s) @ [fork_version (last (heights s))]"
    by (simp add: s'(3) window_after_def vote)
  moreover have "target_index (s'\<lparr>current_fork_index := current_fork_index s\<rparr>) = target_index (s\<lparr>versions := window_after s ?b\<rparr>)"
    by (rule target_index_cong) (simp_all add: s')
  ultimately show thesis
    using that [OF get_current_version_inv [OF assms(1)] s'(1,2,4,5)] s'(6) by simp
qed

text \<open>After a run of such blocks that fits in the window, the votes of the run are all in it.\<close>

lemma suffix_after_trim:
  assumes "vs = us @ replicate k v" "Suc k \<le> w"
  shows "\<exists>us'. drop (Suc (length vs) - w) vs @ [v] = us' @ replicate (Suc k) v"
proof -
  have "drop (Suc (length vs) - w) vs = drop (Suc (length vs) - w) us @ replicate k v"
    using assms by (auto simp: drop_append)
  then have "drop (Suc (length vs) - w) vs @ [v] = drop (Suc (length vs) - w) us @ replicate (Suc k) v"
    by (simp add: replicate_append_same)
  then show ?thesis by blast
qed

lemma fork_votes_last:
  assumes "hf_inv s" "versions s = us @ replicate k (fork_version (last (heights s)))"
  shows "k \<le> fork_votes s (length (heights s) - 1)"
proof -
  have "drop (length (heights s) - 1) (heights s) = [last (heights s)]"
    using assms(1) by (cases "heights s" rule: rev_cases) (auto simp: hf_inv_def)
  then show ?thesis by (simp add: fork_votes_def assms(2))
qed

lemma last_fork_activates:
  assumes "hf_inv s'" "versions s' = us @ replicate k (fork_version (last (heights s')))"
    and "unat (window_size s') * unat (fork_threshold (last (heights s'))) \<le> 100 * k"
    and "fork_height (last (heights s')) \<le> height"
    and "unat (current_fork_index s') = target_index (s'\<lparr>current_fork_index := i\<rparr>) height"
  shows "get_current_version s' = get_ideal_version s'"
proof -
  let ?n = "length (heights s') - 1"
  have ne: "heights s' \<noteq> []" "unat (current_fork_index s') < length (heights s')" using assms(1) by (simp_all add: hf_inv_def)
  have "fork_voted s' height ?n"
    using assms(3,4) ne(1) fork_votes_last [OF assms(1,2)] by (simp add: fork_voted_def last_heights [OF assms(1)])
  then have "fork_voted (s'\<lparr>current_fork_index := i\<rparr>) height ?n" by (subst fork_voted_cong) simp_all
  from target_index_voted [OF this] assms(5) have "?n \<le> unat (current_fork_index s')" by simp
  with ne have "unat (current_fork_index s') = ?n" by linarith
  then show ?thesis
    using ne(1) by (simp add: get_current_version_inv [OF assms(1)] get_ideal_version_def last_heights [OF assms(1)])
qed

lemma mine_activates:
  assumes "hf_inv s" "versions s = us @ replicate k (fork_version (last (heights s)))" "ms \<noteq> []"
    and "0 < fork_version (last (heights s))" "\<forall>m \<in> set ms. fork_version (last (heights s)) \<le> m"
    and "k + length ms \<le> unat (window_size s)"
    and "unat (window_size s) * unat (fork_threshold (last (heights s))) \<le> 100 * (k + length ms)"
    and "unat (fork_height (last (heights s))) \<le> unat height + length ms" "unat height + length ms < 2 ^ 64"
  shows "\<exists>s'. mine ms height s = Some s' \<and> hf_inv s' \<and> heights s' = heights s \<and> get_current_version s' = get_ideal_version s'"
  using assms
proof (induction ms arbitrary: s us k height)
  case (Cons m ms)
  let ?v = "fork_version (last (heights s))"
  have m: "?v \<le> m" using Cons.prems(5) by simp
  from mine_step [OF Cons.prems(1) m Cons.prems(4), of height] obtain s1 v where
    s1: "get_current_version s = Some v" "add \<lparr>major_version = v, minor_version = m\<rparr> height s = Some (True, s1)"
      "hf_inv s1" "heights s1 = heights s" "window_size s1 = window_size s"
      "versions s1 = drop (Suc (length (versions s)) - unat (window_size s)) (versions s) @ [?v]"
      "unat (current_fork_index s1) = target_index (s1\<lparr>current_fork_index := current_fork_index s\<rparr>) (height + 1)" by blast
  have "Suc k \<le> unat (window_size s)" using Cons.prems(6) by simp
  from suffix_after_trim [OF Cons.prems(2) this] obtain us' where
    us': "versions s1 = us' @ replicate (Suc k) (fork_version (last (heights s1)))"
    using s1(4,6) by auto
  have h: "unat (height + 1) = unat height + 1" using Cons.prems(9) by (simp add: unat_word_ariths)
  have run: "mine (m # ms) height s = mine ms (height + 1) s1" using s1(1,2) by simp
  show ?case
  proof (cases "ms = []")
    case True
    have "fork_height (last (heights s1)) \<le> height + 1" using Cons.prems(8) True by (simp add: word_le_nat_alt h s1(4))
    moreover have "unat (window_size s1) * unat (fork_threshold (last (heights s1))) \<le> 100 * Suc k"
      using Cons.prems(7) True by (simp add: s1(4,5))
    ultimately have "get_current_version s1 = get_ideal_version s1" using last_fork_activates [OF s1(3) us' _ _ s1(7)] by blast
    with True run s1 show ?thesis by simp
  next
    case False
    have "\<exists>s'. mine ms (height + 1) s1 = Some s' \<and> hf_inv s' \<and> heights s' = heights s1 \<and> get_current_version s' = get_ideal_version s'"
      by (rule Cons.IH [OF s1(3) us' False]) (use Cons.prems in \<open>simp_all add: s1(4,5) h\<close>)
    with run s1(4) show ?thesis by simp
  qed
qed simp

text \<open>A chain with its first block, a window of four votes, and a fork to version 7 at height 3 with half of the votes.\<close>

definition two_forks_config :: hard_fork where
  "two_forks_config = snd (add_fork 7 3 50 1700000000 (snd (add_fork_default 1 0 1600000000
    (the (HardFork_new (\<lambda>_. 17) [\<lparr>major_version = 1, minor_version = 0\<rparr>] [0 \<mapsto> 1] 1 0 31557600 15778800 4 80)))))"

definition two_forks :: hard_fork where
  "two_forks = the (init two_forks_config)"

lemma two_forks_new:
  "hf_config (the (HardFork_new (\<lambda>_. 17) [\<lparr>major_version = 1, minor_version = 0\<rparr>] [0 \<mapsto> 1] 1 0 31557600 15778800 4 80))"
  by (rule config_new [of "\<lambda>_. 17" "[\<lparr>major_version = 1, minor_version = 0\<rparr>]" "[0 \<mapsto> 1]" 1 0 31557600 15778800 4 80])
    (simp_all add: HardFork_new_def)

lemma two_forks_reach: "hf_reach two_forks"
proof (rule reach_init)
  show "hf_config two_forks_config" unfolding two_forks_config_def by (intro config_fork config_fork_default two_forks_new)
  have "init two_forks_config \<noteq> None" by code_simp
  then show "init two_forks_config = Some two_forks" by (simp add: two_forks_def)
qed

text \<open>
  The window after a popped block is not the window of the last blocks: the vote that comes back at the front is the version
  at the popped height, not the vote of the block that had left the window.  Here every block of the chain votes for version 7;
  after the third block is popped, the window holds a vote for version 1, while a rescan of the same chain finds only 7.
\<close>

definition popped_chain :: hard_fork where
  "popped_chain = \<lparr>db_blocks = replicate 2 \<lparr>major_version = 1, minor_version = 7\<rparr>, db_versions = [0 \<mapsto> 1, 1 \<mapsto> 1, 2 \<mapsto> 1],
    forked_time = 31557600, update_time = 15778800, window_size = 2, default_threshold_percent = 80, original_version = 1,
    original_version_till_height = 0, heights = heights two_forks, versions = [7, 7],
    last_versions = (\<lambda>v. if v = 7 then 2 else 0), current_fork_index = 0\<rparr>"

lemma popped_window:
  "map_option versions (on_block_popped 1 popped_chain) = Some [1, 7]"
  "map_option (versions \<circ> snd) (rescan_from_block_height 0 popped_chain) = Some [7, 7]"
  by code_simp+

section \<open>Properties\<close>

text \<open>C5: In every state that the object can reach by construction, scheduling, \<open>init\<close>, \<open>add\<close>, reorganizations and popped
  blocks, whatever the blockchain does to the database in between, the schedule ascends strictly in version, height and time,
  the current index is inside it, the window holds no more votes than its size, and the 256 counters are the numbers of votes
  in the window; hence the assertion in \<open>add\<close> never fails and every query of the current version is defined.\<close>

theorem hard_fork_invariant:
  assumes "hf_reach s"
  shows "sorted_wrt fork_before (heights s) \<and> unat (current_fork_index s) < length (heights s) \<and>
    length (versions s) \<le> unat (window_size s) \<and> (\<forall>v. unat (last_versions s v) = count_list (versions s) v) \<and>
    (\<forall>b height. add b height s \<noteq> None) \<and> (\<exists>v. get_current_version s = Some v)"
proof -
  note i = hf_reach_inv [OF assms]
  have "add b height s \<noteq> None" for b height
    using add_rejected [OF i] add_accepted_spec [OF i] by (metis option.distinct(1))
  with i get_current_version_inv [OF i] show ?thesis by (simp add: hf_inv_def config_ok_def schedule_ok_def counts_def)
qed

theorem hard_fork_invariant_witness:
  "unat (current_fork_index two_forks) < length (heights two_forks) \<and> versions two_forks = [1] \<and>
    (\<forall>v. unat (last_versions two_forks v) = count_list (versions two_forks) v)"
proof -
  have "versions two_forks = [1]" by code_simp
  with hard_fork_invariant [OF two_forks_reach] show ?thesis by simp
qed

text \<open>C9: \<open>add\<close> rejects, without any effect, a block that does not have the current version or votes for a lower one.  It
  records the current version of an accepted block, enters its vote, capped at the last scheduled version, into the window
  from which the oldest votes leave, and moves the current index to the highest fork whose height is reached and whose share
  of the window votes for it or for a later fork; the index never goes down.\<close>

theorem add_spec:
  assumes "hf_reach s"
  shows "if \<not> accepted s b then add b height s = Some (False, s)
    else \<exists>s'. add b height s = Some (True, s') \<and> versions s' = window_after s b \<and> heights s' = heights s \<and>
      db_versions s' = (db_versions s)(height \<mapsto> fork_version (heights s ! unat (current_fork_index s))) \<and>
      unat (current_fork_index s') = target_index (s\<lparr>versions := window_after s b\<rparr>) (height + 1) \<and>
      unat (current_fork_index s) \<le> unat (current_fork_index s')"
proof (cases "accepted s b")
  case True
  note i = hf_reach_inv [OF assms]
  from add_accepted_spec [OF i True, of height] obtain s' where s': "add b height s = Some (True, s')"
    "versions s' = window_after s b" "heights s' = heights s"
    "db_versions s' = (db_versions s)(height \<mapsto> fork_version (heights s ! unat (current_fork_index s)))"
    "unat (current_fork_index s') = target_index (s\<lparr>versions := window_after s b\<rparr>) (height + 1)" by blast
  moreover have "unat (current_fork_index s) \<le> target_index (s\<lparr>versions := window_after s b\<rparr>) (height + 1)"
    using target_index_ge [of "s\<lparr>versions := window_after s b\<rparr>"] by simp
  ultimately show ?thesis using True by simp
next
  case False
  with add_rejected [OF hf_reach_inv [OF assms]] show ?thesis by simp
qed

theorem add_spec_witness:
  "add \<lparr>major_version = 2, minor_version = 7\<rparr> 1 two_forks = Some (False, two_forks) \<and>
    (\<exists>s'. add \<lparr>major_version = 1, minor_version = 9\<rparr> 1 two_forks = Some (True, s') \<and> versions s' = [1, 7])"
proof -
  have "\<not> accepted two_forks \<lparr>major_version = 2, minor_version = 7\<rparr>"
    "accepted two_forks \<lparr>major_version = 1, minor_version = 9\<rparr>"
    "window_after two_forks \<lparr>major_version = 1, minor_version = 9\<rparr> = [1, 7]" by code_simp+
  then show ?thesis
    using add_spec [OF two_forks_reach, of "\<lparr>major_version = 2, minor_version = 7\<rparr>" 1]
      add_spec [OF two_forks_reach, of "\<lparr>major_version = 1, minor_version = 9\<rparr>" 1] by auto
qed

text \<open>C2: The last scheduled fork always activates once it is voted for: from every reachable state, miners that build blocks of
  the current version and vote for the last version are never rejected, and after as many of their blocks as the threshold of
  the fork requires, at the height of the fork or later, the current version is the ideal one.\<close>

theorem fork_liveness:
  assumes "hf_reach s" "get_ideal_version s = Some v" "0 < v" "\<forall>m \<in> set ms. v \<le> m" "ms \<noteq> []"
    and "length ms \<le> unat (window_size s)"
    and "unat (window_size s) * unat (fork_threshold (last (heights s))) \<le> 100 * length ms"
    and "unat (fork_height (last (heights s))) \<le> unat height + length ms" "unat height + length ms < 2 ^ 64"
  shows "\<exists>s'. mine ms height s = Some s' \<and> get_current_version s' = Some v"
proof -
  have v: "v = fork_version (last (heights s))" using assms(2) by (simp add: get_ideal_version_def split: if_splits)
  have us: "versions s = versions s @ replicate 0 (fork_version (last (heights s)))" by simp
  from mine_activates [OF hf_reach_inv [OF assms(1)] us assms(5), of height] assms(3-9)
  obtain s' where "mine ms height s = Some s'" "heights s' = heights s" "get_current_version s' = get_ideal_version s'"
    by (auto simp: v)
  then show ?thesis using assms(2) by (simp add: get_ideal_version_def split: if_splits)
qed

theorem fork_liveness_witness:
  "get_current_version two_forks = Some 1 \<and> (\<exists>s'. mine [7, 9] 1 two_forks = Some s' \<and> get_current_version s' = Some 7)"
proof -
  have c: "get_current_version two_forks = Some 1" "get_ideal_version two_forks = Some 7" "window_size two_forks = 4"
    "fork_threshold (last (heights two_forks)) = 50" "fork_height (last (heights two_forks)) = 3" by code_simp+
  have "\<exists>s'. mine [7, 9] 1 two_forks = Some s' \<and> get_current_version s' = Some 7"
    by (rule fork_liveness [OF two_forks_reach c(2)]) (simp_all add: c)
  with c(1) show ?thesis by simp
qed
end
