(* ===== verification/Pruning.thy ===== *)
theory Pruning
  imports Prelude
begin

text \<open>
  The pruning seeds of \<open>src/common/pruning.cpp\<close> and \<open>src/common/pruning.h\<close>: which blocks a pruned node keeps in full, as a
  function of the height, the height of the chain and the seed.  The chain is cut in runs of 4096 blocks that belong to the
  stripes in turn; the last 5500 blocks are never pruned.  A check that throws is \<open>None\<close>, a check that returns its default
  is that value.
\<close>

section \<open>Definitions\<close>

definition CRYPTONOTE_PRUNING_STRIPE_SIZE :: "'a::len word" where
  "CRYPTONOTE_PRUNING_STRIPE_SIZE = 4096"

definition CRYPTONOTE_PRUNING_LOG_STRIPES :: u32 where
  "CRYPTONOTE_PRUNING_LOG_STRIPES = 3"

definition CRYPTONOTE_PRUNING_TIP_BLOCKS :: u64 where
  "CRYPTONOTE_PRUNING_TIP_BLOCKS = 5500"

definition CRYPTONOTE_MAX_BLOCK_NUMBER :: u64 where
  "CRYPTONOTE_MAX_BLOCK_NUMBER = 500000000"

text \<open>The layout of a seed: seven bits for the stripe, counted from 0, below three bits for the logarithm of their number.\<close>

definition get_pruning_log_stripes :: "u32 \<Rightarrow> u32" where
  "get_pruning_log_stripes pruning_seed = drop_bit 7 pruning_seed AND 0x7"

definition get_seed_stripe :: "u32 \<Rightarrow> u32" where
  "get_seed_stripe pruning_seed = (if pruning_seed = 0 then 0 else 1 + (drop_bit 0 pruning_seed AND 0x7f))"

definition make_pruning_seed :: "u32 \<Rightarrow> u32 \<Rightarrow> u32 option" where
  "make_pruning_seed stripe log_stripes =
    (if \<not> log_stripes \<le> 0x7 then None
     else if \<not> (stripe > 0 \<and> ucast stripe \<le> push_bit (unat log_stripes) (1 :: u64)) then None
     else Some (push_bit 7 log_stripes OR push_bit 0 (stripe - 1)))"

definition get_pruning_stripe :: "u64 \<Rightarrow> u64 \<Rightarrow> u32 \<Rightarrow> u32" where
  "get_pruning_stripe block_height blockchain_height log_stripes =
    (if block_height + CRYPTONOTE_PRUNING_TIP_BLOCKS \<ge> blockchain_height then 0
     else ucast (((block_height div CRYPTONOTE_PRUNING_STRIPE_SIZE) AND (push_bit (unat log_stripes) 1 - 1)) + 1))"

definition has_unpruned_block :: "u64 \<Rightarrow> u64 \<Rightarrow> u32 \<Rightarrow> bool" where
  "has_unpruned_block block_height blockchain_height pruning_seed =
    (let stripe = get_seed_stripe pruning_seed
     in if stripe = 0 then True
        else let log_stripes = get_pruning_log_stripes pruning_seed;
                 block_stripe = get_pruning_stripe block_height blockchain_height log_stripes
             in block_stripe = 0 \<or> block_stripe = stripe)"

definition get_pruning_seed :: "u64 \<Rightarrow> u64 \<Rightarrow> u32 \<Rightarrow> u32 option" where
  "get_pruning_seed block_height blockchain_height log_stripes =
    (let stripe = get_pruning_stripe block_height blockchain_height log_stripes
     in if stripe = 0 then Some 0 else make_pruning_seed stripe log_stripes)"

definition get_next_unpruned_block_height :: "u64 \<Rightarrow> u64 \<Rightarrow> u32 \<Rightarrow> u64" where
  "get_next_unpruned_block_height block_height blockchain_height pruning_seed =
    (if \<not> block_height \<le> CRYPTONOTE_MAX_BLOCK_NUMBER + 1 then block_height
     else if \<not> blockchain_height \<le> CRYPTONOTE_MAX_BLOCK_NUMBER + 1 then block_height
     else let stripe = get_seed_stripe pruning_seed
     in if stripe = 0 then block_height
     else if block_height + CRYPTONOTE_PRUNING_TIP_BLOCKS \<ge> blockchain_height then block_height
     else let seed_log_stripes = get_pruning_log_stripes pruning_seed;
              log_stripes = (if seed_log_stripes \<noteq> 0 then seed_log_stripes else CRYPTONOTE_PRUNING_LOG_STRIPES);
              mask = push_bit (unat log_stripes) 1 - 1;
              block_pruning_stripe = ucast (((block_height div CRYPTONOTE_PRUNING_STRIPE_SIZE) AND mask) + 1) :: u32
     in if block_pruning_stripe = stripe then block_height
     else let cycles = drop_bit (unat log_stripes) (block_height div CRYPTONOTE_PRUNING_STRIPE_SIZE);
              cycle_start = cycles + (if stripe > block_pruning_stripe then 0 else 1);
              h = cycle_start * push_bit (unat log_stripes) CRYPTONOTE_PRUNING_STRIPE_SIZE +
                  ucast ((stripe - 1) * CRYPTONOTE_PRUNING_STRIPE_SIZE)
     in if h + CRYPTONOTE_PRUNING_TIP_BLOCKS > blockchain_height
        then (if blockchain_height < CRYPTONOTE_PRUNING_TIP_BLOCKS then 0 else blockchain_height - CRYPTONOTE_PRUNING_TIP_BLOCKS)
     else if \<not> h \<ge> block_height then block_height
     else h)"

definition get_next_pruned_block_height :: "u64 \<Rightarrow> u64 \<Rightarrow> u32 \<Rightarrow> u64 option" where
  "get_next_pruned_block_height block_height blockchain_height pruning_seed =
    (let stripe = get_seed_stripe pruning_seed
     in if stripe = 0 then Some blockchain_height
     else if block_height + CRYPTONOTE_PRUNING_TIP_BLOCKS \<ge> blockchain_height then Some blockchain_height
     else let seed_log_stripes = get_pruning_log_stripes pruning_seed;
              log_stripes = (if seed_log_stripes \<noteq> 0 then seed_log_stripes else CRYPTONOTE_PRUNING_LOG_STRIPES);
              mask = push_bit (unat log_stripes) 1 - 1 :: u64;
              block_pruning_seed = ucast (((block_height div CRYPTONOTE_PRUNING_STRIPE_SIZE) AND mask) + 1) :: u32
     in if block_pruning_seed \<noteq> stripe then Some block_height
     else let next_stripe = ucast (1 + (ucast block_pruning_seed AND mask)) :: u32
     in do {
       seed \<leftarrow> make_pruning_seed next_stripe log_stripes;
       Some (get_next_unpruned_block_height block_height blockchain_height seed) })"

text \<open>The random stripe, for the byte that the generator returns.\<close>

definition get_random_stripe :: "u8 \<Rightarrow> u32" where
  "get_random_stripe r = 1 + ucast r mod push_bit (unat CRYPTONOTE_PRUNING_LOG_STRIPES) 1"

section \<open>Seeds\<close>

lemmas pruning_constants =
  CRYPTONOTE_PRUNING_STRIPE_SIZE_def CRYPTONOTE_PRUNING_LOG_STRIPES_def CRYPTONOTE_PRUNING_TIP_BLOCKS_def CRYPTONOTE_MAX_BLOCK_NUMBER_def

lemma unat_mask_and:
  "unat (x AND (push_bit l 1 - 1) :: u64) = unat x mod 2 ^ l"
proof -
  have "push_bit l 1 - 1 = (mask l :: u64)" by (simp add: mask_eq_decr_exp)
  then show ?thesis by (simp only: unat_and_mask)
qed

lemma unat_log_stripes: "unat (get_pruning_log_stripes seed) = unat seed div 128 mod 8"
proof -
  have "(0x7 :: u32) = mask 3" by (simp add: mask_eq_exp_minus_1)
  then show ?thesis by (simp only: get_pruning_log_stripes_def wnat) simp
qed

lemma unat_seed_stripe: "unat (get_seed_stripe seed) = (if seed = 0 then 0 else 1 + unat seed mod 128)"
proof -
  have "(0x7f :: u32) = mask 7" by (simp add: mask_eq_exp_minus_1)
  then have "unat (drop_bit 0 seed AND 0x7f) = unat seed mod 128" by (simp only: wnat) simp
  then show ?thesis by (simp add: get_seed_stripe_def unat_word_ariths)
qed

lemma power_le_128: "l \<le> 7 \<Longrightarrow> (2 :: nat) ^ l \<le> 128"
  using power_increasing [of l 7 "2 :: nat"] by simp

lemma stripe_range_iff:
  assumes "unat l \<le> 7"
  shows "ucast (stripe :: u32) \<le> push_bit (unat (l :: u32)) (1 :: u64) \<longleftrightarrow> unat stripe \<le> 2 ^ unat l"
proof -
  have "unat (push_bit (unat l) (1 :: u64)) = 2 ^ unat l"
    using power_le_128 [OF assms] by (simp only: unat_push_bit_mult) simp
  then show ?thesis by (simp only: word_le_nat_alt) (simp add: unat_ucast_up)
qed

lemma make_pruning_seed_defined:
  "make_pruning_seed stripe l \<noteq> None \<longleftrightarrow> unat l \<le> 7 \<and> 0 < unat stripe \<and> unat stripe \<le> 2 ^ unat l"
  using stripe_range_iff [of l stripe] by (auto simp: make_pruning_seed_def word_le_nat_alt word_less_nat_alt)

lemma make_pruning_seed_value:
  assumes "make_pruning_seed stripe l = Some seed"
  shows "unat l \<le> 7" "0 < unat stripe" "unat stripe \<le> 2 ^ unat l" "unat seed = 128 * unat l + (unat stripe - 1)"
proof -
  have d: "unat l \<le> 7" "0 < unat stripe" "unat stripe \<le> 2 ^ unat l"
    using assms make_pruning_seed_defined [of stripe l] by auto
  then show "unat l \<le> 7" "0 < unat stripe" "unat stripe \<le> 2 ^ unat l" by simp_all
  have s: "unat (stripe - 1) = unat stripe - 1" using d(2) unat_sub_no_borrow [of 1 stripe] by (simp add: word_le_nat_alt)
  have b: "unat (stripe - 1) < 128" using d(2,3) power_le_128 [OF d(1)] by (simp add: s)
  have p: "unat (push_bit 7 l) = 128 * unat l" using d(1) by (simp add: unat_push_bit_mult)
  have "take_bit 7 (stripe - 1) = stripe - 1" using b by (intro word_eq_unatI) (simp add: unat_take_bit_mod)
  moreover have "push_bit 7 l AND take_bit 7 (stripe - 1) = 0" by (rule bit_word_eqI) (auto simp: bit_simps)
  ultimately have "push_bit 7 l AND (stripe - 1) = 0" by simp
  then have "unat (push_bit 7 l OR (stripe - 1)) = 128 * unat l + (unat stripe - 1)"
    using unat_or_disjoint [of "push_bit 7 l" "stripe - 1"] b d(1) by (simp add: p s)
  moreover have "seed = push_bit 7 l OR (stripe - 1)" using assms by (auto simp: make_pruning_seed_def split: if_splits)
  ultimately show "unat seed = 128 * unat l + (unat stripe - 1)" by simp
qed

lemma seed_fields:
  assumes "make_pruning_seed stripe l = Some seed"
  shows "get_pruning_log_stripes seed = l" "get_seed_stripe seed = (if l = 0 then 0 else stripe)" "seed = 0 \<longleftrightarrow> l = 0"
proof -
  note v = make_pruning_seed_value [OF assms]
  have b: "unat stripe - 1 < 128" using v power_le_128 [OF v(1)] by linarith
  show "get_pruning_log_stripes seed = l" using v b by (intro word_eq_unatI) (simp add: unat_log_stripes)
  have z: "seed = 0 \<longleftrightarrow> l = 0" using v by (auto simp: unat_eq_zero [symmetric] simp del: unat_eq_zero)
  then show "seed = 0 \<longleftrightarrow> l = 0" .
  have "unat seed mod 128 = unat stripe - 1" using b by (simp only: v(4)) simp
  then show "get_seed_stripe seed = (if l = 0 then 0 else stripe)"
    using v(2) z by (intro word_eq_unatI) (auto simp: unat_seed_stripe)
qed

section \<open>Heights\<close>

text \<open>The stripe of a height, counted from 1, and the blocks that a node with a seed keeps.\<close>

definition stripe_of :: "nat \<Rightarrow> nat \<Rightarrow> nat" where
  "stripe_of l x = x div 4096 mod 2 ^ l + 1"

lemma unat_block_stripe:
  assumes "l \<le> 7"
  shows "unat (ucast (((bh :: u64) div CRYPTONOTE_PRUNING_STRIPE_SIZE AND (push_bit l 1 - 1)) + 1) :: u32) = stripe_of l (unat bh)"
proof -
  have "unat bh div 4096 mod 2 ^ l < 128"
    using power_le_128 [OF assms] by (intro less_le_trans [OF mod_less_divisor]) simp_all
  moreover have "unat ((bh div CRYPTONOTE_PRUNING_STRIPE_SIZE) AND (push_bit l 1 - 1)) = unat bh div 4096 mod 2 ^ l"
    by (simp only: unat_mask_and unat_div_nat CRYPTONOTE_PRUNING_STRIPE_SIZE_def) simp
  ultimately show ?thesis by (simp add: stripe_of_def unat_ucast_mod unat_add_wrap)
qed

lemma has_unpruned_block_iff:
  assumes "make_pruning_seed stripe l = Some seed" "unat bh + 5500 < 2 ^ 64"
  shows "has_unpruned_block bh bch seed \<longleftrightarrow> unat bch \<le> unat bh + 5500 \<or> stripe_of (unat l) (unat bh) = unat stripe"
proof (cases "l = 0")
  case True
  with make_pruning_seed_value [OF assms(1)] show ?thesis
    by (auto simp: has_unpruned_block_def seed_fields [OF assms(1)] stripe_of_def)
next
  case False
  note v = make_pruning_seed_value [OF assms(1)]
  let ?b = "ucast ((bh div CRYPTONOTE_PRUNING_STRIPE_SIZE AND (push_bit (unat l) 1 - 1)) + 1) :: u32"
  have tip: "bh + CRYPTONOTE_PRUNING_TIP_BLOCKS \<ge> bch \<longleftrightarrow> unat bch \<le> unat bh + 5500"
    using assms(2) by (simp add: word_le_nat_alt unat_add_wrap CRYPTONOTE_PRUNING_TIP_BLOCKS_def)
  have u: "unat ?b = stripe_of (unat l) (unat bh)" by (rule unat_block_stripe [OF v(1)])
  then have "?b \<noteq> 0" by (auto simp: stripe_of_def)
  moreover have "?b = stripe \<longleftrightarrow> stripe_of (unat l) (unat bh) = unat stripe"
    using u word_eq_unatI [of ?b stripe] by auto
  moreover have "stripe \<noteq> 0" using v(2) by auto
  ultimately show ?thesis
    by (simp add: has_unpruned_block_def get_pruning_stripe_def seed_fields [OF assms(1)] False tip Let_def)
qed

text \<open>The first height of the next run of a stripe, as the code computes it, on natural numbers.\<close>

definition next_run :: "nat \<Rightarrow> nat \<Rightarrow> nat \<Rightarrow> nat" where
  "next_run l stripe x =
    (x div 4096 div 2 ^ l + (if stripe > stripe_of l x then 0 else 1)) * (4096 * 2 ^ l) + (stripe - 1) * 4096"

lemma next_run_div: "next_run l stripe x div 4096 =
    (x div 4096 div 2 ^ l + (if stripe > stripe_of l x then 0 else 1)) * 2 ^ l + (stripe - 1)"
proof -
  have "next_run l stripe x = 4096 *
      ((x div 4096 div 2 ^ l + (if stripe > stripe_of l x then 0 else 1)) * 2 ^ l + (stripe - 1))"
    by (simp add: next_run_def algebra_simps)
  then show ?thesis by simp
qed

lemma next_run_stripe:
  assumes "0 < stripe" "stripe \<le> 2 ^ l"
  shows "stripe_of l (next_run l stripe x) = stripe"
proof -
  have "(c * 2 ^ l + (stripe - 1)) mod 2 ^ l = stripe - 1" for c using assms by (subst mod_mult_self3) simp
  then show ?thesis using assms(1) by (simp only: stripe_of_def next_run_div)
qed

lemma next_run_ge:
  assumes "0 < stripe" "stripe \<le> 2 ^ l" "stripe_of l x \<noteq> stripe"
  shows "x < next_run l stripe x"
proof -
  let ?q = "x div 4096"
  have m: "?q = ?q div 2 ^ l * 2 ^ l + ?q mod 2 ^ l" by (simp only: div_mult_mod_eq)
  have "?q < next_run l stripe x div 4096"
  proof (cases "stripe > stripe_of l x")
    case True
    then have "?q mod 2 ^ l < stripe - 1" using assms by (simp add: stripe_of_def)
    with True m show ?thesis unfolding next_run_div by auto
  next
    case False
    have "?q mod 2 ^ l < 2 ^ l" by simp
    with m have "?q < ?q div 2 ^ l * 2 ^ l + 2 ^ l" by linarith
    with False show ?thesis unfolding next_run_div by simp
  qed
  then show ?thesis by (metis div_le_mono not_le)
qed

lemma next_run_least:
  assumes "0 < stripe" "stripe \<le> 2 ^ l" "stripe_of l x \<noteq> stripe" "x \<le> y" "y < next_run l stripe x"
  shows "stripe_of l y \<noteq> stripe"
proof
  assume s: "stripe_of l y = stripe"
  define q r where "q = x div 4096" and "r = y div 4096"
  have qr: "q \<le> r" unfolding q_def r_def by (rule div_le_mono [OF assms(4)])
  have rm: "r mod 2 ^ l = stripe - 1" using s by (simp add: stripe_of_def r_def)
  have sq: "stripe_of l x = q mod 2 ^ l + 1" by (simp add: stripe_of_def q_def)
  define c where "c = q div 2 ^ l + (if stripe > stripe_of l x then 0 else 1 :: nat)"
  have "next_run l stripe x = 4096 * (c * 2 ^ l + (stripe - 1))"
    by (simp add: next_run_def c_def q_def algebra_simps)
  with assms(5) have "r < c * 2 ^ l + (stripe - 1)" unfolding r_def by (simp add: less_mult_imp_div_less mult.commute)
  moreover have "r = r div 2 ^ l * 2 ^ l + (stripe - 1)" using rm by (metis div_mult_mod_eq)
  ultimately have "r div 2 ^ l * 2 ^ l < c * 2 ^ l" by linarith
  then have lt: "r div 2 ^ l < c" by simp
  have "q div 2 ^ l \<le> r div 2 ^ l" by (rule div_le_mono [OF qr])
  with lt have e: "q div 2 ^ l = r div 2 ^ l" "\<not> stripe > stripe_of l x" by (auto simp: c_def split: if_splits)
  from e(1) qr have "q mod 2 ^ l \<le> r mod 2 ^ l" by (metis add_le_cancel_left div_mult_mod_eq)
  with e(2) assms(1,3) show False by (simp add: sq rm)
qed

text \<open>
  The height that the code returns, on natural numbers: within the checked range no product wraps, so the result is the
  height itself, the start of the next run of the stripe, or the first height that is never pruned.
\<close>

definition next_kept :: "nat \<Rightarrow> nat \<Rightarrow> nat \<Rightarrow> nat \<Rightarrow> nat" where
  "next_kept l stripe chain x =
    (if chain \<le> x + 5500 \<or> stripe_of l x = stripe then x
     else if next_run l stripe x + 5500 > chain then chain - 5500 else next_run l stripe x)"

lemma run_bounds:
  assumes "l \<le> 7" "0 < stripe" "stripe \<le> 2 ^ l" "x \<le> 500000001"
  shows "x div 4096 div 2 ^ l \<le> 122071" "(2 :: nat) ^ l \<le> 128" "next_run l stripe x \<le> 122072 * (4096 * 128) + 128 * 4096"
proof -
  have "x div 4096 div 2 ^ l \<le> x div 4096" by (rule div_le_dividend)
  also have "\<dots> \<le> 122071" using div_le_mono [OF assms(4), of 4096] by simp
  finally show q: "x div 4096 div 2 ^ l \<le> 122071" .
  show p: "(2 :: nat) ^ l \<le> 128" by (rule power_le_128 [OF assms(1)])
  show "next_run l stripe x \<le> 122072 * (4096 * 128) + 128 * 4096"
    unfolding next_run_def using q p assms(3) by (intro add_mono mult_mono) auto
qed

lemma unat_next_run:
  assumes "unat l \<le> 7" "0 < unat stripe" "unat stripe \<le> 2 ^ unat l" "unat (bh :: u64) \<le> 500000001"
    and "unat b = stripe_of (unat l) (unat bh)"
  shows "unat ((drop_bit (unat l) (bh div CRYPTONOTE_PRUNING_STRIPE_SIZE) + (if stripe > b then 0 else 1)) *
      push_bit (unat l) CRYPTONOTE_PRUNING_STRIPE_SIZE + ucast ((stripe - 1) * CRYPTONOTE_PRUNING_STRIPE_SIZE :: u32))
    = next_run (unat l) (unat stripe) (unat bh)"
proof -
  let ?c = "unat bh div 4096 div 2 ^ unat l + (if unat stripe > stripe_of (unat l) (unat bh) then 0 else 1)"
  note q = run_bounds(1) [OF assms(1-4)] and p = run_bounds(2) [OF assms(1-4)]
  have st: "unat (stripe - 1) = unat stripe - 1" using assms(2) unat_sub_no_borrow [of 1 stripe] by (simp add: word_le_nat_alt)
  have s: "unat ((stripe - 1) * 4096 :: u32) = (unat stripe - 1) * 4096"
    using assms(3) p by (simp only: unat_mult_wrap st) simp
  have us: "unat (ucast ((stripe - 1) * 4096 :: u32) :: u64) = (unat stripe - 1) * 4096"
    by (subst unat_ucast_up) (simp, rule s)
  have c: "unat (drop_bit (unat l) (bh div 4096) + (if stripe > b then 0 else 1)) = ?c"
    using q assms(5) by (simp add: unat_add_wrap unat_drop_bit_div unat_div_nat word_less_nat_alt)
  have r: "unat (push_bit (unat l) (4096 :: u64)) = 4096 * 2 ^ unat l" using p by (simp only: unat_push_bit_mult) simp
  have b: "?c * (4096 * 2 ^ unat l) + (unat stripe - 1) * 4096 < 2 ^ 64"
    using run_bounds(3) [OF assms(1-4)] by (simp add: next_run_def)
  have len: "(2 :: nat) ^ LENGTH(64) = 2 ^ 64" by simp
  have m: "unat ((drop_bit (unat l) (bh div 4096) + (if stripe > b then 0 else 1)) * push_bit (unat l) (4096 :: u64)) = ?c * (4096 * 2 ^ unat l)"
    unfolding unat_mult_wrap c r len by (rule mod_less) (use b in linarith)
  show ?thesis
    unfolding next_run_def CRYPTONOTE_PRUNING_STRIPE_SIZE_def unfolding unat_add_wrap m us len by (rule mod_less [OF b])
qed

lemma next_unpruned_value:
  assumes "make_pruning_seed stripe l = Some seed" "unat bh \<le> 500000001" "unat bch \<le> 500000001"
  shows "unat (get_next_unpruned_block_height bh bch seed) = next_kept (unat l) (unat stripe) (unat bch) (unat bh)"
proof (cases "l = 0")
  case True
  with make_pruning_seed_value [OF assms(1)] show ?thesis
    by (auto simp: get_next_unpruned_block_height_def seed_fields [OF assms(1)] next_kept_def stripe_of_def)
next
  case False
  note v = make_pruning_seed_value [OF assms(1)]
  let ?b = "ucast ((bh div CRYPTONOTE_PRUNING_STRIPE_SIZE AND (push_bit (unat l) 1 - 1)) + 1) :: u32"
  define h where "h = (drop_bit (unat l) (bh div CRYPTONOTE_PRUNING_STRIPE_SIZE) + (if stripe > ?b then 0 else 1)) *
      push_bit (unat l) CRYPTONOTE_PRUNING_STRIPE_SIZE + ucast ((stripe - 1) * CRYPTONOTE_PRUNING_STRIPE_SIZE :: u32)"
  have u: "unat ?b = stripe_of (unat l) (unat bh)" by (rule unat_block_stripe [OF v(1)])
  have h: "unat h = next_run (unat l) (unat stripe) (unat bh)" unfolding h_def by (rule unat_next_run [OF v(1-3) assms(2) u])
  have own: "?b = stripe \<longleftrightarrow> stripe_of (unat l) (unat bh) = unat stripe"
    using u word_eq_unatI [of ?b stripe] by auto
  have z: "stripe \<noteq> 0" using v(2) by auto
  have max: "bh \<le> CRYPTONOTE_MAX_BLOCK_NUMBER + 1" "bch \<le> CRYPTONOTE_MAX_BLOCK_NUMBER + 1"
    using assms(2,3) by (simp_all add: CRYPTONOTE_MAX_BLOCK_NUMBER_def word_le_nat_alt)
  have tip: "bch \<le> bh + CRYPTONOTE_PRUNING_TIP_BLOCKS \<longleftrightarrow> unat bch \<le> unat bh + 5500"
    using assms(2) by (simp add: word_le_nat_alt unat_add_wrap CRYPTONOTE_PRUNING_TIP_BLOCKS_def)
  let ?r = "next_run (unat l) (unat stripe) (unat bh)"
  have tiph: "bch < h + CRYPTONOTE_PRUNING_TIP_BLOCKS \<longleftrightarrow> unat bch < ?r + 5500"
    using run_bounds(3) [OF v(1-3) assms(2)] by (simp add: word_less_nat_alt unat_add_wrap h CRYPTONOTE_PRUNING_TIP_BLOCKS_def)
  have e: "get_next_unpruned_block_height bh bch seed =
    (if bch \<le> bh + CRYPTONOTE_PRUNING_TIP_BLOCKS then bh else if ?b = stripe then bh
     else if bch < h + CRYPTONOTE_PRUNING_TIP_BLOCKS
       then (if bch < CRYPTONOTE_PRUNING_TIP_BLOCKS then 0 else bch - CRYPTONOTE_PRUNING_TIP_BLOCKS)
     else if \<not> bh \<le> h then bh else h)"
    by (simp add: get_next_unpruned_block_height_def seed_fields [OF assms(1)] False z max Let_def h_def)
  have ge: "stripe_of (unat l) (unat bh) \<noteq> unat stripe \<Longrightarrow> bh \<le> h"
    using next_run_ge [OF v(2,3)] by (fastforce simp: word_le_nat_alt h)
  show ?thesis
    unfolding e next_kept_def own tip tiph using ge h
    by (auto simp: CRYPTONOTE_PRUNING_TIP_BLOCKS_def unat_sub_no_borrow word_le_nat_alt word_less_nat_alt)
qed

text \<open>It is the least height from the given one on whose block is kept.\<close>

definition kept :: "nat \<Rightarrow> nat \<Rightarrow> nat \<Rightarrow> nat \<Rightarrow> bool" where
  "kept l stripe chain x \<longleftrightarrow> chain \<le> x + 5500 \<or> stripe_of l x = stripe"

lemma next_kept_least:
  assumes "0 < stripe" "stripe \<le> 2 ^ l"
  shows "x \<le> next_kept l stripe chain x" "kept l stripe chain (next_kept l stripe chain x)"
    "x \<le> y \<Longrightarrow> y < next_kept l stripe chain x \<Longrightarrow> \<not> kept l stripe chain y"
proof -
  have ge: "stripe_of l x \<noteq> stripe \<Longrightarrow> x < next_run l stripe x" by (rule next_run_ge [OF assms])
  then show "x \<le> next_kept l stripe chain x" by (auto simp: next_kept_def)
  show "kept l stripe chain (next_kept l stripe chain x)"
    using next_run_stripe [OF assms, of x] by (auto simp: next_kept_def kept_def)
  show "\<not> kept l stripe chain y" if "x \<le> y" "y < next_kept l stripe chain x"
    using that next_run_least [OF assms _ that(1)] by (auto simp: next_kept_def kept_def split: if_splits)
qed

lemma kept_iff:
  assumes "make_pruning_seed stripe l = Some seed" "unat x \<le> 500000001"
  shows "has_unpruned_block x bch seed \<longleftrightarrow> kept (unat l) (unat stripe) (unat bch) (unat x)"
  using has_unpruned_block_iff [OF assms(1)] assms(2) by (simp add: kept_def)

lemma next_kept_bound:
  assumes "0 < stripe" "stripe \<le> 2 ^ l" "x \<le> m" "chain \<le> m"
  shows "next_kept l stripe chain x \<le> m"
  using assms by (auto simp: next_kept_def)

text \<open>In the run of a stripe, the next stripe begins where the run ends.\<close>

lemma next_stripe_run:
  assumes "0 < l" "x \<le> y" "y < next_kept l (stripe_of l x mod 2 ^ l + 1) chain x"
  shows "stripe_of l y = stripe_of l x"
proof -
  let ?n = "stripe_of l x mod 2 ^ l + 1" and ?e = "(x div 4096 + 1) * 4096"
  have n: "0 < ?n" "?n \<le> 2 ^ l" by (simp_all add: Suc_leI)
  have "stripe_of l ?e = ?n" by (simp add: stripe_of_def mod_Suc_eq)
  then have "kept l ?n chain ?e" by (simp add: kept_def)
  moreover have "x mod 4096 < 4096" by simp
  then have "x \<le> ?e" using div_mult_mod_eq [of x 4096] by (simp only: distrib_right)
  ultimately have "next_kept l ?n chain x \<le> ?e" using next_kept_least(3) [OF n, of x ?e chain] by (meson not_le)
  with assms(3) have "y < ?e" by linarith
  then have "y div 4096 = x div 4096"
    using div_le_mono [OF assms(2), of 4096] by (simp add: less_mult_imp_div_less le_antisym mult.commute less_Suc_eq_le [symmetric])
  then show ?thesis by (simp add: stripe_of_def)
qed

lemma next_pruned_value:
  assumes "make_pruning_seed stripe l = Some seed" "l \<noteq> 0" "unat bh \<le> 500000001" "unat bch \<le> 500000001"
  shows "\<exists>r. get_next_pruned_block_height bh bch seed = Some r \<and> unat r =
    (if unat bch \<le> unat bh + 5500 then unat bch
     else if stripe_of (unat l) (unat bh) \<noteq> unat stripe then unat bh
     else next_kept (unat l) (stripe_of (unat l) (unat bh) mod 2 ^ unat l + 1) (unat bch) (unat bh))"
proof -
  note v = make_pruning_seed_value [OF assms(1)]
  let ?b = "ucast ((bh div CRYPTONOTE_PRUNING_STRIPE_SIZE AND (push_bit (unat l) 1 - 1)) + 1) :: u32"
  let ?n = "ucast (1 + (ucast ?b AND (push_bit (unat l) 1 - 1) :: u64)) :: u32"
  have u: "unat ?b = stripe_of (unat l) (unat bh)" by (rule unat_block_stripe [OF v(1)])
  have own: "?b = stripe \<longleftrightarrow> stripe_of (unat l) (unat bh) = unat stripe"
    using u word_eq_unatI [of ?b stripe] by auto
  have p: "stripe_of (unat l) (unat bh) mod 2 ^ unat l < 128"
    using power_le_128 [OF v(1)] by (intro less_le_trans [OF mod_less_divisor]) simp_all
  have m: "unat (ucast ?b AND (push_bit (unat l) 1 - 1) :: u64) = stripe_of (unat l) (unat bh) mod 2 ^ unat l"
    unfolding unat_mask_and by (subst unat_ucast_up) (simp, simp only: u)
  have n: "unat ?n = stripe_of (unat l) (unat bh) mod 2 ^ unat l + 1"
    using p by (simp only: unat_ucast_mod unat_add_wrap m) simp
  have "make_pruning_seed ?n l \<noteq> None" unfolding make_pruning_seed_defined n using v(1) by (simp add: Suc_leI)
  then obtain seed2 where s2: "make_pruning_seed ?n l = Some seed2" by blast
  have tip: "bch \<le> bh + CRYPTONOTE_PRUNING_TIP_BLOCKS \<longleftrightarrow> unat bch \<le> unat bh + 5500"
    using assms(3) by (simp add: word_le_nat_alt unat_add_wrap CRYPTONOTE_PRUNING_TIP_BLOCKS_def)
  have z: "stripe \<noteq> 0" using v(2) by auto
  have "get_next_pruned_block_height bh bch seed =
    (if bch \<le> bh + CRYPTONOTE_PRUNING_TIP_BLOCKS then Some bch else if ?b \<noteq> stripe then Some bh
     else Some (get_next_unpruned_block_height bh bch seed2))"
    unfolding get_next_pruned_block_height_def seed_fields [OF assms(1)] Let_def using assms(2) z s2
    by (cases "?b = stripe") simp_all
  then show ?thesis
    unfolding own tip using next_unpruned_value [OF s2 assms(3,4), unfolded n] by simp
qed

lemma next_pruned_correct:
  assumes "make_pruning_seed stripe l = Some seed" "unat bh \<le> 500000001" "unat bch \<le> 500000001"
  shows "\<exists>r. get_next_pruned_block_height bh bch seed = Some r \<and> (\<forall>x. bh \<le> x \<and> x < r \<longrightarrow> has_unpruned_block x bch seed) \<and>
      (has_unpruned_block r bch seed \<longrightarrow> unat bch \<le> unat r + 5500)"
proof (cases "l = 0")
  case True
  then show ?thesis
    by (simp add: get_next_pruned_block_height_def has_unpruned_block_def seed_fields [OF assms(1)])
next
  case False
  note v = make_pruning_seed_value [OF assms(1)]
  let ?l = "unat l" and ?x = "unat bh" and ?c = "unat bch"
  let ?n = "stripe_of ?l ?x mod 2 ^ ?l + 1"
  have n: "0 < ?n" "?n \<le> 2 ^ ?l" by (simp_all add: Suc_leI)
  from next_pruned_value [OF assms(1) False assms(2,3)] obtain r where
    r: "get_next_pruned_block_height bh bch seed = Some r"
    "unat r = (if ?c \<le> ?x + 5500 then ?c else if stripe_of ?l ?x \<noteq> unat stripe then ?x else next_kept ?l ?n ?c ?x)" by blast
  have b: "unat r \<le> 500000001" unfolding r(2) using assms(2,3) next_kept_bound [OF n assms(2,3)] by (simp only: split: if_split) blast
  have "has_unpruned_block x bch seed" if "bh \<le> x" "x < r" for x
  proof -
    have x: "?x \<le> unat x" "unat x < unat r" using that by (simp_all add: word_le_nat_alt word_less_nat_alt)
    then have "kept ?l (unat stripe) ?c (unat x)"
      using next_stripe_run [OF _ x(1), of ?l ?c] False by (auto simp: r(2) kept_def unat_gt_0 split: if_splits)
    then show ?thesis using kept_iff [OF assms(1), of x bch] x b by simp
  qed
  moreover have "?c \<le> unat r + 5500" if "has_unpruned_block r bch seed"
  proof (cases "?c \<le> ?x + 5500 \<or> stripe_of ?l ?x \<noteq> unat stripe")
    case True
    with that kept_iff [OF assms(1) b, of bch] show ?thesis by (auto simp: r(2) kept_def split: if_splits)
  next
    case other: False
    then have e: "unat r = next_kept ?l ?n ?c ?x" "stripe_of ?l ?x = unat stripe" by (simp_all add: r(2))
    have "1 < (2 :: nat) ^ ?l" using False by (intro one_less_power) (simp_all add: unat_gt_0)
    then have "?n \<noteq> unat stripe" using v(2,3) unfolding e(2)
      by (cases "unat stripe = 2 ^ ?l") auto
    moreover have "kept ?l (unat stripe) ?c (unat r)" using that kept_iff [OF assms(1) b, of bch] by simp
    moreover have "kept ?l ?n ?c (unat r)" unfolding e(1) by (rule next_kept_least(2) [OF n])
    ultimately show ?thesis by (auto simp: kept_def)
  qed
  ultimately show ?thesis using r(1) by blast
qed

section \<open>Properties\<close>

text \<open>\<open>make_pruning_seed\<close> throws exactly on a logarithm above 7 or a stripe outside 1 to the number of stripes, and a seed
  that it makes reads back as the logarithm and the stripe it was made of, except that the seed of a single stripe is 0, which
  reads as no pruning.\<close>

theorem pruning_seed_roundtrip:
  "case make_pruning_seed stripe log_stripes of
     None \<Rightarrow> unat log_stripes > 7 \<or> stripe = 0 \<or> unat stripe > 2 ^ unat log_stripes
   | Some seed \<Rightarrow> log_stripes \<le> 7 \<and> 0 < stripe \<and> unat stripe \<le> 2 ^ unat log_stripes \<and>
       get_pruning_log_stripes seed = log_stripes \<and> get_seed_stripe seed = (if log_stripes = 0 then 0 else stripe) \<and>
       (seed = 0 \<longleftrightarrow> log_stripes = 0)"
proof (cases "make_pruning_seed stripe log_stripes")
  case None
  with make_pruning_seed_defined [of stripe log_stripes] show ?thesis by (auto simp: not_le unat_eq_zero)
next
  case (Some seed)
  with make_pruning_seed_value [OF Some] seed_fields [OF Some] show ?thesis
    by (simp add: word_le_nat_alt word_less_nat_alt)
qed

text \<open>C11: For every seed that \<open>make_pruning_seed\<close> makes, and heights up to the largest block number,
  \<open>get_next_unpruned_block_height\<close> is the least height from the given one on whose block a node with that seed keeps, and
  \<open>get_next_pruned_block_height\<close> succeeds with a height before which the node keeps every block from the given one on, and
  whose own block it does not keep unless it is among the blocks at the tip that nobody prunes.\<close>

theorem next_block_heights:
  assumes "make_pruning_seed stripe log_stripes = Some seed" "unat bh \<le> 500000001" "unat bch \<le> 500000001"
  shows "(let r = get_next_unpruned_block_height bh bch seed
      in bh \<le> r \<and> has_unpruned_block r bch seed \<and> (\<forall>x. bh \<le> x \<and> x < r \<longrightarrow> \<not> has_unpruned_block x bch seed)) \<and>
    (\<exists>r. get_next_pruned_block_height bh bch seed = Some r \<and> (\<forall>x. bh \<le> x \<and> x < r \<longrightarrow> has_unpruned_block x bch seed) \<and>
      (has_unpruned_block r bch seed \<longrightarrow> unat bch \<le> unat r + 5500))"
proof
  note v = make_pruning_seed_value [OF assms(1)]
  let ?r = "get_next_unpruned_block_height bh bch seed"
  let ?k = "kept (unat log_stripes) (unat stripe) (unat bch)"
  note r = next_unpruned_value [OF assms] and least = next_kept_least [OF v(2,3)]
  have b: "unat ?r \<le> 500000001" unfolding r by (rule next_kept_bound [OF v(2,3) assms(2,3)])
  have "has_unpruned_block ?r bch seed" unfolding kept_iff [OF assms(1) b] r by (rule least(2))
  moreover have "bh \<le> ?r" unfolding word_le_nat_alt r by (rule least(1))
  moreover have "\<not> has_unpruned_block x bch seed" if "bh \<le> x" "x < ?r" for x
    using that b least(3) [of "unat bh" "unat x" "unat bch"] kept_iff [OF assms(1), of x bch]
    by (simp add: word_le_nat_alt word_less_nat_alt r)
  ultimately show "let r = ?r in bh \<le> r \<and> has_unpruned_block r bch seed \<and>
      (\<forall>x. bh \<le> x \<and> x < r \<longrightarrow> \<not> has_unpruned_block x bch seed)" by (simp add: Let_def)
  show "\<exists>r. get_next_pruned_block_height bh bch seed = Some r \<and> (\<forall>x. bh \<le> x \<and> x < r \<longrightarrow> has_unpruned_block x bch seed) \<and>
      (has_unpruned_block r bch seed \<longrightarrow> unat bch \<le> unat r + 5500)"
    by (rule next_pruned_correct [OF assms])
qed

theorem next_block_heights_witness:
  "make_pruning_seed 3 3 = Some 386 \<and> get_next_unpruned_block_height 0 100000 386 = 8192 \<and> \<not> has_unpruned_block 8191 100000 386 \<and>
    get_next_pruned_block_height 8192 100000 386 = Some 12288 \<and> has_unpruned_block 12287 100000 386"
proof -
  have s: "make_pruning_seed 3 3 = Some 386" by code_simp
  have r: "get_next_unpruned_block_height 0 100000 386 = 8192" "get_next_pruned_block_height 8192 100000 386 = Some 12288" by code_simp+
  have "\<not> has_unpruned_block 8191 100000 386"
    using next_block_heights [OF s, of 0 100000] by (simp add: r Let_def)
  moreover have "has_unpruned_block 12287 100000 386"
    using next_block_heights [OF s, of 8192 100000] by (simp add: r)
  ultimately show ?thesis using s r by blast
qed

end
