(* ===== verification/Reward.thy ===== *)
theory Reward
  imports Int_Util
begin

text \<open>
  The helpers of \<open>src/cryptonote_basic/cryptonote_basic_impl.cpp\<close> that compute: the reward of a block with its penalty for
  large blocks, over the 128 bit arithmetic of \<open>Int_Util\<close>, and the comparison of hashes by their leading bits with the
  template that keeps only those.  A call that returns \<open>false\<close> and a failed assertion are the two errors of the reward.
\<close>

section \<open>Definitions\<close>

definition DIFFICULTY_TARGET :: "u8 \<Rightarrow> nat" where
  "DIFFICULTY_TARGET version = (if version < 2 then 60 else 120)"

definition MONEY_SUPPLY :: u64 where
  "MONEY_SUPPLY = - 1"

definition EMISSION_SPEED_FACTOR_PER_MINUTE :: nat where
  "EMISSION_SPEED_FACTOR_PER_MINUTE = 20"

definition FINAL_SUBSIDY_PER_MINUTE :: u64 where
  "FINAL_SUBSIDY_PER_MINUTE = 300000000000"

definition get_min_block_weight :: "u8 \<Rightarrow> u64" where
  "get_min_block_weight version = (if version < 2 then 20000 else if version < 5 then 60000 else 300000)"

definition get_max_tx_size :: u64 where
  "get_max_tx_size = 1000000"

definition base_reward :: "u64 \<Rightarrow> u8 \<Rightarrow> u64" where
  "base_reward already_generated_coins version =
    (let target_minutes = DIFFICULTY_TARGET version div 60;
         emission_speed_factor = EMISSION_SPEED_FACTOR_PER_MINUTE - (target_minutes - 1);
         base = drop_bit emission_speed_factor (MONEY_SUPPLY - already_generated_coins);
         floor = FINAL_SUBSIDY_PER_MINUTE * of_nat target_minutes
     in if base < floor then floor else base)"

datatype reward_error = Block_too_big | Reward_assertion

definition get_block_reward :: "u64 \<Rightarrow> u64 \<Rightarrow> u64 \<Rightarrow> u8 \<Rightarrow> reward_error + u64" where
  "get_block_reward median_weight current_block_weight already_generated_coins version =
    (let base = base_reward already_generated_coins version;
         full_reward_zone = get_min_block_weight version;
         median_weight = (if median_weight < full_reward_zone then full_reward_zone else median_weight)
     in if current_block_weight \<le> median_weight then Inr base
        else if current_block_weight > 2 * median_weight then Inl Block_too_big
        else let multiplicand = (2 * median_weight - current_block_weight) * current_block_weight
             in case mul128 base multiplicand of
                  None \<Rightarrow> Inl Reward_assertion
                | Some (product_lo, product_hi) \<Rightarrow>
                    (case div128_64 product_hi product_lo median_weight of
                       None \<Rightarrow> Inl Reward_assertion
                     | Some (reward_hi, reward_lo, _, _) \<Rightarrow>
                         (case div128_64 reward_hi reward_lo median_weight of
                            None \<Rightarrow> Inl Reward_assertion
                          | Some (reward_hi, reward_lo, _, _) \<Rightarrow>
                              if reward_hi \<noteq> 0 then Inl Reward_assertion
                              else if \<not> reward_lo < base then Inl Reward_assertion
                              else Inr reward_lo)))"

text \<open>
  Hashes as four little-endian words, compared from the most significant one.  The loops count an index down from 3 and the
  bits that are left; the result of the comparison is negative, zero or positive.
\<close>

fun compare_nbits :: "nat \<Rightarrow> u64 list \<Rightarrow> u64 list \<Rightarrow> nat \<Rightarrow> int" where
  "compare_nbits 0 va vb nbits = 0"
| "compare_nbits (Suc n) va vb nbits =
    (if nbits = 0 then 0
     else let msb_nbits = min 64 nbits;
              van = drop_bit (64 - msb_nbits) (va ! n);
              vbn = drop_bit (64 - msb_nbits) (vb ! n)
          in if van < vbn then - 1 else if van > vbn then 1 else compare_nbits n va vb (nbits - msb_nbits))"

definition hash_words :: "bytes \<Rightarrow> u64 list" where
  "hash_words h = map (\<lambda>n. le_word (take 8 (drop (8 * n) h))) [0..<4]"

definition compare_hash32_reversed_nbits :: "bytes \<Rightarrow> bytes \<Rightarrow> u32 \<Rightarrow> int" where
  "compare_hash32_reversed_nbits ha hb nbits = compare_nbits 4 (hash_words ha) (hash_words hb) (unat nbits)"

fun mask_nbits :: "nat \<Rightarrow> u64 list \<Rightarrow> nat \<Rightarrow> u64 list" where
  "mask_nbits 0 vh nbits = vh"
| "mask_nbits (Suc n) vh nbits =
    (let msb_nbits = min 64 nbits;
         m = (if msb_nbits \<noteq> 0 then NOT (push_bit (64 - msb_nbits) 1 - 1) else 0)
     in mask_nbits n (vh[n := (vh ! n) AND m]) (nbits - msb_nbits))"

definition make_hash32_loose_template :: "u32 \<Rightarrow> bytes \<Rightarrow> bytes" where
  "make_hash32_loose_template nbits h = concat (map (le_bytes 8) (mask_nbits 4 (hash_words h) (unat nbits)))"

section \<open>Reward\<close>

lemma unat_at_least: "unat (if b < f then f else b) = max (unat f) (unat (b :: u64))"
  by (simp add: word_less_nat_alt max_def)

lemma unat_coins_left: "unat (MONEY_SUPPLY - g) = 2 ^ 64 - 1 - unat g"
  unfolding MONEY_SUPPLY_def by (subst unat_sub_no_borrow) (simp_all only: word_n1_ge unat_max_64)

lemma target_values:
  "DIFFICULTY_TARGET version div 60 = (if version < 2 then 1 else 2)"
  "unat (FINAL_SUBSIDY_PER_MINUTE * of_nat 1) = 300000000000" "unat (FINAL_SUBSIDY_PER_MINUTE * of_nat 2) = 600000000000"
  by (simp_all add: DIFFICULTY_TARGET_def FINAL_SUBSIDY_PER_MINUTE_def)

lemma base_reward_value:
  "unat (base_reward g version) =
    (if version < 2 then max 300000000000 ((2 ^ 64 - 1 - unat g) div 2 ^ 20) else max 600000000000 ((2 ^ 64 - 1 - unat g) div 2 ^ 19))"
proof (cases "version < 2")
  case True
  have "EMISSION_SPEED_FACTOR_PER_MINUTE - (1 - 1) = 20" by (simp add: EMISSION_SPEED_FACTOR_PER_MINUTE_def)
  with True show ?thesis
    by (simp only: base_reward_def Let_def target_values unat_at_least unat_drop_bit_div unat_coins_left if_True)
next
  case False
  have "EMISSION_SPEED_FACTOR_PER_MINUTE - (2 - 1) = 19" by (simp add: EMISSION_SPEED_FACTOR_PER_MINUTE_def)
  with False show ?thesis
    by (simp only: base_reward_def Let_def target_values unat_at_least unat_drop_bit_div unat_coins_left if_False)
qed

lemma base_reward_floor: "300000000000 \<le> unat (base_reward g version)"
  unfolding base_reward_value by (cases "version < 2") (simp_all only: if_True if_False max.coboundedI1 numeral_le_iff le_num_simps)

text \<open>The penalty on natural numbers: the share of the base that the square of the excess leaves.\<close>

lemma penalty_product:
  assumes "m < c" "c \<le> 2 * (m :: nat)"
  shows "(2 * m - c) * c + (c - m)\<^sup>2 = m\<^sup>2"
proof -
  obtain d where d: "c = m + d" using assms(1) by (metis less_imp_add_positive)
  then have "2 * m - c = m - d" "d \<le> m" using assms(2) by auto
  then obtain e where "m = d + e" by (metis le_iff_add)
  then show ?thesis by (simp add: d power2_eq_square algebra_simps)
qed

definition penalized :: "nat \<Rightarrow> nat \<Rightarrow> nat \<Rightarrow> nat" where
  "penalized base m c = base * (m\<^sup>2 - (c - m)\<^sup>2) div m\<^sup>2"

lemma penalized_less:
  assumes "0 < base" "m < c" "c \<le> 2 * m"
  shows "penalized base m c < base"
proof -
  have "0 < (c - m)\<^sup>2" "(c - m)\<^sup>2 \<le> m\<^sup>2" using assms by (auto intro!: power_mono)
  then have "base * (m\<^sup>2 - (c - m)\<^sup>2) < base * m\<^sup>2" using assms by simp
  then show ?thesis unfolding penalized_def using less_mult_imp_div_less by blast
qed

lemma unat_multiplicand:
  assumes "m < c" "unat c \<le> 2 * unat m" "unat (m :: u64) < 2 ^ 32"
  shows "unat ((2 * m - c) * c) = (unat m)\<^sup>2 - (unat c - unat m)\<^sup>2"
proof -
  have mc: "unat m < unat c" using assms(1) by (simp add: word_less_nat_alt)
  have e: "(2 * unat m - unat c) * unat c = (unat m)\<^sup>2 - (unat c - unat m)\<^sup>2"
    using penalty_product [OF mc assms(2)] by simp
  have m2: "unat (2 * m) = 2 * unat m" using assms(3) by (simp add: unat_mult_wrap)
  then have s: "unat (2 * m - c) = 2 * unat m - unat c"
    by (subst unat_sub_no_borrow) (simp_all add: word_le_nat_alt assms(2))
  have "(unat m)\<^sup>2 < (2 ^ 32)\<^sup>2" by (rule power_strict_mono [OF assms(3)]) simp_all
  then have "(unat m)\<^sup>2 - (unat c - unat m)\<^sup>2 < 2 ^ 64" by simp
  then show ?thesis by (simp add: unat_mult_wrap s e)
qed

lemma penalty_branch:
  assumes "m < c" "unat c \<le> 2 * unat m" "unat (m :: u64) < 2 ^ 32" "0 < unat base"
    and "mul128 base ((2 * m - c) * c) = Some (lo, hi)"
  shows "\<exists>h1 l1 r1 r2 r3 l2. div128_64 hi lo m = Some (h1, l1, r1, r2) \<and> div128_64 h1 l1 m = Some (0, l2, r1, r3) \<and>
    unat l2 = penalized (unat base) (unat m) (unat c)"
proof -
  have mc: "unat m < unat c" using assms(1) by (simp add: word_less_nat_alt)
  then have m0: "m \<noteq> 0" using assms(2) by auto
  have p: "unat hi * 2 ^ 64 + unat lo = unat base * ((unat m)\<^sup>2 - (unat c - unat m)\<^sup>2)"
    using mul128_exact [OF assms(5)] unat_multiplicand [OF assms(1-3)] by simp
  from div128_64_exact [OF m0, of hi lo] obtain h1 l1 r2 where
    1: "div128_64 hi lo m = Some (h1, l1, 0, r2)" "unat h1 * 2 ^ 64 + unat l1 = (unat hi * 2 ^ 64 + unat lo) div unat m" by blast
  from div128_64_exact [OF m0, of h1 l1] obtain h2 l2 r3 where
    2: "div128_64 h1 l1 m = Some (h2, l2, 0, r3)" "unat h2 * 2 ^ 64 + unat l2 = (unat h1 * 2 ^ 64 + unat l1) div unat m" by blast
  have v: "unat h2 * 2 ^ 64 + unat l2 = penalized (unat base) (unat m) (unat c)"
    unfolding 2(2) 1(2) p penalized_def by (simp add: div_mult2_eq power2_eq_square)
  also have "\<dots> < unat base" by (rule penalized_less [OF assms(4) mc assms(2)])
  finally have "unat h2 * 2 ^ 64 < 2 ^ 64" using unat_bound_64 [of base] by linarith
  then have "h2 = 0" by (simp add: unat_eq_zero [symmetric])
  with 1 2 v show ?thesis by auto
qed

section \<open>Hash templates\<close>

text \<open>A hash and its template agree on the bits that the template keeps.\<close>

lemma drop_bit_and_high_mask:
  assumes "k \<le> 64" "k \<noteq> 0"
  shows "drop_bit (64 - k) (x AND NOT (push_bit (64 - k) 1 - 1) :: u64) = drop_bit (64 - k) x"
proof -
  have "push_bit (64 - k) 1 - 1 = (mask (64 - k) :: u64)" by (simp add: mask_eq_decr_exp)
  then show ?thesis by (intro bit_word_eqI) (auto simp: bit_simps dest: bit_imp_le_length)
qed

lemma mask_nbits_nth: "n \<le> i \<Longrightarrow> mask_nbits n vh nbits ! i = vh ! i"
  by (induction n vh nbits rule: mask_nbits.induct) (auto simp: Let_def)

lemma compare_mask_nbits:
  "n \<le> length vh \<Longrightarrow> \<forall>i < n. vb ! i = vh ! i \<Longrightarrow> compare_nbits n (mask_nbits n vh nbits) vb nbits = 0"
proof (induction n vh nbits rule: mask_nbits.induct)
  case (2 n vh nbits)
  define k where "k = min 64 nbits"
  define m :: u64 where "m = (if k \<noteq> 0 then NOT (push_bit (64 - k) 1 - 1) else 0)"
  have r: "mask_nbits (Suc n) vh nbits = mask_nbits n (vh[n := (vh ! n) AND m]) (nbits - k)"
    by (simp add: k_def m_def Let_def)
  have top: "mask_nbits (Suc n) vh nbits ! n = (vh ! n) AND m" unfolding r using 2(2) by (simp add: mask_nbits_nth)
  have "compare_nbits n (mask_nbits n (vh[n := (vh ! n) AND m]) (nbits - k)) vb (nbits - k) = 0"
    by (rule 2(1) [OF k_def m_def]) (use 2(2,3) in auto)
  moreover have "nbits \<noteq> 0 \<Longrightarrow> drop_bit (64 - k) ((vh ! n) AND m) = drop_bit (64 - k) (vb ! n)"
    using drop_bit_and_high_mask [of k "vh ! n"] 2(3) by (simp add: k_def m_def)
  ultimately show ?case
    unfolding compare_nbits.simps k_def [symmetric] Let_def top by (simp only: r) simp
qed simp

lemma length_mask_nbits [simp]: "length (mask_nbits n vh nbits) = length vh"
  by (induction n vh nbits rule: mask_nbits.induct) (auto simp: Let_def)

lemma upt_4: "[0..<4] = [0, 1, 2, 3 :: nat]"
  by (simp add: upt_rec)

lemma hash_words_bytes:
  assumes "length vs = 4"
  shows "hash_words (concat (map (le_bytes 8) vs)) = vs"
proof -
  obtain a b c d where vs: "vs = [a, b, c, d]" using assms by (auto simp: numeral_eq_Suc length_Suc_conv)
  show ?thesis by (simp add: hash_words_def vs upt_4 le_word_le_bytes)
qed

lemma loose_template_matches:
  "compare_hash32_reversed_nbits (make_hash32_loose_template nbits h) h nbits = 0"
proof -
  have l: "length (hash_words h) = 4" by (simp add: hash_words_def)
  then have "hash_words (make_hash32_loose_template nbits h) = mask_nbits 4 (hash_words h) (unat nbits)"
    unfolding make_hash32_loose_template_def by (intro hash_words_bytes) simp
  then show ?thesis
    unfolding compare_hash32_reversed_nbits_def by (simp only:) (rule compare_mask_nbits, simp_all add: l)
qed

section \<open>Properties\<close>

text \<open>C12: With an effective median weight below 2 to the 32, \<open>get_block_reward\<close> refuses exactly the blocks heavier than twice
  the median, gives a block up to the median the base reward, and a block between the two the base reward times one minus the
  square of the relative excess, rounded down; both assertions hold, no intermediate value wraps, and the base reward is the
  share of the coins that are left, but never below the tail subsidy.\<close>

theorem get_block_reward_spec:
  assumes "m = max (unat median_weight) (unat (get_min_block_weight version))" "m < 2 ^ 32"
    and "base = unat (base_reward g version)" "c = unat current_block_weight"
  shows "(if c \<le> m then get_block_reward median_weight current_block_weight g version = Inr (base_reward g version)
     else if c > 2 * m then get_block_reward median_weight current_block_weight g version = Inl Block_too_big
     else \<exists>r. get_block_reward median_weight current_block_weight g version = Inr r \<and>
       unat r = base * (m\<^sup>2 - (c - m)\<^sup>2) div m\<^sup>2 \<and> unat r < base) \<and>
    base = (if version < 2 then max 300000000000 ((2 ^ 64 - 1 - unat g) div 2 ^ 20)
            else max 600000000000 ((2 ^ 64 - 1 - unat g) div 2 ^ 19))"
proof
  define w where "w = (if median_weight < get_min_block_weight version then get_min_block_weight version else median_weight)"
  define b where "b = base_reward g version"
  have w: "unat w = m" by (simp add: w_def assms(1) word_less_nat_alt max_def)
  have w2: "unat (2 * w) = 2 * m" using assms(2) by (simp add: unat_mult_wrap w)
  have b0: "0 < unat b" using base_reward_floor [of g version] by (simp add: b_def)
  obtain lo hi where mul: "mul128 b ((2 * w - current_block_weight) * current_block_weight) = Some (lo, hi)"
    by (rule mul128_total)
  show "if c \<le> m then get_block_reward median_weight current_block_weight g version = Inr (base_reward g version)
     else if c > 2 * m then get_block_reward median_weight current_block_weight g version = Inl Block_too_big
     else \<exists>r. get_block_reward median_weight current_block_weight g version = Inr r \<and>
       unat r = base * (m\<^sup>2 - (c - m)\<^sup>2) div m\<^sup>2 \<and> unat r < base"
  proof (cases "m < c \<and> c \<le> 2 * m")
    case True
    then have l: "w < current_block_weight" "unat current_block_weight \<le> 2 * unat w" "unat w < 2 ^ 32"
      using assms(2) by (simp_all add: word_less_nat_alt w assms(4))
    from penalty_branch [OF l b0 mul] obtain h1 l1 r1 r2 r3 l2 where
      d: "div128_64 hi lo w = Some (h1, l1, r1, r2)" "div128_64 h1 l1 w = Some (0, l2, r1, r3)"
        "unat l2 = penalized (unat b) m c" by (auto simp: w assms(4))
    have "penalized (unat b) m c < unat b" using penalized_less [OF b0] True by blast
    with d have lt: "l2 < b" by (simp add: word_less_nat_alt)
    have "get_block_reward median_weight current_block_weight g version = Inr l2"
      unfolding get_block_reward_def Let_def w_def [symmetric] b_def [symmetric] using True d lt mul
      by (simp add: word_le_nat_alt word_less_nat_alt w w2 assms(4))
    with True d(3) lt show ?thesis by (simp add: penalized_def assms(3) b_def word_less_nat_alt)
  next
    case False
    then show ?thesis
      unfolding get_block_reward_def Let_def w_def [symmetric] by (auto simp: word_le_nat_alt word_less_nat_alt w w2 assms(4))
  qed
  show "base = (if version < 2 then max 300000000000 ((2 ^ 64 - 1 - unat g) div 2 ^ 20)
            else max 600000000000 ((2 ^ 64 - 1 - unat g) div 2 ^ 19))"
    unfolding assms(3) by (rule base_reward_value)
qed

theorem get_block_reward_spec_witness:
  "get_block_reward 100 300000 (- 1) 16 = Inr (base_reward (- 1) 16) \<and> get_block_reward 100 600001 (- 1) 16 = Inl Block_too_big \<and>
    (\<exists>r. get_block_reward 100 450000 (- 1) 16 = Inr r \<and> unat r = 450000000000)"
proof -
  have b: "600000000000 = unat (base_reward (- 1) 16)" by (simp add: base_reward_value unat_max_64)
  have m: "300000 = max (unat (100 :: u64)) (unat (get_min_block_weight 16))" by (simp add: get_min_block_weight_def)
  have c: "(300000 :: nat) = unat (300000 :: u64)" "(600001 :: nat) = unat (600001 :: u64)" "(450000 :: nat) = unat (450000 :: u64)"
    by simp_all
  have l: "(300000 :: nat) < 2 ^ 32" by simp
  have "get_block_reward 100 300000 (- 1) 16 = Inr (base_reward (- 1) 16)"
    using conjunct1 [OF get_block_reward_spec [OF m l b c(1)]] by simp
  moreover have "get_block_reward 100 600001 (- 1) 16 = Inl Block_too_big"
    using conjunct1 [OF get_block_reward_spec [OF m l b c(2)]] by simp
  moreover have "\<exists>r. get_block_reward 100 450000 (- 1) 16 = Inr r \<and> unat r = 450000000000"
    using conjunct1 [OF get_block_reward_spec [OF m l b c(3)]] by auto
  ultimately show ?thesis by blast
qed

end
