(* ===== verification/Spec2Isabelle.thy ===== *)
theory Spec2Isabelle
  imports Prelude Int_Util Varint Keccak Base58 Difficulty Limbs Scalar25519 Field25519 GroupTables Residue_Ring Group25519 GroupMult PointCodec BaseTable Keys TreeHash HardFork Pruning Reward
begin

text \<open>
  A verification development for the node and wallet sources of this repository, a CryptoNote currency in C and C++.

  \<^bold>\<open>The program and its parts.\<close>  The node checks blocks and transactions and stores them; the wallet makes transactions.
  Both rest on a core of computation, and that core is what is modelled here: integers on the wire
  (\<open>src/common/varint.h\<close>), wide integer arithmetic (\<open>contrib/epee/include/int-util.h\<close>), the hash (\<open>src/crypto/keccak.c\<close>,
  \<open>src/crypto/hash.c\<close>), the tree of transaction hashes (\<open>src/crypto/tree-hash.c\<close>), scalars, field elements and points of the
  curve (\<open>src/crypto/crypto-ops.c\<close>, \<open>src/crypto/crypto-ops-data.c\<close>), keys and signatures (\<open>src/crypto/crypto.cpp\<close>), address
  strings (\<open>src/common/base58.cpp\<close>), difficulty (\<open>src/cryptonote_basic/difficulty.cpp\<close>), reward
  (\<open>src/cryptonote_basic/cryptonote_basic_impl.cpp\<close>), hard fork voting (\<open>src/cryptonote_basic/hardfork.cpp\<close>) and pruning
  seeds (\<open>src/common/pruning.cpp\<close>).  An address is Base58 over a varint tag, data and a hash; a signature check decodes a
  key to a point, multiplies it by scalars, encodes the result and hashes it; a block is accepted when its versions pass the
  hard fork rules, its hash passes the difficulty and its reward is the computed one.

  \<^bold>\<open>Representation.\<close>  Unsigned integers are words of their width, so that they wrap as in the source; the signed integers of
  the curve arithmetic are \<open>int\<close> with two's complement written out (\<open>i64\<close>, \<open>i32\<close>, \<open>i8\<close>).  Buffers, strings, hashes, keys
  and scalars are lists of bytes.  Objects are records, and a method takes the record and returns it updated.  A failed
  assertion, an exception, an abort and an access out of range are failure values (\<open>None\<close> or a constructor of an error
  type), as is the answer \<open>false\<close> of a function with a result.  Loops are structural recursion, folds, or functions with a
  termination proof; there is no fuel, except that the random generator is the list of its draws, and a function that
  exhausts it returns \<open>None\<close>.  A random scalar is found as soon as the list has one draw that is not rejected, and fewer
  than one of sixteen draws is.  Whether \<open>malloc\<close> returns memory is a parameter of the functions on ring signatures.

  \<^bold>\<open>Theories.\<close>

  \<^item> \<open>Prelude\<close>: types, words as natural numbers, little-endian memory, loops that may fail, and the locale \<open>prefix_codec\<close> of
    codes that can be read from the front of a string.

  \<^item> \<open>Int_Util\<close>: products and quotients of 128 bits, byte swaps, rotations and clamped sums are exact.

  \<^item> \<open>Varint\<close>: writer and reader, generic in the type; they are inverse, and an accepted complete varint is canonical.  It
    interprets \<open>prefix_codec\<close>.

  \<^item> \<open>Keccak\<close>: permutation, sponge, incremental interface and fast hash; any way of cutting a message into chunks gives the
    one-shot hash, and the abort conditions are exact.  The locale \<open>hash_function\<close> is what its clients rely on.

  \<^item> \<open>Base58\<close>: block codec, strings and checksummed addresses; decoding accepts exactly what encoding produces.

  \<^item> \<open>Difficulty\<close>: the proof of work test decides \<open>hash * difficulty < 2^256\<close> on both paths; retargeting in both widths, against
    a rule that takes outliers off both ends of the window in turn.

  \<^item> \<open>Limbs\<close>, \<open>Scalar25519\<close>, \<open>Field25519\<close>: arithmetic modulo the group order and modulo \<open>2^255 - 19\<close> in limbs.  An interval
    analysis that runs along with the carries shows that no operation overflows; results are exact, and the bounds on limbs
    that the comments of the source state are the hypotheses and conclusions of the lemmas.  The locale \<open>residue_codes\<close> gives
    the ring laws on the 32 byte scalars.

  \<^item> \<open>Residue_Ring\<close>: the residues as a ring type, and the curve equation and the addition law as identities in it.

  \<^item> \<open>GroupTables\<close>, \<open>BaseTable\<close>: the constants, checked against the equations and the sign of the square roots in the
    comments; the table \<open>ge_Bi\<close> holds the odd multiples of the base point, proved with certified products.

  \<^item> \<open>Group25519\<close>, \<open>GroupMult\<close>, \<open>PointCodec\<close>: all functions on points.  Operations keep points on the curve and limbs in
    bounds.  A multiplication is correct when its result is reached from its arguments by the addition law and carries the
    label, in any commutative ring, that the scalars give as coefficients of the labels of the arguments.  Recodings represent
    the scalar and never run off their arrays; decompression and compression are inverse.

  \<^item> \<open>Keys\<close>: random scalars, key derivations, signatures, transaction proofs and ring signatures, over all of the above.  The
    two checks are characterized exactly, each random scalar is the result of equally many sequences of draws, and a generated
    signature satisfies the equation
    between nonce, challenge, response and secret key that the check tests.

  \<^item> \<open>TreeHash\<close>: the root computed in place equals the recursive tree; the branch of a leaf is accepted; accepting anything
    else exhibits a collision of the hash.

  \<^item> \<open>HardFork\<close>: the voting state machine with the tables of the database that it uses; \<open>hf_reach\<close> closes the public operations
    under arbitrary changes of the blocks by the blockchain.  The invariant of the window and its counters, the exact effect of
    \<open>add\<close>, and that the last fork activates when it is voted for.

  \<^item> \<open>Pruning\<close>: seeds read back as what they were made of, and the next kept and next pruned heights are the right ones.

  \<^item> \<open>Reward\<close>: the reward with its penalty is exact within 128 bit arithmetic; hash templates match their hash.

  \<^bold>\<open>Bounds.\<close>  Scalars given to a multiplication are below \<open>2^255\<close>, which every canonical scalar is; the window of votes is
  shorter than \<open>2^32\<close>, the width of its counters (the source uses 10080); the tree has at most \<open>2^28\<close> leaves, which the source
  asserts; heights for pruning are at most one above the largest block number, which the source checks; the median weight
  is below \<open>2^32\<close>, so that its square fits 64 bits.

  \<^bold>\<open>Not modelled.\<close>  That the curve with its addition law is a group is not proved, so a multiple of a point is known by its
  label and not as a unique point: ring confidential transactions, range proofs and multisignatures (\<open>src/ringct\<close>,
  \<open>src/multisig\<close>), whose correctness rests on the group laws, are left out, and completeness of signatures is stated up to the
  equality of two encodings.  The 256 entries of \<open>ge_base\<close> are only checked to be small, since certifying them is too
  expensive; the digits and the table selection of \<open>ge_scalarmult_base\<close> are verified.  The proof of work hashes and the other
  hash functions (\<open>src/crypto/slow-hash.c\<close>, \<open>src/crypto/rx-slow-hash.c\<close>, \<open>src/crypto/blake2b.c\<close> and others) use machine specific
  code or serve only parts that are not modelled.  The blockchain, the transaction pool, the database, the network protocol,
  the remote procedure calls, the wallets and the devices are input, output, caching and concurrency around the core, and the
  formats of blocks and transactions are template driven serialization.  Locks, logging, timers and the wiping of memory have
  no counterpart in the model.
\<close>

end
